(* ===== verification/Dispatch_Prelude.thy ===== *)
theory Dispatch_Prelude
  imports Complex_Main "HOL-Library.Word" "HOL-Library.Multiset"
begin

text \<open>
  Shared material of the development: the machine integer types, crashes as values, step
  systems with their reachable states, and the generic lemmas on words, lists and sums that
  the components use.  A leading underscore of a C name is written \<open>u_\<close> in the model, so
  \<open>_dispatch_retain\<close> is \<open>u_dispatch_retain\<close>.
\<close>

unbundle bit_operations_syntax

section \<open>Types\<close>

type_synonym u64 = "64 word"
type_synonym u32 = "32 word"
type_synonym u16 = "16 word"

text \<open>
  \<open>DISPATCH_CRASH\<close> and \<open>DISPATCH_CLIENT_CRASH\<close> stop the process with a message; a null pointer
  dereference stops it too.  An operation that can crash returns a sum, with the crash on the
  left.
\<close>

datatype crash =
    Crash string
  | Client_crash string
  | Null_dereference
  | Use_after_free

type_synonym 'a result = "crash + 'a"

abbreviation Ok :: "'a \<Rightarrow> 'a result" where
  "Ok x \<equiv> Inr x"

fun is_ok :: "'a result \<Rightarrow> bool" where
  "is_ok (Inl _) = False"
| "is_ok (Inr _) = True"

fun res_bind :: "'a result \<Rightarrow> ('a \<Rightarrow> 'b result) \<Rightarrow> 'b result" where
  "res_bind (Inl e) f = Inl e"
| "res_bind (Inr x) f = f x"

lemma res_bind_Ok_iff: "res_bind r f = Inr y \<longleftrightarrow> (\<exists>x. r = Inr x \<and> f x = Inr y)"
  by (cases r) auto

lemma is_ok_iff: "is_ok r \<longleftrightarrow> (\<exists>x. r = Inr x)"
  by (cases r) auto

section \<open>Step systems\<close>

text \<open>
  The concurrent parts of the library are step relations; \<open>reach\<close> gives the states that some
  interleaving leads to.
\<close>

inductive reach :: "('s \<Rightarrow> bool) \<Rightarrow> ('s \<Rightarrow> 's \<Rightarrow> bool) \<Rightarrow> 's \<Rightarrow> bool"
  for init :: "'s \<Rightarrow> bool" and step :: "'s \<Rightarrow> 's \<Rightarrow> bool"
where
  reach_init: "init s \<Longrightarrow> reach init step s"
| reach_step: "reach init step s \<Longrightarrow> step s t \<Longrightarrow> reach init step t"

text \<open>
  The contract of an invariant: it holds at the start and every step keeps it.  Each machine of
  the development interprets this locale on its own steps.
\<close>

locale invariant_system =
  fixes init :: "'s \<Rightarrow> bool"
    and step :: "'s \<Rightarrow> 's \<Rightarrow> bool"
    and inv :: "'s \<Rightarrow> bool"
  assumes inv_init: "init s \<Longrightarrow> inv s"
    and inv_step: "inv s \<Longrightarrow> step s t \<Longrightarrow> inv t"
begin

lemma reachable_inv: "reach init step s \<Longrightarrow> inv s"
  by (induction rule: reach.induct) (auto intro: inv_init inv_step)

lemma inv_rtranclp: "step\<^sup>*\<^sup>* s t \<Longrightarrow> inv s \<Longrightarrow> inv t"
  by (induction rule: rtranclp_induct) (auto intro: inv_step)

end

lemma reach_rtranclp: "reach init step s \<Longrightarrow> step\<^sup>*\<^sup>* s t \<Longrightarrow> reach init step t"
  by (rotate_tac, induction rule: rtranclp_induct) (auto intro: reach_step)

section \<open>Words\<close>

text \<open>How signed readings of 64-bit sums and differences relate to the integers.\<close>

lemma sint64_bounds:
  fixes x :: u64
  shows "- (2 ^ 63) \<le> sint x" "sint x < 2 ^ 63"
  using sint_greater_eq [of x] sint_less [of x] by simp_all

lemma sint64_of_int:
  assumes "- (2 ^ 63) \<le> i" "i < 2 ^ 63"
  shows "sint (word_of_int i :: u64) = i"
  using assms by (simp add: signed_of_int signed_take_bit_int_eq_self)

definition wrap64 :: "int \<Rightarrow> int" where
  "wrap64 s = (if s \<ge> 2 ^ 63 then s - 2 ^ 64 else if s < - (2 ^ 63) then s + 2 ^ 64 else s)"

lemma sint64_wrap:
  assumes "- (2 ^ 64) \<le> s" "s < 2 ^ 64"
  shows "sint (word_of_int s :: u64) = wrap64 s"
proof -
  have per: "(word_of_int (s - 2 ^ 64) :: u64) = word_of_int s"
    "(word_of_int (s + 2 ^ 64) :: u64) = word_of_int s"
    by (simp_all add: word_of_int_eq_iff take_bit_eq_mod)
  show ?thesis
    using sint64_of_int [of s] sint64_of_int [of "s - 2 ^ 64"] sint64_of_int [of "s + 2 ^ 64"] assms
    unfolding per wrap64_def by auto
qed

lemma sint64_add: "sint (x + y :: u64) = wrap64 (sint x + sint y)"
proof -
  have "x + y = word_of_int (sint x + sint y)"
    by simp
  then show ?thesis
    using sint64_wrap [of "sint x + sint y"] sint64_bounds [of x] sint64_bounds [of y] by simp
qed

lemma sint64_diff: "sint (x - y :: u64) = wrap64 (sint x - sint y)"
proof -
  have "x - y = word_of_int (sint x - sint y)"
    by simp
  then show ?thesis
    using sint64_wrap [of "sint x - sint y"] sint64_bounds [of x] sint64_bounds [of y] by simp
qed

lemma sint64_uint: "sint (x :: u64) = wrap64 (uint x)"
  using sint64_wrap [of "uint x"] uint_bounded [of x] uint_nonnegative [of x] by simp

lemma uint64_sint: "uint (x :: u64) = (if sint x < 0 then sint x + 2 ^ 64 else sint x)"
proof -
  have "\<not> uint x < - 9223372036854775808"
    using uint_nonnegative [of x] by linarith
  then show ?thesis
    using sint64_uint [of x] uint_bounded [of x] by (auto simp: wrap64_def)
qed

section \<open>Sums over threads\<close>

text \<open>
  Threads are a list of program counters; what an invariant counts is a sum over that list, and a
  step of one thread changes one summand.
\<close>

definition tsum :: "('p \<Rightarrow> int) \<Rightarrow> 'p list \<Rightarrow> int" where
  "tsum f ts = sum_list (map f ts)"

lemma tsum_simps [simp]: "tsum f [] = 0" "tsum f (t # ts) = f t + tsum f ts"
  "tsum f (ts @ us) = tsum f ts + tsum f us"
  by (simp_all add: tsum_def)

lemma tsum_update: "i < length ts \<Longrightarrow> tsum f (ts[i := p]) = tsum f ts - f (ts ! i) + f p"
  by (induction ts arbitrary: i) (auto simp: nth_Cons split: nat.splits)

lemma tsum_nonneg: "(\<And>p. p \<in> set ts \<Longrightarrow> 0 \<le> f p) \<Longrightarrow> 0 \<le> tsum f ts"
  by (induction ts) (auto intro: add_nonneg_nonneg)

lemma tsum_replicate [simp]: "tsum f (replicate n p) = int n * f p"
  by (induction n) (simp_all add: algebra_simps)

lemma tsum_mono: "(\<And>p. p \<in> set ts \<Longrightarrow> f p \<le> g p) \<Longrightarrow> tsum f ts \<le> tsum g ts"
  by (induction ts) (auto intro: add_mono)

lemma tsum_ge:
  assumes "i < length ts" "\<And>p. 0 \<le> f p"
  shows "f (ts ! i) \<le> tsum f ts"
  using assms
proof (induction ts arbitrary: i)
  case (Cons t ts)
  then show ?case
    using tsum_nonneg [of ts f] by (cases i) (auto intro: add_increasing)
qed simp

lemma tsum_le_length: "(\<And>p. f p \<le> 1) \<Longrightarrow> tsum f ts \<le> int (length ts)"
  by (induction ts) (auto intro: add_mono simp: add.commute)

lemma tsum_eq_0D:
  assumes "tsum f ts = 0" "\<And>p. 0 \<le> f p" "i < length ts"
  shows "f (ts ! i) = 0"
  using tsum_ge [OF assms(3), of f] assms(1,2) by (simp add: antisym)

lemma tsum_eq_0I: "(\<And>p. p \<in> set ts \<Longrightarrow> f p = 0) \<Longrightarrow> tsum f ts = 0"
  by (induction ts) auto

lemma tsum_add: "tsum (\<lambda>p. f p + g p) ts = tsum f ts + tsum g ts"
  by (induction ts) auto

lemma tsum_pos_member: "0 < tsum f ts \<Longrightarrow> \<exists>i<length ts. f (ts ! i) \<noteq> 0"
  using tsum_eq_0I [of ts f] by (metis in_set_conv_nth less_irrefl)

lemma tsum_mono_but:
  assumes "i < length ts" "\<And>p. f p \<le> g p"
  shows "tsum f ts - f (ts ! i) \<le> tsum g ts - g (ts ! i)"
  using assms(1)
proof (induction ts arbitrary: i)
  case (Cons t ts)
  show ?case
  proof (cases i)
    case 0
    then show ?thesis
      using tsum_mono [of ts f g] assms(2) by simp
  next
    case (Suc j)
    then show ?thesis
      using Cons.IH [of j] Cons.prems assms(2) [of t] by simp
  qed
qed simp

end
