(* ===== verification/Dispatch_Time.thy ===== *)
theory Dispatch_Time
  imports Dispatch_Prelude
begin

text \<open>
  The time arithmetic of \<open>libdispatch/src/time.c\<close> and \<open>libdispatch/src/shims/time.h\<close>.  A
  \<open>dispatch_time_t\<close> is a 64-bit value with three readings: all ones is "forever", a negative
  value is the negated wall clock in nanoseconds, any other value is the absolute ("mach")
  clock, with 0 for now.  The clocks the code reads are arguments.
\<close>

section \<open>The code\<close>

definition DISPATCH_TIME_NOW :: u64 where
  "DISPATCH_TIME_NOW = 0"

definition DISPATCH_TIME_FOREVER :: u64 where
  "DISPATCH_TIME_FOREVER = NOT 0"

definition NSEC_PER_SEC :: u64 where
  "NSEC_PER_SEC = 1000000000"

definition NSEC_PER_USEC :: u64 where
  "NSEC_PER_USEC = 1000"

record timeval =
  tval_sec :: u64
  tval_usec :: u64

record timespec =
  tv_sec :: u64
  tv_nsec :: u64

text \<open>
  The conversion factor between the absolute clock and nanoseconds.  On Linux and Windows
  \<open>_dispatch_get_host_time_init\<close> sets it to one.  The \<open>long double\<close> arithmetic of the code is
  exact there, and is rational arithmetic here.
\<close>

record host_time_data =
  frac :: rat
  ratio_1_to_1 :: bool

definition u_dispatch_get_host_time_init :: host_time_data where
  "u_dispatch_get_host_time_init = \<lparr>frac = 1, ratio_1_to_1 = True\<rparr>"

definition trunc_rat :: "rat \<Rightarrow> int" where
  "trunc_rat x = (if x < 0 then - \<lfloor>- x\<rfloor> else \<lfloor>x\<rfloor>)"

definition u_dispatch_time_mach2nano :: "host_time_data \<Rightarrow> u64 \<Rightarrow> u64" where
  "u_dispatch_time_mach2nano d machtime = word_of_int (trunc_rat (of_int (uint machtime) * frac d))"

definition u_dispatch_time_nano2mach :: "host_time_data \<Rightarrow> u64 \<Rightarrow> u64" where
  "u_dispatch_time_nano2mach d nsec =
     (if ratio_1_to_1 d then nsec
      else
        let big_tmp = of_int (sint nsec) / frac d in
        if big_tmp > of_int (2 ^ 63 - 1) then word_of_int (2 ^ 63 - 1)
        else if big_tmp < of_int (- (2 ^ 63)) then word_of_int (- (2 ^ 63))
        else word_of_int (trunc_rat big_tmp))"

definition u_dispatch_get_nanoseconds :: "timeval \<Rightarrow> u64" where
  "u_dispatch_get_nanoseconds now = tval_sec now * NSEC_PER_SEC + tval_usec now * NSEC_PER_USEC"

definition u_dispatch_absolute_time :: "timespec \<Rightarrow> u64" where
  "u_dispatch_absolute_time ts = tv_sec ts * NSEC_PER_SEC + tv_nsec ts"

text \<open>\<open>dispatch_time\<close>: \<open>abs_now\<close> is what \<open>_dispatch_absolute_time\<close> returns in the call.\<close>

definition dispatch_time :: "host_time_data \<Rightarrow> u64 \<Rightarrow> u64 \<Rightarrow> u64 \<Rightarrow> u64" where
  "dispatch_time d abs_now inval delta =
     (if inval = DISPATCH_TIME_FOREVER then DISPATCH_TIME_FOREVER
      else if sint inval < 0 then
        (if sint delta \<ge> 0 then
           (let inval' = inval - delta in
            if sint inval' \<ge> 0 then DISPATCH_TIME_FOREVER else inval')
         else
           (let inval' = inval - delta in
            if sint inval' \<ge> -1 then -2 else inval'))
      else
        (let delta' = u_dispatch_time_nano2mach d delta;
             inval1 = (if inval = 0 then abs_now else inval);
             inval' = inval1 + delta' in
         if sint delta' \<ge> 0 then
           (if sint inval' \<le> 0 then DISPATCH_TIME_FOREVER else inval')
         else
           (if sint inval' < 1 then 1 else inval')))"

definition dispatch_walltime :: "timeval \<Rightarrow> timespec option \<Rightarrow> u64 \<Rightarrow> u64" where
  "dispatch_walltime now inval delta =
     (let nsec0 = (case inval of
                     Some ts \<Rightarrow> tv_sec ts * 1000000000 + tv_nsec ts
                   | None \<Rightarrow> u_dispatch_get_nanoseconds now);
          nsec = nsec0 + delta in
      if sint nsec \<le> 1 then
        (if sint delta \<ge> 0 then DISPATCH_TIME_FOREVER else -2)
      else - nsec)"

definition u_dispatch_timeout :: "host_time_data \<Rightarrow> u64 \<Rightarrow> timeval \<Rightarrow> u64 \<Rightarrow> u64" where
  "u_dispatch_timeout d abs_now wall_now when =
     (if when = DISPATCH_TIME_FOREVER then DISPATCH_TIME_FOREVER
      else if when = 0 then 0
      else if sint when < 0 then
        (let when' = - when; now = u_dispatch_get_nanoseconds wall_now in
         if now \<ge> when' then 0 else when' - now)
      else
        (if abs_now \<ge> when then 0 else u_dispatch_time_mach2nano d (when - abs_now)))"

text \<open>
  The POSIX deadline of a wait.  \<open>ts_realtime\<close> is what \<open>clock_gettime(CLOCK_REALTIME)\<close> reads.
\<close>

definition u_dispatch_timeout_ts :: "u64 \<Rightarrow> timespec \<Rightarrow> u64 \<Rightarrow> timespec" where
  "u_dispatch_timeout_ts abs_now ts_realtime when =
     (if when = 0 then ts_realtime
      else if sint when < 0 then
        (let when' = - when + tv_sec ts_realtime * NSEC_PER_SEC + tv_nsec ts_realtime in
         \<lparr>tv_sec = when' div NSEC_PER_SEC, tv_nsec = when' mod NSEC_PER_SEC\<rparr>)
      else
        (let realtime = tv_sec ts_realtime * NSEC_PER_SEC + tv_nsec ts_realtime + (when - abs_now) in
         \<lparr>tv_sec = realtime div NSEC_PER_SEC, tv_nsec = realtime mod NSEC_PER_SEC\<rparr>))"

section \<open>What a time value means\<close>

text \<open>
  The abstract reading of a \<open>dispatch_time_t\<close> and saturating addition on it: past the end of the
  64-bit range a time becomes \<open>Forever\<close>, before the start it becomes the first representable
  moment of its clock.
\<close>

datatype moment =
    Forever
  | Wall int
  | Mach int

definition moment_of :: "u64 \<Rightarrow> u64 \<Rightarrow> moment" where
  "moment_of abs_now t =
     (if t = DISPATCH_TIME_FOREVER then Forever
      else if sint t < 0 then Wall (- sint t)
      else if t = DISPATCH_TIME_NOW then Mach (sint abs_now)
      else Mach (sint t))"

fun moment_add :: "moment \<Rightarrow> int \<Rightarrow> moment" where
  "moment_add Forever d = Forever"
| "moment_add (Wall n) d = (if n + d > 2 ^ 63 then Forever else Wall (max 2 (n + d)))"
| "moment_add (Mach n) d = (if n + d \<ge> 2 ^ 63 then Forever else Mach (max 1 (n + d)))"

definition nanoseconds_of :: "timespec \<Rightarrow> int" where
  "nanoseconds_of ts = uint (tv_sec ts) * 10 ^ 9 + uint (tv_nsec ts)"

section \<open>Lemmas\<close>

lemma sint_FOREVER [simp]: "sint DISPATCH_TIME_FOREVER = -1"
  by (simp add: DISPATCH_TIME_FOREVER_def)

lemma eq_FOREVER_iff: "t = DISPATCH_TIME_FOREVER \<longleftrightarrow> sint t = -1"
  by (metis sint_FOREVER signed_word_eqI)

lemma eq_zero_iff_sint: "(t :: u64) = 0 \<longleftrightarrow> sint t = 0"
  by (metis signed_0 signed_word_eqI)

lemma nano2mach_linux [simp]: "u_dispatch_time_nano2mach u_dispatch_get_host_time_init n = n"
  by (simp add: u_dispatch_time_nano2mach_def u_dispatch_get_host_time_init_def)

lemma mach2nano_linux [simp]: "u_dispatch_time_mach2nano u_dispatch_get_host_time_init n = n"
  by (simp add: u_dispatch_time_mach2nano_def u_dispatch_get_host_time_init_def trunc_rat_def
      del: of_int_uint) simp

lemma dispatch_time_moment_wall:
  assumes "sint t < -1"
  shows "moment_of now (dispatch_time d now t delta) = moment_add (Wall (- sint t)) (sint delta)"
  using assms sint64_bounds [of t] sint64_bounds [of delta]
  by (auto simp: dispatch_time_def moment_of_def eq_FOREVER_iff sint64_diff wrap64_def Let_def max_def
      DISPATCH_TIME_NOW_def)

lemma dispatch_time_moment_mach:
  assumes "sint t \<ge> 0" "1 \<le> sint now"
  shows "moment_of now (dispatch_time u_dispatch_get_host_time_init now t delta) =
         moment_add (moment_of now t) (sint delta)"
  using assms sint64_bounds [of t] sint64_bounds [of now] sint64_bounds [of delta]
  by (auto simp: dispatch_time_def moment_of_def eq_FOREVER_iff eq_zero_iff_sint DISPATCH_TIME_NOW_def
      sint64_add wrap64_def Let_def max_def)

lemma moment_of_cases:
  obtains (forever) "t = DISPATCH_TIME_FOREVER"
  | (wall) "sint t < -1"
  | (mach) "sint t \<ge> 0"
  by (cases "sint t = -1") (auto simp: eq_FOREVER_iff, linarith)

lemma walltime_cases:
  assumes "n = (case ts of Some s \<Rightarrow> tv_sec s * 1000000000 + tv_nsec s | None \<Rightarrow> u_dispatch_get_nanoseconds now)"
    and "sint n \<ge> 2"
  shows "dispatch_walltime now ts delta =
     (if sint n + sint delta \<ge> 2 ^ 63 then DISPATCH_TIME_FOREVER
      else if sint n + sint delta \<le> 1 then -2 else - (n + delta))"
  using assms(2) sint64_bounds [of n] sint64_bounds [of delta]
  unfolding dispatch_walltime_def assms(1) [symmetric] Let_def
  by (auto simp: sint64_add wrap64_def)

lemma sint64_minus: "- (2 ^ 63) < sint x \<Longrightarrow> sint (- x :: u64) = - sint x"
  using sint64_diff [of 0 x] sint64_bounds [of x] by (simp add: wrap64_def)

lemma timespec_split:
  "nanoseconds_of \<lparr>tv_sec = t div NSEC_PER_SEC, tv_nsec = t mod NSEC_PER_SEC\<rparr> = uint t"
  by (simp add: nanoseconds_of_def NSEC_PER_SEC_def uint_div uint_mod)

lemma timespec_nsec_bound: "uint (t mod NSEC_PER_SEC) < 10 ^ 9"
  by (simp add: NSEC_PER_SEC_def uint_mod)

lemma timespec_word: "tv_sec ts * NSEC_PER_SEC + tv_nsec ts = word_of_int (nanoseconds_of ts)"
  by (simp add: nanoseconds_of_def NSEC_PER_SEC_def)

lemma uint64_of_int: "0 \<le> i \<Longrightarrow> i < 2 ^ 64 \<Longrightarrow> uint (word_of_int i :: u64) = i"
  by (simp add: unsigned_of_int take_bit_int_eq_self)

lemma nanoseconds_of_nonneg: "0 \<le> nanoseconds_of ts"
  by (simp add: nanoseconds_of_def)

section \<open>Properties\<close>

text \<open>
  C22: \<open>dispatch_time\<close> implements saturating addition.  For every time value, every signed
  delta and every reading of the absolute clock, the moment that the returned 64-bit value stands
  for is the moment of the argument moved by delta: forever stays forever, an overflow past the
  64-bit range gives forever, an underflow gives the first moment of the same clock, and in between
  nothing is lost to wrap-around.
\<close>

theorem dispatch_time_refines_moment_add:
  assumes "1 \<le> sint now"
  shows "moment_of now (dispatch_time u_dispatch_get_host_time_init now t delta) =
         moment_add (moment_of now t) (sint delta)"
proof (cases t rule: moment_of_cases)
  case forever
  then show ?thesis
    by (simp add: dispatch_time_def moment_of_def)
next
  case wall
  then have "moment_of now t = Wall (- sint t)"
    by (simp add: moment_of_def eq_FOREVER_iff)
  then show ?thesis
    using dispatch_time_moment_wall [OF wall] by simp
next
  case mach
  then show ?thesis
    using assms by (rule dispatch_time_moment_mach)
qed


text \<open>
  The same round trip on the wall clock: \<open>_dispatch_timeout\<close> of
  \<open>dispatch_walltime(NULL, delta)\<close> is delta.
\<close>

theorem dispatch_walltime_timeout_roundtrip:
  assumes "2 \<le> sint (u_dispatch_get_nanoseconds now)" "0 \<le> sint delta"
    and "sint (u_dispatch_get_nanoseconds now) + sint delta < 2 ^ 63"
  shows "u_dispatch_timeout d abs_now now (dispatch_walltime now None delta) = delta"
proof -
  define n where "n = u_dispatch_get_nanoseconds now"
  have s: "sint (n + delta) = sint n + sint delta"
    using assms sint64_bounds [of n] sint64_bounds [of delta]
    by (simp add: sint64_add wrap64_def n_def)
  have w: "dispatch_walltime now None delta = - (n + delta)"
    using assms walltime_cases [of n now None delta] by (simp add: n_def)
  have "sint (- (n + delta)) = - (sint n + sint delta)"
    using s assms by (subst sint64_minus) (auto simp: n_def)
  moreover have "n \<ge> delta + n \<longleftrightarrow> delta = 0"
    using s assms by (auto simp: word_le_def uint64_sint eq_zero_iff_sint n_def add.commute)
  ultimately show ?thesis
    using s assms
    by (auto simp: u_dispatch_timeout_def w eq_FOREVER_iff eq_zero_iff_sint Let_def simp flip: n_def)
qed

text \<open>
  The POSIX deadline of an absolute-clock time is the real time moved by exactly what is
  left until that time, also when the time has passed already.
\<close>

theorem timeout_ts_mach_deadline:
  assumes "1 \<le> sint when" and "0 \<le> sint abs_now"
    and "0 \<le> nanoseconds_of rt + sint when - sint abs_now"
    and "nanoseconds_of rt + sint when - sint abs_now < 2 ^ 64"
  shows "nanoseconds_of (u_dispatch_timeout_ts abs_now rt when) =
         nanoseconds_of rt + (sint when - sint abs_now)"
proof -
  have "uint (word_of_int (nanoseconds_of rt) + (when - abs_now)) =
        nanoseconds_of rt + (sint when - sint abs_now)"
    using assms uint64_of_int [of "nanoseconds_of rt + (sint when - sint abs_now)"] by simp
  then show ?thesis
    using assms unfolding u_dispatch_timeout_ts_def timespec_word
    by (simp add: timespec_split eq_zero_iff_sint Let_def)
qed

text \<open>
  C26: The POSIX deadline of a wall-clock time is not that time: \<open>_dispatch_timeout_ts\<close> adds
  the current real time to a value that is already an absolute real time, so the deadline lies
  later than the requested moment by the whole current real time.
\<close>

theorem timeout_ts_wall_adds_realtime:
  assumes "sint when < -1" and "nanoseconds_of rt - sint when < 2 ^ 64"
  shows "nanoseconds_of (u_dispatch_timeout_ts abs_now rt when) = - sint when + nanoseconds_of rt"
proof -
  have "- when + tv_sec rt * NSEC_PER_SEC + tv_nsec rt = - when + word_of_int (nanoseconds_of rt)"
    by (simp flip: timespec_word)
  moreover have "uint (- when + word_of_int (nanoseconds_of rt)) = - sint when + nanoseconds_of rt"
    using assms nanoseconds_of_nonneg [of rt] uint64_of_int [of "nanoseconds_of rt - sint when"]
    by simp
  ultimately have "uint (- when + tv_sec rt * NSEC_PER_SEC + tv_nsec rt) = - sint when + nanoseconds_of rt"
    by metis
  then show ?thesis
    using assms unfolding u_dispatch_timeout_ts_def Let_def
    by (simp add: eq_zero_iff_sint timespec_split)
qed

section \<open>Witnesses\<close>

theorem dispatch_time_refines_moment_add_witness:
  "1 \<le> sint (7 :: u64) \<and>
   moment_of 7 (dispatch_time u_dispatch_get_host_time_init 7 (-20) (-30)) = Wall 2 \<and>
   moment_add (moment_of 7 (-20)) (sint (-30 :: u64)) = Wall 2"
  using dispatch_time_refines_moment_add [of 7 "-20" "-30"]
  by (simp add: moment_of_def eq_FOREVER_iff)


theorem dispatch_walltime_timeout_roundtrip_witness:
  "u_dispatch_timeout u_dispatch_get_host_time_init 9 \<lparr>tval_sec = 3, tval_usec = 4\<rparr>
     (dispatch_walltime \<lparr>tval_sec = 3, tval_usec = 4\<rparr> None 250) = 250"
  using dispatch_walltime_timeout_roundtrip
    [of "\<lparr>tval_sec = 3, tval_usec = 4\<rparr>" 250 u_dispatch_get_host_time_init 9]
  by (simp add: u_dispatch_get_nanoseconds_def NSEC_PER_SEC_def NSEC_PER_USEC_def)

theorem timeout_ts_mach_deadline_witness:
  "nanoseconds_of (u_dispatch_timeout_ts 1000 \<lparr>tv_sec = 5, tv_nsec = 999999999\<rparr> 1500) = 6000000499"
  using timeout_ts_mach_deadline [of 1500 1000 "\<lparr>tv_sec = 5, tv_nsec = 999999999\<rparr>"]
  by (simp add: nanoseconds_of_def)

theorem timeout_ts_wall_adds_realtime_witness:
  "nanoseconds_of (u_dispatch_timeout_ts 1000 \<lparr>tv_sec = 5, tv_nsec = 7\<rparr> (- 6000000000)) = 11000000007"
  using timeout_ts_wall_adds_realtime [of "- 6000000000" "\<lparr>tv_sec = 5, tv_nsec = 7\<rparr>" 1000]
  by (simp add: nanoseconds_of_def)

end
