(* ===== verification/Dispatch_Once.thy ===== *)
theory Dispatch_Once
  imports Dispatch_Prelude
begin

text \<open>
  \<open>dispatch_once_f\<close> of \<open>libdispatch/src/once.c\<close> with the test that the macro of
  \<open>include/dispatch/once.h\<close> makes before the call.  Any number of threads run it on one predicate;
  each action below is one atomic access of the predicate or the whole run of the client's
  function, which is a parameter that acts on the client's data.
\<close>

section \<open>The code\<close>

datatype once_pc =
    Once_test          \<comment> \<open>the macro reads the predicate\<close>
  | Once_cmpxchg       \<comment> \<open>about to compare and exchange 0 with 1\<close>
  | Once_func          \<comment> \<open>about to run the function\<close>
  | Once_mark          \<comment> \<open>about to store all ones\<close>
  | Once_spin          \<comment> \<open>waiting for all ones\<close>
  | Once_returned

definition once_done :: int where
  "once_done = NOT 0"

fun dispatch_once_f :: "('c \<Rightarrow> 'c) \<Rightarrow> int \<Rightarrow> 'c \<Rightarrow> once_pc \<Rightarrow> int \<times> 'c \<times> once_pc" where
  "dispatch_once_f func val d Once_test =
     (if val \<noteq> once_done then (val, d, Once_cmpxchg) else (val, d, Once_returned))"
| "dispatch_once_f func val d Once_cmpxchg =
     (if val = 0 then (1, d, Once_func) else (val, d, Once_spin))"
| "dispatch_once_f func val d Once_func = (val, func d, Once_mark)"
| "dispatch_once_f func val d Once_mark = (once_done, d, Once_returned)"
| "dispatch_once_f func val d Once_spin =
     (if val \<noteq> once_done then (val, d, Once_spin) else (val, d, Once_returned))"
| "dispatch_once_f func val d Once_returned = (val, d, Once_test)"

record 'c once_state =
  once_val :: int
  once_data :: 'c
  once_threads :: "once_pc list"

definition once_init :: "'c \<Rightarrow> 'c once_state \<Rightarrow> bool" where
  "once_init d0 s = (once_val s = 0 \<and> once_data s = d0 \<and> set (once_threads s) \<subseteq> {Once_test})"

definition once_next :: "('c \<Rightarrow> 'c) \<Rightarrow> nat \<Rightarrow> 'c once_state \<Rightarrow> 'c once_state" where
  "once_next func i s =
     (case dispatch_once_f func (once_val s) (once_data s) (once_threads s ! i) of
        (v, d, p) \<Rightarrow> \<lparr>once_val = v, once_data = d, once_threads = (once_threads s)[i := p]\<rparr>)"

inductive once_step :: "('c \<Rightarrow> 'c) \<Rightarrow> 'c once_state \<Rightarrow> 'c once_state \<Rightarrow> bool" for func where
  once_thread: "i < length (once_threads s) \<Longrightarrow> once_step func s (once_next func i s)"

section \<open>Invariant\<close>

fun once_early :: "once_pc \<Rightarrow> int" where
  "once_early Once_func = 1"
| "once_early _ = 0"

fun once_late :: "once_pc \<Rightarrow> int" where
  "once_late Once_mark = 1"
| "once_late _ = 0"

fun once_back :: "once_pc \<Rightarrow> int" where
  "once_back Once_returned = 1"
| "once_back _ = 0"

fun once_waits :: "once_pc \<Rightarrow> int" where
  "once_waits Once_spin = 1"
| "once_waits _ = 0"

definition once_inv :: "('c \<Rightarrow> 'c) \<Rightarrow> 'c \<Rightarrow> 'c once_state \<Rightarrow> bool" where
  "once_inv func d0 s =
     (let n = tsum once_early (once_threads s); m = tsum once_late (once_threads s);
          b = tsum once_back (once_threads s); w = tsum once_waits (once_threads s) in
      0 \<le> n \<and> 0 \<le> m \<and> 0 \<le> b \<and> 0 \<le> w \<and>
      ((once_val s = 0 \<and> n = 0 \<and> m = 0 \<and> once_data s = d0 \<and> b = 0 \<and> w = 0) \<or>
       (once_val s = 1 \<and> n + m = 1 \<and> once_data s = (if m = 0 then d0 else func d0) \<and> b = 0) \<or>
       (once_val s = once_done \<and> n = 0 \<and> m = 0 \<and> once_data s = func d0)))"

lemma once_counts_nonneg [simp]: "0 \<le> once_early p" "0 \<le> once_late p" "0 \<le> once_back p"
  "0 \<le> once_waits p"
  by (cases p; simp)+

lemma once_done_neq [simp]: "once_done \<noteq> 0" "once_done \<noteq> 1" "1 \<noteq> once_done" "0 \<noteq> once_done"
  by (simp_all add: once_done_def)

lemma once_inv_init:
  assumes "once_init d0 s"
  shows "once_inv func d0 s"
proof -
  have "\<And>p. p \<in> set (once_threads s) \<Longrightarrow> p = Once_test"
    using assms by (auto simp: once_init_def)
  then have "tsum f (once_threads s) = 0" if "f Once_test = 0" for f
    using that by (metis tsum_eq_0I)
  then show ?thesis
    using assms by (simp add: once_init_def once_inv_def)
qed

lemma once_inv_step:
  assumes "once_inv func d0 s" "once_step func s t"
  shows "once_inv func d0 t"
  using assms(2)
proof cases
  case (once_thread i)
  define p where "p = once_threads s ! i"
  have ge: "once_early p \<le> tsum once_early (once_threads s)" "once_late p \<le> tsum once_late (once_threads s)"
    "once_back p \<le> tsum once_back (once_threads s)" "once_waits p \<le> tsum once_waits (once_threads s)"
    using once_thread(2) by (simp_all add: p_def tsum_ge)
  show ?thesis
    using assms(1) once_thread ge unfolding once_inv_def Let_def once_next_def p_def [symmetric]
    by (cases p) (auto simp: tsum_update p_def [symmetric] split: if_splits)
qed

interpretation once: invariant_system "once_init d0" "once_step func" "once_inv func d0"
  for func :: "'c \<Rightarrow> 'c" and d0 :: 'c
  by unfold_locales (fact once_inv_init, fact once_inv_step)

section \<open>Progress\<close>

fun once_rank :: "once_pc \<Rightarrow> nat" where
  "once_rank Once_test = 4"
| "once_rank Once_cmpxchg = 3"
| "once_rank Once_func = 2"
| "once_rank Once_mark = 1"
| "once_rank Once_spin = 1"
| "once_rank Once_returned = 0"

definition once_work :: "'c once_state \<Rightarrow> nat" where
  "once_work s = sum_list (map once_rank (once_threads s))"

lemma sum_list_rank_update:
  "i < length ts \<Longrightarrow> once_rank p < once_rank (ts ! i) \<Longrightarrow>
   sum_list (map once_rank (ts[i := p])) < sum_list (map once_rank ts)"
  by (induction ts arbitrary: i) (auto simp: nth_Cons split: nat.splits)

lemma once_next_work:
  assumes "i < length (once_threads s)" "once_threads s ! i \<noteq> Once_returned"
    and "once_threads s ! i = Once_spin \<Longrightarrow> once_val s = once_done"
  shows "once_work (once_next func i s) < once_work s"
  using assms
  by (cases "once_threads s ! i")
    (auto simp: once_work_def once_next_def intro!: sum_list_rank_update)

lemma once_spin_winner:
  assumes "once_inv func d0 s" "i < length (once_threads s)" "once_threads s ! i = Once_spin"
    and "once_val s \<noteq> once_done"
  shows "\<exists>j<length (once_threads s). once_threads s ! j \<in> {Once_func, Once_mark}"
proof -
  have "1 \<le> tsum once_waits (once_threads s)"
    using tsum_ge [OF assms(2), of once_waits] assms(3) by simp
  then have "0 < tsum (\<lambda>p. once_early p + once_late p) (once_threads s)"
    using assms unfolding tsum_add by (auto simp: once_inv_def Let_def)
  then obtain j where "j < length (once_threads s)"
      "once_early (once_threads s ! j) + once_late (once_threads s ! j) \<noteq> 0"
    using tsum_pos_member by blast
  then show ?thesis
    by (cases "once_threads s ! j") auto
qed

lemma once_progress:
  assumes "once_inv func d0 s" "i < length (once_threads s)" "once_threads s ! i \<noteq> Once_returned"
  shows "\<exists>t. once_step func s t \<and> once_work t < once_work s"
proof (cases "once_threads s ! i = Once_spin \<and> once_val s \<noteq> once_done")
  case True
  then obtain j where "j < length (once_threads s)" "once_threads s ! j \<in> {Once_func, Once_mark}"
    using once_spin_winner [OF assms(1,2)] by blast
  then show ?thesis
    by (intro exI [of _ "once_next func j s"] conjI once_thread once_next_work) auto
next
  case False
  then show ?thesis
    using assms by (intro exI [of _ "once_next func i s"] conjI once_thread once_next_work) auto
qed

lemma once_all_return:
  "once_inv func d0 s \<Longrightarrow>
   \<exists>t. (once_step func)\<^sup>*\<^sup>* s t \<and> set (once_threads t) \<subseteq> {Once_returned}"
proof (induction "once_work s" arbitrary: s rule: less_induct)
  case less
  show ?case
  proof (cases "\<exists>i<length (once_threads s). once_threads s ! i \<noteq> Once_returned")
    case True
    then obtain t where t: "once_step func s t" "once_work t < once_work s"
      using once_progress [OF less.prems] by blast
    then show ?thesis
      using less.hyps [OF t(2) once_inv_step [OF less.prems t(1)]]
      by (metis converse_rtranclp_into_rtranclp)
  next
    case False
    then have "set (once_threads s) \<subseteq> {Once_returned}"
      by (auto simp: in_set_conv_nth)
    then show ?thesis
      by (intro exI [of _ s]) simp
  qed
qed

section \<open>Properties\<close>

text \<open>
  C23: The function runs exactly once.  In every reachable state of any number of threads racing
  through \<open>dispatch_once_f\<close>, the client's data are untouched or have had the function applied to
  them exactly one time, and a thread that has returned sees the completed result.
\<close>

theorem once_runs_once:
  assumes "reach (once_init d0) (once_step func) s"
  shows "once_data s \<in> {d0, func d0} \<and>
         (Once_returned \<in> set (once_threads s) \<longrightarrow> once_data s = func d0)"
proof -
  have inv: "once_inv func d0 s"
    using assms by (rule once.reachable_inv)
  have "1 \<le> tsum once_back (once_threads s)" if "Once_returned \<in> set (once_threads s)"
    using that tsum_ge [of _ "once_threads s" once_back] by (fastforce simp: in_set_conv_nth)
  then show ?thesis
    using inv by (auto simp: once_inv_def Let_def split: if_splits)
qed

text \<open>
  C24: No thread spins for ever.  From every reachable state there is a way on in which all threads
  return: whenever a thread spins on the predicate, another one is running the function or has
  finished it.
\<close>

theorem once_all_threads_return:
  assumes "reach (once_init d0) (once_step func) s"
  shows "\<exists>t. (once_step func)\<^sup>*\<^sup>* s t \<and>
             set (once_threads t) \<subseteq> {Once_returned}"
  using once_all_return [OF once.reachable_inv [OF assms]] .

section \<open>Witnesses\<close>

definition once_example :: "nat once_state" where
  "once_example = \<lparr>once_val = 0, once_data = 5, once_threads = [Once_test, Once_test]\<rparr>"

lemma reach_once_next:
  "reach init (once_step func) s \<Longrightarrow> i < length (once_threads s) \<Longrightarrow>
   reach init (once_step func) (once_next func i s)"
  by (rule reach_step) (auto intro: once_thread)

lemma once_example_reach: "reach (once_init 5) (once_step Suc) (once_next Suc 0 (once_next Suc 0
    (once_next Suc 0 (once_next Suc 0 once_example))))"
  by (intro reach_once_next reach_init)
    (simp_all add: once_example_def once_init_def once_next_def)

theorem once_runs_once_witness:
  "once_data (once_next Suc 0 (once_next Suc 0 (once_next Suc 0 (once_next Suc 0 once_example)))) = 6"
  using once_runs_once [OF once_example_reach]
  by (simp add: once_example_def once_next_def)

theorem once_all_threads_return_witness:
  "\<exists>t. (once_step Suc)\<^sup>*\<^sup>* (once_next Suc 0 (once_next Suc 0 (once_next Suc 0 (once_next Suc 0 once_example)))) t \<and>
       set (once_threads t) \<subseteq> {Once_returned}"
  by (rule once_all_threads_return [OF once_example_reach])

end
