(* ===== verification/Dispatch_Object.thy ===== *)
theory Dispatch_Object
  imports Dispatch_Prelude
begin

text \<open>
  The object header of \<open>libdispatch/src/object_internal.h\<close> and the reference and suspension counts
  of \<open>libdispatch/src/object.c\<close>.  Counters are \<open>intptr_t\<close> in the code and integers here.  A store is
  a list of slots, an address is an index, and a freed slot is \<open>None\<close>; releasing the last
  reference of an object frees its slot and releases its target queue, which can go on up the
  chain of target queues.
\<close>

section \<open>The object header\<close>

datatype vtable =
    Queue_vtable
  | Queue_root_vtable
  | Queue_mgr_vtable
  | Source_kevent_vtable
  | Semaphore_vtable

datatype link =
    Listless
  | Null_link
  | Next nat

record dobject =
  do_vtable :: vtable
  do_next :: link
  do_ref_cnt :: int
  do_xref_cnt :: int
  do_suspend_cnt :: int
  do_targetq :: "nat option"
  do_ctxt :: nat
  do_finalizer :: nat

definition u_DISPATCH_QUEUE_TYPE :: u32 where
  "u_DISPATCH_QUEUE_TYPE = 0x10000"

definition u_DISPATCH_SOURCE_TYPE :: u32 where
  "u_DISPATCH_SOURCE_TYPE = 0x20000"

definition u_DISPATCH_SEMAPHORE_TYPE :: u32 where
  "u_DISPATCH_SEMAPHORE_TYPE = 0x30000"

fun do_type :: "vtable \<Rightarrow> u32" where
  "do_type Queue_vtable = 1 OR u_DISPATCH_QUEUE_TYPE"
| "do_type Queue_root_vtable = 2 OR u_DISPATCH_QUEUE_TYPE"
| "do_type Queue_mgr_vtable = 3 OR u_DISPATCH_QUEUE_TYPE"
| "do_type Source_kevent_vtable = 1 OR u_DISPATCH_SOURCE_TYPE"
| "do_type Semaphore_vtable = u_DISPATCH_SEMAPHORE_TYPE"

definition DISPATCH_OBJECT_GLOBAL_REFCNT :: int where
  "DISPATCH_OBJECT_GLOBAL_REFCNT = 4294967295"

definition DISPATCH_OBJECT_SUSPEND_LOCK :: int where
  "DISPATCH_OBJECT_SUSPEND_LOCK = 1"

definition DISPATCH_OBJECT_SUSPEND_INTERVAL :: int where
  "DISPATCH_OBJECT_SUSPEND_INTERVAL = 2"

definition DISPATCH_OBJECT_SUSPENDED :: "'a dobject_scheme \<Rightarrow> bool" where
  "DISPATCH_OBJECT_SUSPENDED x = (do_suspend_cnt x \<ge> DISPATCH_OBJECT_SUSPEND_INTERVAL)"

definition u_dispatch_trylock :: "'a dobject_scheme \<Rightarrow> 'a dobject_scheme \<times> bool" where
  "u_dispatch_trylock x =
     (if do_suspend_cnt x = 0 then (x\<lparr>do_suspend_cnt := DISPATCH_OBJECT_SUSPEND_LOCK\<rparr>, True)
      else (x, False))"

definition u_dispatch_trysuspend :: "'a dobject_scheme \<Rightarrow> 'a dobject_scheme \<times> bool" where
  "u_dispatch_trysuspend x =
     (if do_suspend_cnt x = 0 then (x\<lparr>do_suspend_cnt := DISPATCH_OBJECT_SUSPEND_INTERVAL\<rparr>, True)
      else (x, False))"

section \<open>Operations on one object\<close>

definition dispatch_retain :: "'a dobject_scheme \<Rightarrow> 'a dobject_scheme result" where
  "dispatch_retain obj =
     (if do_xref_cnt obj = DISPATCH_OBJECT_GLOBAL_REFCNT then Ok obj
      else
        let obj' = obj\<lparr>do_xref_cnt := do_xref_cnt obj + 1\<rparr> in
        if do_xref_cnt obj' - 1 = 0 then Inl (Client_crash ''Resurrection of an object'')
        else Ok obj')"

definition u_dispatch_retain :: "'a dobject_scheme \<Rightarrow> 'a dobject_scheme result" where
  "u_dispatch_retain obj =
     (if do_ref_cnt obj = DISPATCH_OBJECT_GLOBAL_REFCNT then Ok obj
      else
        let obj' = obj\<lparr>do_ref_cnt := do_ref_cnt obj + 1\<rparr> in
        if do_ref_cnt obj' - 1 = 0 then Inl (Client_crash ''Resurrection of an object'')
        else Ok obj')"

text \<open>
  The counting part of \<open>_dispatch_release\<close>: the flag says that the caller goes on to
  \<open>dx_dispose\<close>.
\<close>

definition release_count :: "'a dobject_scheme \<Rightarrow> ('a dobject_scheme \<times> bool) result" where
  "release_count obj =
     (if do_ref_cnt obj = DISPATCH_OBJECT_GLOBAL_REFCNT then Ok (obj, False)
      else
        let obj' = obj\<lparr>do_ref_cnt := do_ref_cnt obj - 1\<rparr>;
            oldval = do_ref_cnt obj' + 1 in
        if oldval > 1 then Ok (obj', False)
        else if oldval = 1 then
          (if do_next obj' \<noteq> Listless then Inl (Crash ''release while enqueued'')
           else if do_xref_cnt obj' \<noteq> 0 then Inl (Crash ''release while external references exist'')
           else Ok (obj', True))
        else Inl (Crash ''over-release''))"

text \<open>
  The counting part of \<open>dispatch_release\<close>, with where the caller goes on: it returns, hands a source
  to \<open>_dispatch_source_xref_release\<close>, or gives up the internal reference with
  \<open>_dispatch_release\<close>.
\<close>

datatype xrelease_next =
    Xrelease_return
  | Xrelease_source
  | Xrelease_internal

definition xrelease_count :: "'a dobject_scheme \<Rightarrow> ('a dobject_scheme \<times> xrelease_next) result" where
  "xrelease_count obj =
     (if do_xref_cnt obj = DISPATCH_OBJECT_GLOBAL_REFCNT then Ok (obj, Xrelease_return)
      else
        let obj' = obj\<lparr>do_xref_cnt := do_xref_cnt obj - 1\<rparr>;
            oldval = do_xref_cnt obj' + 1 in
        if oldval > 1 then Ok (obj', Xrelease_return)
        else if oldval = 1 then
          (if do_vtable obj' = Source_kevent_vtable then Ok (obj', Xrelease_source)
           else if DISPATCH_OBJECT_SUSPENDED obj' then
             Inl (Client_crash ''Release of a suspended object'')
           else Ok (obj', Xrelease_internal))
        else Inl (Client_crash ''Over-release of an object''))"

definition dispatch_get_context :: "'a dobject_scheme \<Rightarrow> nat" where
  "dispatch_get_context obj = do_ctxt obj"

definition dispatch_set_context :: "'a dobject_scheme \<Rightarrow> nat \<Rightarrow> 'a dobject_scheme" where
  "dispatch_set_context obj ctxt =
     (if do_ref_cnt obj \<noteq> DISPATCH_OBJECT_GLOBAL_REFCNT then obj\<lparr>do_ctxt := ctxt\<rparr> else obj)"

definition dispatch_set_finalizer_f :: "'a dobject_scheme \<Rightarrow> nat \<Rightarrow> 'a dobject_scheme" where
  "dispatch_set_finalizer_f obj f = obj\<lparr>do_finalizer := f\<rparr>"

definition dispatch_suspend :: "'a dobject_scheme \<Rightarrow> 'a dobject_scheme" where
  "dispatch_suspend obj =
     (if do_ref_cnt obj = DISPATCH_OBJECT_GLOBAL_REFCNT then obj
      else obj\<lparr>do_suspend_cnt := do_suspend_cnt obj + DISPATCH_OBJECT_SUSPEND_INTERVAL\<rparr>)"

text \<open>The flag of \<open>dispatch_resume\<close> says that it calls \<open>_dispatch_wakeup\<close> on the object.\<close>

definition dispatch_resume :: "'a dobject_scheme \<Rightarrow> ('a dobject_scheme \<times> bool) result" where
  "dispatch_resume obj =
     (if do_ref_cnt obj = DISPATCH_OBJECT_GLOBAL_REFCNT then Ok (obj, False)
      else
        let obj' = obj\<lparr>do_suspend_cnt := do_suspend_cnt obj - DISPATCH_OBJECT_SUSPEND_INTERVAL\<rparr>;
            old = do_suspend_cnt obj' + DISPATCH_OBJECT_SUSPEND_INTERVAL in
        if old = DISPATCH_OBJECT_SUSPEND_INTERVAL then Ok (obj', True)
        else if old = DISPATCH_OBJECT_SUSPEND_LOCK \<or> old = 0 then
          Inl (Client_crash ''Over-resume of an object'')
        else Ok (obj', False))"

section \<open>Release in the store\<close>

type_synonym 'a store = "'a dobject_scheme option list"

definition store_get :: "'a store \<Rightarrow> nat \<Rightarrow> 'a dobject_scheme option" where
  "store_get h a = (if a < length h then h ! a else None)"

definition live :: "'a store \<Rightarrow> nat" where
  "live h = length (filter (\<lambda>x. x \<noteq> None) h)"

text \<open>
  The calls that leave the object code: a finalizer submitted to a target queue with
  \<open>dispatch_async_f\<close>, and the release of the last external reference of an event source.
\<close>

datatype ocall =
    Async_f nat nat nat
  | Source_xref_release nat

lemma store_get_split:
  assumes "store_get h a = Some x"
  obtains xs ys where "h = xs @ Some x # ys" "length xs = a"
proof -
  from assms have a: "a < length h" "h ! a = Some x"
    by (auto simp: store_get_def split: if_splits)
  then show ?thesis
    using that [of "take a h" "drop (Suc a) h"] id_take_nth_drop [of a h] by simp
qed

lemma live_free: "store_get h a = Some x \<Longrightarrow> live (h[a := None]) < live h"
  by (erule store_get_split) (simp add: live_def list_update_append)

lemma live_update: "store_get h a = Some x \<Longrightarrow> live (h[a := Some y]) = live h"
  by (erule store_get_split) (simp add: live_def list_update_append)

text \<open>
  \<open>_dispatch_release\<close> and \<open>_dispatch_dispose\<close> call each other.  \<open>guard\<close> stands for the checks a
  type's own dispose function makes before it calls \<open>_dispatch_dispose\<close>.
\<close>

function u_dispatch_release ::
    "('a dobject_scheme \<Rightarrow> crash option) \<Rightarrow> 'a store \<Rightarrow> nat \<Rightarrow> ('a store \<times> ocall list) result"
  and u_dispatch_dispose ::
    "('a dobject_scheme \<Rightarrow> crash option) \<Rightarrow> 'a store \<Rightarrow> nat \<Rightarrow> ('a store \<times> ocall list) result"
where
  "u_dispatch_release guard h a =
     (case store_get h a of
        None \<Rightarrow> Inl Use_after_free
      | Some obj \<Rightarrow>
          (case release_count obj of
             Inl e \<Rightarrow> Inl e
           | Inr (obj', dispose) \<Rightarrow>
               if dispose then
                 (case guard obj' of
                    Some e \<Rightarrow> Inl e
                  | None \<Rightarrow> u_dispatch_dispose guard (h[a := Some obj']) a)
               else Ok (h[a := Some obj'], [])))"
| "u_dispatch_dispose guard h a =
     (case store_get h a of
        None \<Rightarrow> Inl Use_after_free
      | Some obj \<Rightarrow>
          (case do_targetq obj of
             None \<Rightarrow> Inl Null_dereference
           | Some tq \<Rightarrow>
               let calls = (if do_finalizer obj \<noteq> 0 \<and> do_ctxt obj \<noteq> 0
                            then [Async_f tq (do_ctxt obj) (do_finalizer obj)] else []) in
               res_bind (u_dispatch_release guard (h[a := None]) tq) (\<lambda>(h', cs). Ok (h', calls @ cs))))"
  by pat_completeness auto

termination
proof (relation "measure (case_sum (\<lambda>(g, h, a). 2 * live h + 1) (\<lambda>(g, h, a). 2 * live h))", goal_cases)
  case 1
  show ?case by simp
next
  case (2 g h a obj r obj' d)
  then show ?case by (simp add: live_update)
next
  case (3 g h a obj tq calls)
  then show ?case using live_free [of h a obj] by simp
qed

declare u_dispatch_release.simps [simp del] u_dispatch_dispose.simps [simp del]

definition dispatch_release ::
    "('a dobject_scheme \<Rightarrow> crash option) \<Rightarrow> 'a store \<Rightarrow> nat \<Rightarrow> ('a store \<times> ocall list) result" where
  "dispatch_release guard h a =
     (case store_get h a of
        None \<Rightarrow> Inl Use_after_free
      | Some obj \<Rightarrow>
          (case xrelease_count obj of
             Inl e \<Rightarrow> Inl e
           | Inr (obj', Xrelease_return) \<Rightarrow> Ok (h[a := Some obj'], [])
           | Inr (obj', Xrelease_source) \<Rightarrow> Ok (h[a := Some obj'], [Source_xref_release a])
           | Inr (obj', Xrelease_internal) \<Rightarrow> u_dispatch_release guard (h[a := Some obj']) a))"

section \<open>Reference accounting\<close>

text \<open>
  The references of an object are accounted for: objects that target it, references some code
  owns, references the library holds because the object is enqueued or busy (\<open>pins\<close>), and one for
  all external references together.
\<close>

fun targets :: "'a dobject_scheme option \<Rightarrow> nat \<Rightarrow> int" where
  "targets None b = 0"
| "targets (Some obj) b = (if do_targetq obj = Some b then 1 else 0)"

definition targeters :: "'a store \<Rightarrow> nat \<Rightarrow> int" where
  "targeters h b = sum_list (map (\<lambda>x. targets x b) h)"

definition ref_ok ::
    "('a dobject_scheme \<Rightarrow> int) \<Rightarrow> nat \<Rightarrow> int \<Rightarrow> 'a dobject_scheme option \<Rightarrow> bool" where
  "ref_ok pins own tgts x =
     (case x of
        None \<Rightarrow> own = 0 \<and> tgts = 0
      | Some obj \<Rightarrow>
          do_ref_cnt obj = DISPATCH_OBJECT_GLOBAL_REFCNT \<or>
          (do_ref_cnt obj = tgts + int own + pins obj + (if do_xref_cnt obj = 0 then 0 else 1) \<and>
           0 < do_ref_cnt obj \<and> do_ref_cnt obj < DISPATCH_OBJECT_GLOBAL_REFCNT \<and>
           0 \<le> do_xref_cnt obj \<and> do_targetq obj \<noteq> None))"

definition refs_ok :: "('a dobject_scheme \<Rightarrow> int) \<Rightarrow> (nat \<Rightarrow> nat) \<Rightarrow> 'a store \<Rightarrow> bool" where
  "refs_ok pins own h = (\<forall>b. ref_ok pins (own b) (targeters h b) (store_get h b))"

lemma targets_nonneg: "0 \<le> targets x b"
  by (cases x) auto

lemma targeters_nonneg: "0 \<le> targeters h b"
  by (induction h) (auto simp: targeters_def targets_nonneg add_nonneg_nonneg)

lemma targeters_update:
  "store_get h a = Some obj \<Longrightarrow> targeters (h[a := y]) b = targeters h b - targets (Some obj) b + targets y b"
  by (erule store_get_split) (simp add: targeters_def list_update_append)

lemma targeters_ge:
  assumes "store_get h a = Some obj"
  shows "targets (Some obj) b \<le> targeters h b"
proof -
  have "0 \<le> targeters (h[a := None]) b"
    by (rule targeters_nonneg)
  then show ?thesis
    using targeters_update [OF assms, of None b] by simp
qed

lemma store_get_update:
  "store_get h a = Some obj \<Longrightarrow> store_get (h[a := y]) b = (if b = a then y else store_get h b)"
  by (auto simp: store_get_def split: if_splits)

lemma refs_okD:
  "refs_ok pins own h \<Longrightarrow> store_get h a = Some obj \<Longrightarrow> ref_ok pins (own a) (targeters h a) (Some obj)"
  unfolding refs_ok_def by (drule spec [of _ a]) simp

lemma refs_ok_live:
  "refs_ok pins own h \<Longrightarrow> 0 < own a \<Longrightarrow> \<exists>obj. store_get h a = Some obj"
  unfolding refs_ok_def by (cases "store_get h a") (auto simp: ref_ok_def dest: spec [of _ a])

lemma refs_ok_update:
  assumes "refs_ok pins own h" "store_get h a = Some obj" "do_targetq obj' = do_targetq obj"
    and "ref_ok pins n (targeters h a) (Some obj')"
  shows "refs_ok pins (own(a := n)) (h[a := Some obj'])"
  using assms unfolding refs_ok_def
  by (auto simp: store_get_update targeters_update)

lemma refs_ok_free:
  assumes "refs_ok pins own h" "store_get h a = Some obj" "do_targetq obj = Some tq"
    and "targeters h a = 0"
  shows "tq \<noteq> a \<and> refs_ok pins (own(a := 0, tq := Suc (own tq))) (h[a := None])"
proof -
  have ne: "tq \<noteq> a"
    using targeters_ge [OF assms(2), of a] assms(3,4) by auto
  have "ref_ok pins (Suc (own tq)) (targeters h tq - 1) (store_get h tq)"
    using spec [OF assms(1) [unfolded refs_ok_def], of tq] targeters_ge [OF assms(2), of tq] assms(3)
    by (cases "store_get h tq") (simp_all add: ref_ok_def)
  moreover have "ref_ok pins 0 0 None"
    by (simp add: ref_ok_def)
  ultimately show ?thesis
    using assms ne unfolding refs_ok_def
    by (simp add: store_get_update targeters_update)
qed

text \<open>
  What a type's dispose function promises the object code: an object that is enqueued, or whose
  dispose function would refuse it, is pinned.
\<close>

locale disposable =
  fixes guard :: "'a dobject_scheme \<Rightarrow> crash option"
    and pins :: "'a dobject_scheme \<Rightarrow> int"
  assumes pins_nonneg: "0 \<le> pins obj"
    and pins_listed: "do_next obj \<noteq> Listless \<Longrightarrow> 1 \<le> pins obj"
    and pins_guard: "guard obj \<noteq> None \<Longrightarrow> 1 \<le> pins obj"
    and pins_ref: "pins (obj\<lparr>do_ref_cnt := n\<rparr>) = pins obj"
    and pins_xref: "pins (obj\<lparr>do_xref_cnt := n\<rparr>) = pins obj"
begin

lemma last_reference:
  assumes "ref_ok pins n t (Some obj)" "0 < n" "0 \<le> t" "do_ref_cnt obj = 1"
  shows "t = 0 \<and> n = 1 \<and> do_xref_cnt obj = 0 \<and> do_next obj = Listless \<and>
         guard (obj\<lparr>do_ref_cnt := 0\<rparr>) = None \<and> (\<exists>tq. do_targetq obj = Some tq)"
proof -
  have "pins obj = 0 \<and> t = 0 \<and> n = 1 \<and> do_xref_cnt obj = 0"
    using assms pins_nonneg [of obj]
    by (auto simp: ref_ok_def DISPATCH_OBJECT_GLOBAL_REFCNT_def split: if_splits)
  then show ?thesis
    using pins_listed [of obj] pins_guard [of "obj\<lparr>do_ref_cnt := 0\<rparr>"] assms(1,4)
    by (cases "guard (obj\<lparr>do_ref_cnt := 0\<rparr>)")
      (auto simp: pins_ref ref_ok_def DISPATCH_OBJECT_GLOBAL_REFCNT_def)
qed

lemma release_safe:
  assumes "refs_ok pins own h" "0 < own a"
  shows "\<exists>h' cs. u_dispatch_release guard h a = Ok (h', cs) \<and> refs_ok pins (own(a := own a - 1)) h'"
  using assms
proof (induction "live h" arbitrary: h a own rule: less_induct)
  case less
  obtain obj where obj: "store_get h a = Some obj"
    using refs_ok_live [OF less.prems] by blast
  note ok = refs_okD [OF less.prems(1) obj]
  consider (global) "do_ref_cnt obj = DISPATCH_OBJECT_GLOBAL_REFCNT"
    | (more) "do_ref_cnt obj \<noteq> DISPATCH_OBJECT_GLOBAL_REFCNT" "1 < do_ref_cnt obj"
    | (last) "do_ref_cnt obj = 1"
    using ok by (force simp: ref_ok_def)
  then show ?case
  proof cases
    case global
    then show ?thesis
      using refs_ok_update [OF less.prems(1) obj, of obj "own a - 1"] obj
      by (subst u_dispatch_release.simps) (simp add: release_count_def ref_ok_def)
  next
    case more
    have "ref_ok pins (own a - 1) (targeters h a) (Some (obj\<lparr>do_ref_cnt := do_ref_cnt obj - 1\<rparr>))"
      using ok more less.prems(2) by (auto simp: ref_ok_def pins_ref)
    then show ?thesis
      using refs_ok_update [OF less.prems(1) obj] more obj
      by (subst u_dispatch_release.simps) (simp add: release_count_def)
  next
    case last
    from last_reference [OF ok less.prems(2) targeters_nonneg last]
    obtain tq where l: "targeters h a = 0" "own a = 1" "do_xref_cnt obj = 0" "do_next obj = Listless"
        "guard (obj\<lparr>do_ref_cnt := 0\<rparr>) = None" "do_targetq obj = Some tq"
      by blast
    let ?own = "own(a := 0, tq := Suc (own tq))"
    have f: "tq \<noteq> a" "refs_ok pins ?own (h[a := None])"
      using refs_ok_free [OF less.prems(1) obj l(6,1)] by simp_all
    obtain h' cs where h': "u_dispatch_release guard (h[a := None]) tq = Ok (h', cs)"
        "refs_ok pins (?own(tq := ?own tq - 1)) h'"
      using less.hyps [OF live_free [OF obj] f(2), of tq] by auto
    have "?own(tq := ?own tq - 1) = own(a := own a - 1)"
      using f(1) l(2) by auto
    then show ?thesis
      using h' l last obj
      by (subst u_dispatch_release.simps, subst u_dispatch_dispose.simps)
        (simp add: release_count_def DISPATCH_OBJECT_GLOBAL_REFCNT_def store_get_update)
  qed
qed

lemma retain_safe:
  assumes "refs_ok pins own h" "store_get h a = Some obj"
    and "do_ref_cnt obj + 1 < DISPATCH_OBJECT_GLOBAL_REFCNT"
  shows "\<exists>obj'. u_dispatch_retain obj = Ok obj' \<and> refs_ok pins (own(a := own a + 1)) (h[a := Some obj'])"
proof -
  let ?obj = "obj\<lparr>do_ref_cnt := do_ref_cnt obj + 1\<rparr>"
  have "ref_ok pins (own a + 1) (targeters h a) (Some ?obj)" "do_ref_cnt obj \<noteq> 0"
    using refs_okD [OF assms(1,2)] assms(3) by (auto simp: ref_ok_def pins_ref)
  then show ?thesis
    using refs_ok_update [OF assms(1,2), of ?obj] assms(3) by (simp add: u_dispatch_retain_def)
qed

lemma external_retain_safe:
  assumes "refs_ok pins own h" "store_get h a = Some obj" "1 \<le> do_xref_cnt obj"
  shows "\<exists>obj'. dispatch_retain obj = Ok obj' \<and> refs_ok pins own (h[a := Some obj'])"
proof -
  let ?obj = "obj\<lparr>do_xref_cnt := do_xref_cnt obj + 1\<rparr>"
  have "ref_ok pins (own a) (targeters h a) (Some ?obj)"
    using refs_okD [OF assms(1,2)] assms(3) by (auto simp: ref_ok_def pins_xref)
  then have "refs_ok pins own (h[a := Some ?obj])"
    using refs_ok_update [OF assms(1,2), of ?obj "own a"] by simp
  moreover have "h[a := Some obj] = h"
    using assms(2) by (elim store_get_split) (simp add: list_update_append)
  ultimately show ?thesis
    using assms(1,3) by (simp add: dispatch_retain_def)
qed

text \<open>
  Giving up an external reference.  The last one of a source hands its internal reference to
  \<open>_dispatch_source_xref_release\<close>.
\<close>

lemma external_release_safe:
  assumes "refs_ok pins own h" "store_get h a = Some obj"
    and "do_ref_cnt obj \<noteq> DISPATCH_OBJECT_GLOBAL_REFCNT"
    and "1 \<le> do_xref_cnt obj" "do_xref_cnt obj \<noteq> DISPATCH_OBJECT_GLOBAL_REFCNT"
    and "do_xref_cnt obj = 1 \<Longrightarrow> do_vtable obj \<noteq> Source_kevent_vtable \<Longrightarrow> \<not> DISPATCH_OBJECT_SUSPENDED obj"
  shows "\<exists>h' cs. dispatch_release guard h a = Ok (h', cs) \<and>
      refs_ok pins (if do_xref_cnt obj = 1 \<and> do_vtable obj = Source_kevent_vtable
                    then own(a := own a + 1) else own) h'"
proof (cases "do_xref_cnt obj = 1")
  case True
  let ?obj = "obj\<lparr>do_xref_cnt := 0\<rparr>"
  have "ref_ok pins (own a + 1) (targeters h a) (Some ?obj)"
    using refs_okD [OF assms(1,2)] assms(3) True by (auto simp: ref_ok_def pins_xref)
  then have ok: "refs_ok pins (own(a := own a + 1)) (h[a := Some ?obj])"
    using refs_ok_update [OF assms(1,2), of ?obj "own a + 1"] by simp
  show ?thesis
    using ok release_safe [OF ok, of a] True assms(2,5,6)
    by (cases "do_vtable obj = Source_kevent_vtable")
      (simp_all add: dispatch_release_def xrelease_count_def DISPATCH_OBJECT_SUSPENDED_def)
next
  case False
  let ?obj = "obj\<lparr>do_xref_cnt := do_xref_cnt obj - 1\<rparr>"
  have "ref_ok pins (own a) (targeters h a) (Some ?obj)"
    using refs_okD [OF assms(1,2)] assms(3,4) False by (auto simp: ref_ok_def pins_xref)
  then show ?thesis
    using refs_ok_update [OF assms(1,2), of ?obj "own a"] False assms(2,4,5)
    by (simp add: dispatch_release_def xrelease_count_def)
qed

end

section \<open>Suspension\<close>

text \<open>
  Sequences of \<open>dispatch_suspend\<close> and \<open>dispatch_resume\<close> on one object, with the number of calls of
  \<open>_dispatch_wakeup\<close> they make, and the specification: the nesting depth, which must not go below
  zero, and how often it returns to zero.
\<close>

datatype suspend_op = Suspend | Resume

fun run_suspends :: "suspend_op list \<Rightarrow> 'a dobject_scheme \<Rightarrow> ('a dobject_scheme \<times> nat) result" where
  "run_suspends [] obj = Ok (obj, 0)"
| "run_suspends (Suspend # ops) obj = run_suspends ops (dispatch_suspend obj)"
| "run_suspends (Resume # ops) obj =
     res_bind (dispatch_resume obj) (\<lambda>(obj', w).
       res_bind (run_suspends ops obj') (\<lambda>(obj'', n). Ok (obj'', n + (if w then 1 else 0))))"

fun depth :: "nat \<Rightarrow> suspend_op list \<Rightarrow> nat option" where
  "depth k [] = Some k"
| "depth k (Suspend # ops) = depth (Suc k) ops"
| "depth 0 (Resume # ops) = None"
| "depth (Suc k) (Resume # ops) = depth k ops"

fun zeros :: "nat \<Rightarrow> suspend_op list \<Rightarrow> nat" where
  "zeros k [] = 0"
| "zeros k (Suspend # ops) = zeros (Suc k) ops"
| "zeros k (Resume # ops) = (if k = 1 then 1 else 0) + zeros (k - 1) ops"

lemma suspend_count:
  assumes "do_ref_cnt obj \<noteq> DISPATCH_OBJECT_GLOBAL_REFCNT" "do_suspend_cnt obj = 2 * int k + l"
  shows "dispatch_suspend obj = obj\<lparr>do_suspend_cnt := 2 * int (Suc k) + l\<rparr>"
  using assms by (simp add: dispatch_suspend_def DISPATCH_OBJECT_SUSPEND_INTERVAL_def)

lemma resume_count:
  assumes "do_ref_cnt obj \<noteq> DISPATCH_OBJECT_GLOBAL_REFCNT" "do_suspend_cnt obj = 2 * int k + l"
    and "l = 0 \<or> l = 1"
  shows "dispatch_resume obj =
    (case k of 0 \<Rightarrow> Inl (Client_crash ''Over-resume of an object'')
     | Suc j \<Rightarrow> Ok (obj\<lparr>do_suspend_cnt := 2 * int j + l\<rparr>, j = 0 \<and> l = 0))"
  using assms
  by (auto simp: dispatch_resume_def DISPATCH_OBJECT_SUSPEND_INTERVAL_def
      DISPATCH_OBJECT_SUSPEND_LOCK_def Let_def split: nat.splits)

text \<open>
  Suspension nests.  For every sequence of suspends and resumes on an object, from any depth
  and with the lock bit set or clear: if the sequence never resumes more than it suspended, the
  final count is twice the remaining depth with the lock bit untouched, and the object is woken
  exactly each time the depth returns to zero while it is unlocked; otherwise the sequence ends in
  the client crash "Over-resume of an object".
\<close>

theorem suspend_resume_nests:
  assumes "do_ref_cnt obj \<noteq> DISPATCH_OBJECT_GLOBAL_REFCNT" "do_suspend_cnt obj = 2 * int k + l"
    and "l = 0 \<or> l = 1"
  shows "run_suspends ops obj =
    (case depth k ops of
       None \<Rightarrow> Inl (Client_crash ''Over-resume of an object'')
     | Some k' \<Rightarrow> Ok (obj\<lparr>do_suspend_cnt := 2 * int k' + l\<rparr>, if l = 0 then zeros k ops else 0))"
  using assms
proof (induction k ops arbitrary: obj rule: depth.induct)
  case (1 k)
  then show ?case by auto
next
  case (3 ops)
  then show ?case using resume_count [OF 3] by simp
next
  case (2 k ops)
  then show ?case
    using 2(1) [of "dispatch_suspend obj"] suspend_count [OF 2(2,3)] by (simp split: option.splits)
next
  case (4 k ops)
  then show ?case
    using 4(1) [of "obj\<lparr>do_suspend_cnt := 2 * int k + l\<rparr>"] resume_count [OF 4(2,3,4)]
    by (auto split: option.splits)
qed

theorem suspend_resume_nests_witness:
  "run_suspends [Suspend, Suspend, Resume, Resume, Suspend]
     \<lparr>do_vtable = Queue_vtable, do_next = Listless, do_ref_cnt = 2, do_xref_cnt = 1,
      do_suspend_cnt = 0, do_targetq = Some 0, do_ctxt = 0, do_finalizer = 0\<rparr> =
   Ok (\<lparr>do_vtable = Queue_vtable, do_next = Listless, do_ref_cnt = 2, do_xref_cnt = 1,
      do_suspend_cnt = 2, do_targetq = Some 0, do_ctxt = 0, do_finalizer = 0\<rparr>, 1)"
  by (subst suspend_resume_nests [where k = 0 and l = 0])
    (simp_all add: DISPATCH_OBJECT_GLOBAL_REFCNT_def)

end
