(* ===== verification/Dispatch_Queue.thy ===== *)
theory Dispatch_Queue
  imports Dispatch_Object
begin

text \<open>
  A serial queue of \<open>libdispatch/src/queue.c\<close>: \<open>dispatch_async_f\<close>, \<open>dispatch_sync_f\<close> with both of its
  paths, \<open>dispatch_suspend\<close> and \<open>dispatch_resume\<close>, \<open>dispatch_set_target_queue\<close>, retain and release by
  clients, and \<open>_dispatch_wakeup\<close>, \<open>_dispatch_queue_invoke\<close> and \<open>_dispatch_queue_drain\<close> inside.  Any
  number of threads run these on one queue and interleave at every atomic access.  The list of items is
  the abstract queue of theory \<open>Dispatch_Fifo\<close>; the target queue is a place where the queue is
  enqueued and from where some thread takes it and invokes it, as theory \<open>Dispatch_Root\<close> shows for root
  queues.  The semaphore of a thread is its count, as theory \<open>Dispatch_Semaphore\<close> justifies.
\<close>

section \<open>State\<close>

text \<open>
  What can be on the queue: a client's function, the stack-allocated continuation of a
  \<open>dispatch_barrier_sync_f\<close> whose caller is thread \<open>i\<close>, and the change of the target queue.
\<close>

datatype item =
    Async nat
  | Barrier_sync nat
  | Set_target nat

record dqueue = dobject +
  dq_running :: int
  dq_width :: int
  dq_serialnum :: nat
  dq_label :: string

text \<open>
  \<open>dq_items\<close> is the list; \<open>dq_head_set\<close> is false while a pusher has exchanged the tail of an empty
  list but not written the head.  \<open>dq_enqueued\<close> is the target queue on whose list this queue is.
\<close>

record shared =
  dq_obj :: dqueue
  dq_items :: "item list"
  dq_head_set :: bool
  dq_enqueued :: "nat option"
  dq_semas :: "int list"
  dq_freed :: bool
  dq_submitted :: "item list"
  dq_started :: "item list"
  dq_released :: "nat list"

datatype after =
    Return
  | Wait_sema nat

datatype wake_k =
    K_push after
  | K_return
  | K_invoke

datatype qpc =
    Q_idle
  | Q_push item after
  | Q_push_retain after
  | Q_push_head after
  | Q_push_release after
  | Q_wakeup wake_k
  | Q_wakeup_probe wake_k
  | Q_wakeup_lock wake_k
  | Q_wakeup_retain wake_k
  | Q_wakeup_push wake_k
  | Q_sync_tail nat
  | Q_sync_suspended nat
  | Q_sync_trylock nat
  | Q_sync_func nat
  | Q_sync_unlock
  | Q_wait nat
  | Q_wait_func nat
  | Q_resume
  | Q_invoke
  | Q_trylock "nat option"
  | Q_drain "nat option"
  | Q_item "nat option" item
  | Q_call "nat option" item
  | Q_call_signal "nat option" nat
  | Q_out "nat option" item
  | Q_drained "nat option"
  | Q_requeue
  | Q_listless
  | Q_drop_lock
  | Q_check_running
  | Q_invoke_release
  | Q_redirect "nat option" item

datatype qres =
    Stuck
  | Crashed crash
  | Goes_on shared qpc

section \<open>Creation\<close>

text \<open>The root queues are an array of six; a queue is the index of its object.\<close>

definition DISPATCH_QUEUE_PRIORITY_HIGH :: int where
  "DISPATCH_QUEUE_PRIORITY_HIGH = 2"

definition DISPATCH_QUEUE_PRIORITY_DEFAULT :: int where
  "DISPATCH_QUEUE_PRIORITY_DEFAULT = 0"

definition DISPATCH_QUEUE_PRIORITY_LOW :: int where
  "DISPATCH_QUEUE_PRIORITY_LOW = -2"

definition u_dispatch_get_root_queue :: "int \<Rightarrow> bool \<Rightarrow> nat option" where
  "u_dispatch_get_root_queue priority overcommit =
     (if overcommit \<and> priority = DISPATCH_QUEUE_PRIORITY_LOW then Some 1
      else if overcommit \<and> priority = DISPATCH_QUEUE_PRIORITY_DEFAULT then Some 3
      else if overcommit \<and> priority = DISPATCH_QUEUE_PRIORITY_HIGH then Some 5
      else if priority = DISPATCH_QUEUE_PRIORITY_LOW then Some 0
      else if priority = DISPATCH_QUEUE_PRIORITY_DEFAULT then Some 2
      else if priority = DISPATCH_QUEUE_PRIORITY_HIGH then Some 4
      else None)"

definition u_dispatch_queue_init :: "nat \<Rightarrow> dqueue" where
  "u_dispatch_queue_init serial =
     \<lparr>do_vtable = Queue_vtable, do_next = Listless, do_ref_cnt = 1, do_xref_cnt = 1, do_suspend_cnt = 0,
      do_targetq = u_dispatch_get_root_queue 0 True, do_ctxt = 0, do_finalizer = 0,
      dq_running = 0, dq_width = 1, dq_serialnum = serial, dq_label = []\<rparr>"

text \<open>\<open>dispatch_queue_create\<close>: \<open>calloc\<close> succeeds or not, a missing label is the empty one.\<close>

definition dispatch_queue_create :: "bool \<Rightarrow> nat \<Rightarrow> string option \<Rightarrow> dqueue option" where
  "dispatch_queue_create calloc serial label =
     (if \<not> calloc then None
      else Some ((u_dispatch_queue_init serial)\<lparr>dq_label := (case label of None \<Rightarrow> [] | Some l \<Rightarrow> l)\<rparr>))"

section \<open>The code\<close>

fun after_pc :: "after \<Rightarrow> qpc" where
  "after_pc Return = Q_idle"
| "after_pc (Wait_sema f) = Q_wait f"

fun wake_next :: "wake_k \<Rightarrow> qpc" where
  "wake_next (K_push a) = Q_push_release a"
| "wake_next K_return = Q_idle"
| "wake_next K_invoke = Q_invoke_release"

definition upd_obj :: "(dqueue \<Rightarrow> dqueue) \<Rightarrow> shared \<Rightarrow> shared" where
  "upd_obj f s = s\<lparr>dq_obj := f (dq_obj s)\<rparr>"

text \<open>
  \<open>_dispatch_queue_dispose\<close>, reached when the last internal reference goes; \<open>cur\<close> says that the queue is
  the current one of the thread.
\<close>

definition u_dispatch_queue_dispose :: "bool \<Rightarrow> item list \<Rightarrow> crash option" where
  "u_dispatch_queue_dispose cur items =
     (if cur then Some (Crash ''Release of a queue by itself'')
      else if items \<noteq> [] then Some (Crash ''Release of a queue while items are enqueued'')
      else None)"

definition queue_release :: "bool \<Rightarrow> shared \<Rightarrow> qpc \<Rightarrow> qres" where
  "queue_release cur s pc =
     (case release_count (dq_obj s) of
        Inl e \<Rightarrow> Crashed e
      | Inr (dq, dispose) \<Rightarrow>
          if dispose then
            (case u_dispatch_queue_dispose cur (dq_items s) of
               Some e \<Rightarrow> Crashed e
             | None \<Rightarrow> Goes_on (s\<lparr>dq_obj := dq, dq_freed := True\<rparr>) pc)
          else Goes_on (s\<lparr>dq_obj := dq\<rparr>) pc)"

definition queue_retain :: "shared \<Rightarrow> qpc \<Rightarrow> qres" where
  "queue_retain s pc =
     (case u_dispatch_retain (dq_obj s) of
        Inl e \<Rightarrow> Crashed e
      | Inr dq \<Rightarrow> Goes_on (s\<lparr>dq_obj := dq\<rparr>) pc)"

text \<open>The queue goes to the end of the list of its target queue.\<close>

definition queue_enqueue :: "shared \<Rightarrow> qpc \<Rightarrow> qres" where
  "queue_enqueue s pc =
     (case do_targetq (dq_obj s) of
        None \<Rightarrow> Crashed Null_dereference
      | Some tq \<Rightarrow> Goes_on (upd_obj (do_next_update (\<lambda>_. Null_link)) s\<lparr>dq_enqueued := Some tq\<rparr>) pc)"

text \<open>\<open>_dispatch_wakeup\<close>; the probe function of a queue returns 0.\<close>

fun u_dispatch_wakeup :: "shared \<Rightarrow> qpc \<Rightarrow> qres" where
  "u_dispatch_wakeup s (Q_wakeup k) =
     Goes_on s (if DISPATCH_OBJECT_SUSPENDED (dq_obj s) then wake_next k else Q_wakeup_probe k)"
| "u_dispatch_wakeup s (Q_wakeup_probe k) =
     Goes_on s (if dq_items s = [] then wake_next k else Q_wakeup_lock k)"
| "u_dispatch_wakeup s (Q_wakeup_lock k) =
     (case u_dispatch_trylock (dq_obj s) of
        (dq, locked) \<Rightarrow> Goes_on (s\<lparr>dq_obj := dq\<rparr>) (if locked then Q_wakeup_retain k else wake_next k))"
| "u_dispatch_wakeup s (Q_wakeup_retain k) = queue_retain s (Q_wakeup_push k)"
| "u_dispatch_wakeup s (Q_wakeup_push k) = queue_enqueue s (wake_next k)"
| "u_dispatch_wakeup s _ = Stuck"

text \<open>\<open>_dispatch_queue_push_list\<close> and \<open>_dispatch_queue_push_list_slow\<close>.\<close>

fun queue_push_list :: "bool \<Rightarrow> shared \<Rightarrow> qpc \<Rightarrow> qres" where
  "queue_push_list cur s (Q_push it a) =
     (if dq_items s = []
      then Goes_on (s\<lparr>dq_items := [it], dq_head_set := False, dq_submitted := dq_submitted s @ [it]\<rparr>)
             (Q_push_retain a)
      else Goes_on (s\<lparr>dq_items := dq_items s @ [it], dq_submitted := dq_submitted s @ [it]\<rparr>) (after_pc a))"
| "queue_push_list cur s (Q_push_retain a) = queue_retain s (Q_push_head a)"
| "queue_push_list cur s (Q_push_head a) = Goes_on (s\<lparr>dq_head_set := True\<rparr>) (Q_wakeup (K_push a))"
| "queue_push_list cur s (Q_push_release a) = queue_release cur s (after_pc a)"
| "queue_push_list cur s _ = Stuck"

text \<open>\<open>dispatch_resume\<close> on the queue, which goes on to \<open>_dispatch_wakeup\<close>.\<close>

definition queue_resume :: "shared \<Rightarrow> qres" where
  "queue_resume s =
     (case dispatch_resume (dq_obj s) of
        Inl e \<Rightarrow> Crashed e
      | Inr (dq, wake) \<Rightarrow> Goes_on (s\<lparr>dq_obj := dq\<rparr>) (if wake then Q_wakeup K_return else Q_idle))"

text \<open>
  \<open>dispatch_sync_f\<close> on a queue of width 1 is \<open>dispatch_barrier_sync_f\<close>, with
  \<open>_dispatch_barrier_sync_f_slow\<close> and \<open>_dispatch_queue_unlock\<close>; \<open>i\<close> is the calling thread.
\<close>

fun dispatch_barrier_sync_f :: "nat \<Rightarrow> shared \<Rightarrow> qpc \<Rightarrow> qres" where
  "dispatch_barrier_sync_f i s (Q_sync_tail f) =
     Goes_on s (if dq_items s \<noteq> [] then Q_push (Barrier_sync i) (Wait_sema f) else Q_sync_suspended f)"
| "dispatch_barrier_sync_f i s (Q_sync_suspended f) =
     Goes_on s (if DISPATCH_OBJECT_SUSPENDED (dq_obj s) then Q_push (Barrier_sync i) (Wait_sema f)
                else Q_sync_trylock f)"
| "dispatch_barrier_sync_f i s (Q_sync_trylock f) =
     (if dq_running (dq_obj s) = 0 then Goes_on (upd_obj (dq_running_update (\<lambda>_. 1)) s) (Q_sync_func f)
      else Goes_on s (Q_push (Barrier_sync i) (Wait_sema f)))"
| "dispatch_barrier_sync_f i s (Q_sync_func f) = Goes_on s Q_sync_unlock"
| "dispatch_barrier_sync_f i s Q_sync_unlock =
     (let s' = upd_obj (dq_running_update (\<lambda>n. n - 1)) s in
      Goes_on s' (if dq_running (dq_obj s') \<noteq> 0 then Q_idle else Q_wakeup K_return))"
| "dispatch_barrier_sync_f i s (Q_wait f) =
     (if dq_semas s ! i > 0 then Goes_on (s\<lparr>dq_semas := (dq_semas s)[i := dq_semas s ! i - 1]\<rparr>) (Q_wait_func f)
      else Stuck)"
| "dispatch_barrier_sync_f i s (Q_wait_func f) = Goes_on s Q_resume"
| "dispatch_barrier_sync_f i s Q_resume = queue_resume s"
| "dispatch_barrier_sync_f i s _ = Stuck"

text \<open>
  What calling an item does: a client's function, \<open>_dispatch_barrier_sync_f_slow_invoke\<close>, which suspends the
  queue and wakes the waiting thread, or \<open>_dispatch_set_target_queue2\<close>.
\<close>

fun queue_call :: "shared \<Rightarrow> qpc \<Rightarrow> qres" where
  "queue_call s (Q_call tq (Async f)) = Goes_on s (Q_drain tq)"
| "queue_call s (Q_call tq (Barrier_sync i)) =
     Goes_on (upd_obj dispatch_suspend s) (Q_call_signal tq i)"
| "queue_call s (Q_call_signal tq i) =
     Goes_on (s\<lparr>dq_semas := (dq_semas s)[i := dq_semas s ! i + 1]\<rparr>) (Q_drain tq)"
| "queue_call s (Q_call tq (Set_target q)) =
     Goes_on (upd_obj (do_targetq_update (\<lambda>_. Some q)) s
                \<lparr>dq_released := dq_released s @ (case do_targetq (dq_obj s) of Some p \<Rightarrow> [p] | None \<Rightarrow> [])\<rparr>) (Q_drain tq)"
| "queue_call s _ = Stuck"

text \<open>
  \<open>_dispatch_queue_drain\<close>: take the first item, test whether the queue may go on, run the item or put
  it back.  Items of a queue that is wider than 1 are redirected, which this machine leaves open.
\<close>

fun queue_drain :: "shared \<Rightarrow> qpc \<Rightarrow> qres" where
  "queue_drain s (Q_drain orig_tq) =
     (case dq_items s of
        [] \<Rightarrow> Goes_on s (Q_drained orig_tq)
      | it # rest \<Rightarrow>
          if dq_head_set s then Goes_on (s\<lparr>dq_items := rest\<rparr>) (Q_item orig_tq it) else Stuck)"
| "queue_drain s (Q_item orig_tq it) =
     (if DISPATCH_OBJECT_SUSPENDED (dq_obj s) then Goes_on s (Q_out orig_tq it)
      else if dq_running (dq_obj s) > dq_width (dq_obj s) then Goes_on s (Q_out orig_tq it)
      else if orig_tq \<noteq> do_targetq (dq_obj s) then Goes_on s (Q_out orig_tq it)
      else if dq_width (dq_obj s) = 1
        then Goes_on (s\<lparr>dq_started := dq_started s @ [it]\<rparr>) (Q_call orig_tq it)
      else Goes_on s (Q_redirect orig_tq it))"
| "queue_drain s (Q_out orig_tq it) =
     (if dq_items s = [] \<or> dq_head_set s
      then Goes_on (s\<lparr>dq_items := it # dq_items s, dq_head_set := True\<rparr>) (Q_drained orig_tq)
      else Stuck)"
| "queue_drain s pc = queue_call s pc"

fun u_dispatch_queue_invoke :: "shared \<Rightarrow> qpc \<Rightarrow> qres" where
  "u_dispatch_queue_invoke s Q_invoke =
     Goes_on s (if DISPATCH_OBJECT_SUSPENDED (dq_obj s) then Q_listless else Q_trylock (do_targetq (dq_obj s)))"
| "u_dispatch_queue_invoke s (Q_trylock tq) =
     (if dq_running (dq_obj s) = 0 then Goes_on (upd_obj (dq_running_update (\<lambda>_. 1)) s) (Q_drain tq)
      else Goes_on s Q_listless)"
| "u_dispatch_queue_invoke s (Q_drained tq) =
     Goes_on (upd_obj (dq_running_update (\<lambda>n. n - 1)) s)
       (if tq = do_targetq (dq_obj s) then Q_listless else Q_requeue)"
| "u_dispatch_queue_invoke s Q_requeue = queue_enqueue s Q_idle"
| "u_dispatch_queue_invoke s Q_listless = Goes_on (upd_obj (do_next_update (\<lambda>_. Listless)) s) Q_drop_lock"
| "u_dispatch_queue_invoke s Q_drop_lock =
     (let s' = upd_obj (do_suspend_cnt_update (\<lambda>n. n - DISPATCH_OBJECT_SUSPEND_LOCK)) s in
      Goes_on s' (if do_suspend_cnt (dq_obj s') = 0 then Q_check_running else Q_invoke_release))"
| "u_dispatch_queue_invoke s Q_check_running =
     Goes_on s (if dq_running (dq_obj s) = 0 then Q_wakeup K_invoke else Q_invoke_release)"
| "u_dispatch_queue_invoke s Q_invoke_release = queue_release False s Q_idle"
| "u_dispatch_queue_invoke s pc = queue_drain s pc"

text \<open>One action of thread \<open>i\<close>.\<close>

fun queue_exec :: "bool \<Rightarrow> nat \<Rightarrow> shared \<Rightarrow> qpc \<Rightarrow> qres" where
  "queue_exec cur i s Q_idle = Stuck"
| "queue_exec cur i s (Q_push it a) = queue_push_list cur s (Q_push it a)"
| "queue_exec cur i s (Q_push_retain a) = queue_push_list cur s (Q_push_retain a)"
| "queue_exec cur i s (Q_push_head a) = queue_push_list cur s (Q_push_head a)"
| "queue_exec cur i s (Q_push_release a) = queue_push_list cur s (Q_push_release a)"
| "queue_exec cur i s (Q_wakeup k) = u_dispatch_wakeup s (Q_wakeup k)"
| "queue_exec cur i s (Q_wakeup_probe k) = u_dispatch_wakeup s (Q_wakeup_probe k)"
| "queue_exec cur i s (Q_wakeup_lock k) = u_dispatch_wakeup s (Q_wakeup_lock k)"
| "queue_exec cur i s (Q_wakeup_retain k) = u_dispatch_wakeup s (Q_wakeup_retain k)"
| "queue_exec cur i s (Q_wakeup_push k) = u_dispatch_wakeup s (Q_wakeup_push k)"
| "queue_exec cur i s (Q_sync_tail f) = dispatch_barrier_sync_f i s (Q_sync_tail f)"
| "queue_exec cur i s (Q_sync_suspended f) = dispatch_barrier_sync_f i s (Q_sync_suspended f)"
| "queue_exec cur i s (Q_sync_trylock f) = dispatch_barrier_sync_f i s (Q_sync_trylock f)"
| "queue_exec cur i s (Q_sync_func f) = dispatch_barrier_sync_f i s (Q_sync_func f)"
| "queue_exec cur i s Q_sync_unlock = dispatch_barrier_sync_f i s Q_sync_unlock"
| "queue_exec cur i s (Q_wait f) = dispatch_barrier_sync_f i s (Q_wait f)"
| "queue_exec cur i s (Q_wait_func f) = dispatch_barrier_sync_f i s (Q_wait_func f)"
| "queue_exec cur i s Q_resume = dispatch_barrier_sync_f i s Q_resume"
| "queue_exec cur i s pc = u_dispatch_queue_invoke s pc"

section \<open>Threads on one queue\<close>

text \<open>
  Clients hold external references; a thread in a call uses one, and \<open>qs_refs\<close> are the others.  A caller of
  \<open>dispatch_sync_f\<close> or \<open>dispatch_resume\<close> keeps its reference until the call returns.  A caller that only submits
  an item may pass its reference on to that item: from the write of the head on, when a drainer can take the
  item, the reference counts in \<open>qs_refs\<close> and may be given back by anybody while the caller is still in
  \<open>_dispatch_queue_push_list_slow\<close>.  \<open>qs_susp\<close> counts the suspensions of clients that are not yet resumed.  A
  function that the queue runs may itself call into the library: such nested calls are threads of their own, and
  \<open>cur\<close> says that a call is nested in a function of this queue.
\<close>

record qsys =
  qs_sh :: shared
  qs_threads :: "qpc list"
  qs_refs :: int
  qs_susp :: int
  qs_crashed :: "crash option"

fun current :: "qpc \<Rightarrow> bool" where
  "current (Q_drain _) = True"
| "current (Q_item _ _) = True"
| "current (Q_call _ _) = True"
| "current (Q_call_signal _ _) = True"
| "current (Q_out _ _) = True"
| "current (Q_sync_func _) = True"
| "current (Q_wait_func _) = True"
| "current _ = False"

text \<open>The thread is in a call and uses the reference of its caller.\<close>

fun is_client :: "qpc \<Rightarrow> bool" where
  "is_client (Q_push _ _) = True"
| "is_client (Q_push_retain _) = True"
| "is_client (Q_push_head _) = True"
| "is_client (Q_push_release a) = (a \<noteq> Return)"
| "is_client (Q_wakeup k) = (k \<noteq> K_invoke \<and> k \<noteq> K_push Return)"
| "is_client (Q_wakeup_probe k) = (k \<noteq> K_invoke \<and> k \<noteq> K_push Return)"
| "is_client (Q_wakeup_lock k) = (k \<noteq> K_invoke \<and> k \<noteq> K_push Return)"
| "is_client (Q_wakeup_retain k) = (k \<noteq> K_invoke \<and> k \<noteq> K_push Return)"
| "is_client (Q_wakeup_push k) = (k \<noteq> K_invoke \<and> k \<noteq> K_push Return)"
| "is_client (Q_sync_tail _) = True"
| "is_client (Q_sync_suspended _) = True"
| "is_client (Q_sync_trylock _) = True"
| "is_client (Q_sync_func _) = True"
| "is_client Q_sync_unlock = True"
| "is_client (Q_wait _) = True"
| "is_client (Q_wait_func _) = True"
| "is_client Q_resume = True"
| "is_client _ = False"

definition queue_client_release :: "bool \<Rightarrow> shared \<Rightarrow> qres" where
  "queue_client_release cur s =
     (case xrelease_count (dq_obj s) of
        Inl e \<Rightarrow> Crashed e
      | Inr (dq, Xrelease_return) \<Rightarrow> Goes_on (s\<lparr>dq_obj := dq\<rparr>) Q_idle
      | Inr (dq, Xrelease_source) \<Rightarrow> Stuck
      | Inr (dq, Xrelease_internal) \<Rightarrow> queue_release cur (s\<lparr>dq_obj := dq\<rparr>) Q_idle)"

fun queue_effect :: "nat \<Rightarrow> qpc \<Rightarrow> qsys \<Rightarrow> qres \<Rightarrow> qsys option" where
  "queue_effect i pc s Stuck = None"
| "queue_effect i pc s (Crashed e) = Some (s\<lparr>qs_crashed := Some e\<rparr>)"
| "queue_effect i pc s (Goes_on sh q) =
     Some (s\<lparr>qs_sh := sh, qs_threads := (qs_threads s)[i := q],
             qs_refs := qs_refs s + (if is_client pc \<and> \<not> is_client q then 1 else 0)\<rparr>)"

definition idle_at :: "qsys \<Rightarrow> nat \<Rightarrow> bool" where
  "idle_at s i = (qs_crashed s = None \<and> i < length (qs_threads s) \<and> qs_threads s ! i = Q_idle)"

definition set_pc :: "nat \<Rightarrow> qpc \<Rightarrow> qsys \<Rightarrow> qsys" where
  "set_pc i pc s = s\<lparr>qs_threads := (qs_threads s)[i := pc]\<rparr>"

definition borrow :: "qsys \<Rightarrow> qsys" where
  "borrow s = s\<lparr>qs_refs := qs_refs s - 1\<rparr>"

definition upd_sh :: "(shared \<Rightarrow> shared) \<Rightarrow> qsys \<Rightarrow> qsys" where
  "upd_sh f s = s\<lparr>qs_sh := f (qs_sh s)\<rparr>"

inductive queue_step :: "qsys \<Rightarrow> qsys \<Rightarrow> bool" where
  call_async:
    "idle_at s i \<Longrightarrow> qs_refs s \<ge> 1 \<Longrightarrow> queue_step s (set_pc i (Q_push (Async f) Return) (borrow s))"
| call_sync:
    "idle_at s i \<Longrightarrow> qs_refs s \<ge> 1 \<Longrightarrow> queue_step s (set_pc i (Q_sync_tail f) (borrow s))"
| call_set_target_queue:
    "idle_at s i \<Longrightarrow> qs_refs s \<ge> 1 \<Longrightarrow>
     do_xref_cnt (dq_obj (qs_sh s)) \<noteq> DISPATCH_OBJECT_GLOBAL_REFCNT \<Longrightarrow>
     queue_step s (set_pc i (Q_push (Set_target q) Return) (borrow s))"
| call_suspend:
    "qs_crashed s = None \<Longrightarrow> qs_refs s \<ge> 1 \<Longrightarrow>
     queue_step s (upd_sh (upd_obj dispatch_suspend) s\<lparr>qs_susp := qs_susp s + 1\<rparr>)"
| call_resume:
    "idle_at s i \<Longrightarrow> qs_refs s \<ge> 1 \<Longrightarrow> qs_susp s \<ge> 1 \<Longrightarrow>
     queue_effect i Q_resume (borrow s\<lparr>qs_susp := qs_susp s - 1\<rparr>) (queue_resume (qs_sh s)) = Some t \<Longrightarrow>
     queue_step s t"
| call_retain:
    "qs_crashed s = None \<Longrightarrow> qs_refs s \<ge> 1 \<Longrightarrow>
     do_xref_cnt (dq_obj (qs_sh s)) + 1 < DISPATCH_OBJECT_GLOBAL_REFCNT \<Longrightarrow>
     dispatch_retain (dq_obj (qs_sh s)) = Ok dq \<Longrightarrow>
     queue_step s (upd_sh (upd_obj (\<lambda>_. dq)) s\<lparr>qs_refs := qs_refs s + 1\<rparr>)"
| call_release:
    "idle_at s i \<Longrightarrow> qs_refs s \<ge> 1 \<Longrightarrow> cur \<longrightarrow> list_ex current (qs_threads s) \<Longrightarrow>
     queue_effect i Q_idle (borrow s) (queue_client_release cur (qs_sh s)) = Some t \<Longrightarrow>
     queue_step s t"
| call_invoke:
    "idle_at s i \<Longrightarrow> dq_enqueued (qs_sh s) \<noteq> None \<Longrightarrow>
     queue_step s (set_pc i Q_invoke (upd_sh (dq_enqueued_update (\<lambda>_. None)) s))"
| run:
    "qs_crashed s = None \<Longrightarrow> i < length (qs_threads s) \<Longrightarrow> cur \<longrightarrow> list_ex current (qs_threads s) \<Longrightarrow>
     queue_effect i (qs_threads s ! i) s (queue_exec cur i (qs_sh s) (qs_threads s ! i)) = Some t \<Longrightarrow>
     queue_step s t"

definition queue_init :: "qsys \<Rightarrow> bool" where
  "queue_init s =
     ((\<exists>serial label. dispatch_queue_create True serial label = Some (dq_obj (qs_sh s))) \<and>
      dq_items (qs_sh s) = [] \<and> dq_head_set (qs_sh s) \<and> dq_enqueued (qs_sh s) = None \<and>
      \<not> dq_freed (qs_sh s) \<and> dq_submitted (qs_sh s) = [] \<and> dq_started (qs_sh s) = [] \<and>
      dq_released (qs_sh s) = [] \<and>
      set (qs_threads s) \<subseteq> {Q_idle} \<and> dq_semas (qs_sh s) = replicate (length (qs_threads s)) 0 \<and>
      2 * int (length (qs_threads s)) + 2 < DISPATCH_OBJECT_GLOBAL_REFCNT \<and>
      qs_refs s = 1 \<and> qs_susp s = 0 \<and> qs_crashed s = None)"

end
