(* ===== verification/Dispatch_Semaphore.thy ===== *)
theory Dispatch_Semaphore
  imports Dispatch_Object Dispatch_Time
begin

text \<open>
  Counting semaphores of \<open>libdispatch/src/semaphore.c\<close>, in the POSIX build.  Threads run
  \<open>dispatch_semaphore_wait\<close> and \<open>dispatch_semaphore_signal\<close> on one semaphore in any interleaving;
  one action is one atomic access of a field or one system call.  The kernel semaphore is its
  count; \<open>sem_timedwait\<close> may also time out, and both waits may be interrupted.
\<close>

section \<open>The code\<close>

record dsema = dobject +
  dsema_value :: int
  dsema_orig :: int
  dsema_sent_ksignals :: int
  dsema_sem :: int

definition dispatch_semaphore_create :: "nat \<Rightarrow> int \<Rightarrow> dsema option" where
  "dispatch_semaphore_create root_q value =
     (if value < 0 then None
      else Some \<lparr>do_vtable = Semaphore_vtable, do_next = Listless, do_ref_cnt = 1, do_xref_cnt = 1,
        do_suspend_cnt = 0, do_targetq = Some root_q, do_ctxt = 0, do_finalizer = 0,
        dsema_value = value, dsema_orig = value, dsema_sent_ksignals = 0, dsema_sem = 0\<rparr>)"

text \<open>The check of \<open>_dispatch_semaphore_dispose\<close>, which then calls \<open>_dispatch_dispose\<close>.\<close>

definition u_dispatch_semaphore_dispose :: "dsema \<Rightarrow> crash option" where
  "u_dispatch_semaphore_dispose dsema =
     (if dsema_value dsema < dsema_orig dsema
      then Some (Client_crash ''Semaphore/group object deallocated while in use'') else None)"

text \<open>
  Where a thread is: in \<open>dispatch_semaphore_wait\<close> and \<open>_dispatch_semaphore_wait_slow\<close> with the
  caller's timeout, or in \<open>dispatch_semaphore_signal\<close> and \<open>_dispatch_semaphore_signal_slow\<close>.
\<close>

datatype sem_pc =
    Sem_idle
  | Sem_wait u64
  | Sem_again u64
  | Sem_again_cas u64 int
  | Sem_switch u64
  | Sem_undo u64
  | Sem_undo_cas u64 int
  | Sem_forever u64
  | Sem_signal
  | Sem_slow_retain
  | Sem_slow_sent
  | Sem_slow_post
  | Sem_slow_release

datatype kernel =
    Proceed
  | Timed_out
  | Interrupted

datatype 's action =
    Blocked
  | Failed crash
  | Goes 's sem_pc
  | Returns 's int
  | Disposes 's

text \<open>\<open>_dispatch_release\<close> of a semaphore, with its disposal.\<close>

definition sem_release :: "dsema \<Rightarrow> dsema action" where
  "sem_release dsema =
     (case release_count dsema of
        Inl e \<Rightarrow> Failed e
      | Inr (dsema', dispose) \<Rightarrow>
          if dispose then
            (case u_dispatch_semaphore_dispose dsema' of Some e \<Rightarrow> Failed e | None \<Rightarrow> Disposes dsema')
          else Returns dsema' 1)"

fun dispatch_semaphore_wait :: "dsema \<Rightarrow> u64 \<Rightarrow> dsema action" where
  "dispatch_semaphore_wait dsema timeout =
     (let dsema' = dsema\<lparr>dsema_value := dsema_value dsema - 1\<rparr> in
      if dsema_value dsema' \<ge> 0 then Returns dsema' 0 else Goes dsema' (Sem_again timeout))"

fun u_dispatch_semaphore_wait_slow :: "kernel \<Rightarrow> dsema \<Rightarrow> sem_pc \<Rightarrow> dsema action" where
  "u_dispatch_semaphore_wait_slow k dsema (Sem_again timeout) =
     (let orig = dsema_sent_ksignals dsema in
      if orig \<noteq> 0 then Goes dsema (Sem_again_cas timeout orig) else Goes dsema (Sem_switch timeout))"
| "u_dispatch_semaphore_wait_slow k dsema (Sem_again_cas timeout orig) =
     (if dsema_sent_ksignals dsema = orig
      then Returns (dsema\<lparr>dsema_sent_ksignals := orig - 1\<rparr>) 0
      else Goes dsema (Sem_again timeout))"
| "u_dispatch_semaphore_wait_slow k dsema (Sem_switch timeout) =
     (if timeout = DISPATCH_TIME_NOW then Goes dsema (Sem_undo timeout)
      else if timeout = DISPATCH_TIME_FOREVER then Goes dsema (Sem_forever timeout)
      else
        (case k of
           Interrupted \<Rightarrow> Goes dsema (Sem_switch timeout)
         | Timed_out \<Rightarrow> Goes dsema (Sem_undo timeout)
         | Proceed \<Rightarrow>
             if dsema_sem dsema > 0
             then Goes (dsema\<lparr>dsema_sem := dsema_sem dsema - 1\<rparr>) (Sem_again timeout)
             else Blocked))"
| "u_dispatch_semaphore_wait_slow k dsema (Sem_undo timeout) =
     (let orig = dsema_value dsema in
      if orig < 0 then Goes dsema (Sem_undo_cas timeout orig) else Goes dsema (Sem_forever timeout))"
| "u_dispatch_semaphore_wait_slow k dsema (Sem_undo_cas timeout orig) =
     (if dsema_value dsema = orig then Returns (dsema\<lparr>dsema_value := orig + 1\<rparr>) (-1)
      else Goes dsema (Sem_undo timeout))"
| "u_dispatch_semaphore_wait_slow k dsema (Sem_forever timeout) =
     (if k = Proceed then
        (if dsema_sem dsema > 0
         then Goes (dsema\<lparr>dsema_sem := dsema_sem dsema - 1\<rparr>) (Sem_again timeout)
         else Blocked)
      else Goes dsema (Sem_forever timeout))"
| "u_dispatch_semaphore_wait_slow k dsema _ = Blocked"

fun dispatch_semaphore_signal :: "dsema \<Rightarrow> dsema action" where
  "dispatch_semaphore_signal dsema =
     (let dsema' = dsema\<lparr>dsema_value := dsema_value dsema + 1\<rparr> in
      if dsema_value dsema' > 0 then Returns dsema' 0 else Goes dsema' Sem_slow_retain)"

fun u_dispatch_semaphore_signal_slow :: "dsema \<Rightarrow> sem_pc \<Rightarrow> dsema action" where
  "u_dispatch_semaphore_signal_slow dsema Sem_slow_retain =
     (case u_dispatch_retain dsema of Inl e \<Rightarrow> Failed e | Inr dsema' \<Rightarrow> Goes dsema' Sem_slow_sent)"
| "u_dispatch_semaphore_signal_slow dsema Sem_slow_sent =
     Goes (dsema\<lparr>dsema_sent_ksignals := dsema_sent_ksignals dsema + 1\<rparr>) Sem_slow_post"
| "u_dispatch_semaphore_signal_slow dsema Sem_slow_post =
     Goes (dsema\<lparr>dsema_sem := dsema_sem dsema + 1\<rparr>) Sem_slow_release"
| "u_dispatch_semaphore_signal_slow dsema Sem_slow_release = sem_release dsema"
| "u_dispatch_semaphore_signal_slow dsema _ = Blocked"

text \<open>One action of a thread.\<close>

fun sem_exec :: "kernel \<Rightarrow> dsema \<Rightarrow> sem_pc \<Rightarrow> dsema action" where
  "sem_exec k dsema Sem_idle = Blocked"
| "sem_exec k dsema (Sem_wait timeout) = dispatch_semaphore_wait dsema timeout"
| "sem_exec k dsema Sem_signal = dispatch_semaphore_signal dsema"
| "sem_exec k dsema Sem_slow_retain = u_dispatch_semaphore_signal_slow dsema Sem_slow_retain"
| "sem_exec k dsema Sem_slow_sent = u_dispatch_semaphore_signal_slow dsema Sem_slow_sent"
| "sem_exec k dsema Sem_slow_post = u_dispatch_semaphore_signal_slow dsema Sem_slow_post"
| "sem_exec k dsema Sem_slow_release = u_dispatch_semaphore_signal_slow dsema Sem_slow_release"
| "sem_exec k dsema pc = u_dispatch_semaphore_wait_slow k dsema pc"

text \<open>The external release of a client, with the disposal of the semaphore.\<close>

definition sem_client_release :: "dsema \<Rightarrow> dsema action" where
  "sem_client_release dsema =
     (case xrelease_count dsema of
        Inl e \<Rightarrow> Failed e
      | Inr (dsema', Xrelease_internal) \<Rightarrow> sem_release dsema'
      | Inr (dsema', _) \<Rightarrow> Returns dsema' 0)"

section \<open>Threads on one semaphore\<close>

text \<open>
  Clients hold external references.  A thread that waits holds one for the time of the call;
  \<open>sy_refs\<close> are the others.  A signaller need not hold a reference: its caller only promises that
  the semaphore exists when the signal takes effect.  \<open>sy_signals\<close> counts the signals that took
  effect, \<open>sy_passes\<close> the waits that returned 0.
\<close>

record sem_sys =
  sy_sema :: dsema
  sy_threads :: "sem_pc list"
  sy_refs :: int
  sy_freed :: bool
  sy_crashed :: "crash option"
  sy_signals :: int
  sy_passes :: int

fun is_wait :: "sem_pc \<Rightarrow> bool" where
  "is_wait (Sem_wait _) = True"
| "is_wait (Sem_again _) = True"
| "is_wait (Sem_again_cas _ _) = True"
| "is_wait (Sem_switch _) = True"
| "is_wait (Sem_undo _) = True"
| "is_wait (Sem_undo_cas _ _) = True"
| "is_wait (Sem_forever _) = True"
| "is_wait _ = False"

text \<open>The effect of an action of thread \<open>i\<close> on the system; a blocked thread does not move.\<close>

fun sem_effect :: "nat \<Rightarrow> sem_pc \<Rightarrow> sem_sys \<Rightarrow> dsema action \<Rightarrow> sem_sys option" where
  "sem_effect i pc s Blocked = None"
| "sem_effect i pc s (Failed e) = Some (s\<lparr>sy_crashed := Some e\<rparr>)"
| "sem_effect i pc s (Goes dsema p) = Some (s\<lparr>sy_sema := dsema, sy_threads := (sy_threads s)[i := p]\<rparr>)"
| "sem_effect i pc s (Returns dsema r) =
     Some (s\<lparr>sy_sema := dsema, sy_threads := (sy_threads s)[i := Sem_idle],
             sy_refs := sy_refs s + (if is_wait pc then 1 else 0),
             sy_passes := sy_passes s + (if is_wait pc \<and> r = 0 then 1 else 0)\<rparr>)"
| "sem_effect i pc s (Disposes dsema) =
     Some (s\<lparr>sy_sema := dsema, sy_threads := (sy_threads s)[i := Sem_idle], sy_freed := True\<rparr>)"

inductive sem_step :: "sem_sys \<Rightarrow> sem_sys \<Rightarrow> bool" where
  sem_call_wait:
    "sy_crashed s = None \<Longrightarrow> i < length (sy_threads s) \<Longrightarrow> sy_threads s ! i = Sem_idle \<Longrightarrow>
     sy_refs s \<ge> 1 \<Longrightarrow>
     sem_step s (s\<lparr>sy_threads := (sy_threads s)[i := Sem_wait timeout], sy_refs := sy_refs s - 1\<rparr>)"
| sem_call_signal:
    "sy_crashed s = None \<Longrightarrow> i < length (sy_threads s) \<Longrightarrow> sy_threads s ! i = Sem_idle \<Longrightarrow>
     \<not> sy_freed s \<Longrightarrow>
     sem_effect i Sem_signal (s\<lparr>sy_signals := sy_signals s + 1\<rparr>) (sem_exec k (sy_sema s) Sem_signal) = Some t \<Longrightarrow>
     sem_step s t"
| sem_run:
    "sy_crashed s = None \<Longrightarrow> i < length (sy_threads s) \<Longrightarrow>
     sem_effect i (sy_threads s ! i) s (sem_exec k (sy_sema s) (sy_threads s ! i)) = Some t \<Longrightarrow>
     sem_step s t"
| sem_call_retain:
    "sy_crashed s = None \<Longrightarrow> sy_refs s \<ge> 1 \<Longrightarrow>
     do_xref_cnt (sy_sema s) + 1 < DISPATCH_OBJECT_GLOBAL_REFCNT \<Longrightarrow>
     dispatch_retain (sy_sema s) = Ok dsema \<Longrightarrow>
     sem_step s (s\<lparr>sy_sema := dsema, sy_refs := sy_refs s + 1\<rparr>)"
| sem_call_release:
    "sy_crashed s = None \<Longrightarrow> i < length (sy_threads s) \<Longrightarrow> sy_threads s ! i = Sem_idle \<Longrightarrow>
     sy_refs s \<ge> 1 \<Longrightarrow>
     sem_effect i Sem_idle (s\<lparr>sy_refs := sy_refs s - 1\<rparr>) (sem_client_release (sy_sema s)) = Some t \<Longrightarrow>
     sem_step s t"

definition sem_init :: "int \<Rightarrow> sem_sys \<Rightarrow> bool" where
  "sem_init value s =
     ((case dispatch_semaphore_create 0 value of None \<Rightarrow> False | Some dsema \<Rightarrow> sy_sema s = dsema) \<and>
      set (sy_threads s) \<subseteq> {Sem_idle} \<and>
      int (length (sy_threads s)) + 2 < DISPATCH_OBJECT_GLOBAL_REFCNT \<and>
      sy_refs s = 1 \<and> \<not> sy_freed s \<and> sy_crashed s = None \<and> sy_signals s = 0 \<and> sy_passes s = 0)"

section \<open>Invariants\<close>

text \<open>What an invariant counts of a thread.\<close>

fun waits :: "sem_pc \<Rightarrow> int" where  \<comment> \<open>is in a wait call\<close>
  "waits (Sem_wait _) = 1"
| "waits (Sem_again _) = 1"
| "waits (Sem_again_cas _ _) = 1"
| "waits (Sem_switch _) = 1"
| "waits (Sem_undo _) = 1"
| "waits (Sem_undo_cas _ _) = 1"
| "waits (Sem_forever _) = 1"
| "waits _ = 0"

fun slow :: "sem_pc \<Rightarrow> int" where  \<comment> \<open>is in the slow path of a wait\<close>
  "slow (Sem_wait _) = 0"
| "slow pc = (if is_wait pc then 1 else 0)"

fun owes :: "sem_pc \<Rightarrow> int" where  \<comment> \<open>is about to count a kernel signal\<close>
  "owes Sem_slow_retain = 1"
| "owes Sem_slow_sent = 1"
| "owes _ = 0"

fun posts :: "sem_pc \<Rightarrow> int" where  \<comment> \<open>has counted a kernel signal and is about to send it\<close>
  "posts Sem_slow_post = 1"
| "posts _ = 0"

fun looks :: "sem_pc \<Rightarrow> int" where  \<comment> \<open>is about to look at the counted signals\<close>
  "looks (Sem_again _) = 1"
| "looks (Sem_again_cas _ _) = 1"
| "looks _ = 0"

fun holds :: "sem_pc \<Rightarrow> int" where  \<comment> \<open>holds the internal reference of a signaller\<close>
  "holds Sem_slow_sent = 1"
| "holds Sem_slow_post = 1"
| "holds Sem_slow_release = 1"
| "holds _ = 0"

fun pc_ok :: "sem_pc \<Rightarrow> bool" where
  "pc_ok (Sem_again_cas _ orig) = (orig \<noteq> 0)"
| "pc_ok (Sem_undo_cas _ orig) = (orig < 0)"
| "pc_ok Sem_signal = False"
| "pc_ok _ = True"

text \<open>
  The numbers: the value \<open>v\<close>, the counted signals \<open>K\<close>, the kernel count \<open>S\<close>, the threads in the slow
  path \<open>W\<close>, the signallers that still have to count their signal \<open>D\<close> or to send it \<open>P\<close>, and the
  waiters that are about to look \<open>L\<close>.
\<close>

definition sem_num :: "int \<Rightarrow> int \<Rightarrow> int \<Rightarrow> int \<Rightarrow> int \<Rightarrow> int \<Rightarrow> int \<Rightarrow> int \<Rightarrow> int \<Rightarrow> int \<Rightarrow> bool" where
  "sem_num orig v K S W D P L signals passes =
     (W = max 0 (- v) + K + D \<and> K \<le> S + P + L \<and> 0 \<le> K \<and> 0 \<le> S \<and> 0 \<le> D \<and>
      passes = orig + signals - max 0 v - K - D)"

definition sem_inv :: "int \<Rightarrow> sem_sys \<Rightarrow> bool" where
  "sem_inv value s =
     (let d = sy_sema s; ts = sy_threads s in
      sy_crashed s = None \<longrightarrow>
      dsema_orig d = value \<and> list_all pc_ok ts \<and>
      sem_num value (dsema_value d) (dsema_sent_ksignals d) (dsema_sem d) (tsum slow ts) (tsum owes ts)
        (tsum posts ts) (tsum looks ts) (sy_signals s) (sy_passes s))"

lemma sem_counts_nonneg [simp]:
  "0 \<le> waits p" "0 \<le> slow p" "0 \<le> owes p" "0 \<le> posts p" "0 \<le> looks p" "0 \<le> holds p"
  "slow p \<le> waits p" "looks p \<le> slow p" "holds p \<le> 1"
  by (cases p; simp)+

lemma waits_is_wait: "waits p = (if is_wait p then 1 else 0)"
  by (cases p) auto

lemma list_all_update: "list_all P xs \<Longrightarrow> P x \<Longrightarrow> list_all P (xs[i := x])"
  by (induction xs arbitrary: i) (auto split: nat.splits)

lemma sem_inv_init:
  assumes "sem_init value s"
  shows "sem_inv value s"
proof -
  have "p = Sem_idle" if "p \<in> set (sy_threads s)" for p
    using assms that by (auto simp: sem_init_def)
  then have "tsum f (sy_threads s) = 0" if "f Sem_idle = 0" for f
    using that by (metis tsum_eq_0I)
  then show ?thesis
    using assms \<open>\<And>p. p \<in> set (sy_threads s) \<Longrightarrow> p = Sem_idle\<close>
    by (auto simp: sem_init_def sem_inv_def sem_num_def dispatch_semaphore_create_def list_all_iff
        split: if_splits)
qed

lemma sem_release_counts:
  assumes "sem_release d = a"
  shows "(\<exists>e. a = Failed e) \<or>
    (\<exists>d'. (a = Returns d' 1 \<or> a = Disposes d') \<and> dsema_orig d' = dsema_orig d \<and> dsema_value d' = dsema_value d \<and>
      dsema_sent_ksignals d' = dsema_sent_ksignals d \<and> dsema_sem d' = dsema_sem d)"
  using assms
  by (auto simp: sem_release_def release_count_def u_dispatch_semaphore_dispose_def Let_def split: if_splits)

text \<open>
  How an action of a thread at \<open>p\<close> changes the numbers: \<open>sig\<close> signals take effect and \<open>n\<close> waits pass
  while the thread moves to \<open>q\<close> and the semaphore becomes \<open>d\<close>.
\<close>

definition num_step :: "int \<Rightarrow> sem_sys \<Rightarrow> int \<Rightarrow> sem_pc \<Rightarrow> dsema \<Rightarrow> sem_pc \<Rightarrow> int \<Rightarrow> bool" where
  "num_step value s sig p d q n =
     (dsema_orig d = dsema_orig (sy_sema s) \<and> pc_ok q \<and>
      (\<forall>W D P L. sem_num value (dsema_value (sy_sema s)) (dsema_sent_ksignals (sy_sema s))
          (dsema_sem (sy_sema s)) W D P L (sy_signals s) (sy_passes s) \<longrightarrow>
        owes p \<le> D \<longrightarrow> posts p \<le> P \<longrightarrow> looks p \<le> L \<longrightarrow>
        sem_num value (dsema_value d) (dsema_sent_ksignals d) (dsema_sem d)
          (W - slow p + slow q) (D - owes p + owes q) (P - posts p + posts q) (L - looks p + looks q)
          (sy_signals s + sig) (sy_passes s + n)))"

fun action_ok :: "int \<Rightarrow> sem_sys \<Rightarrow> int \<Rightarrow> sem_pc \<Rightarrow> dsema action \<Rightarrow> bool" where
  "action_ok value s sig p (Goes d q) = num_step value s sig p d q 0"
| "action_ok value s sig p (Returns d r) =
     num_step value s sig p d Sem_idle (if is_wait p \<and> r = 0 then 1 else 0)"
| "action_ok value s sig p (Disposes d) = num_step value s sig p d Sem_idle 0"
| "action_ok value s sig p _ = True"

lemma num_step_inv:
  assumes "sem_inv value s" "sy_crashed s = None" "i < length (sy_threads s)" "sy_threads s ! i = p0"
    and "slow p0 = slow p" "owes p0 = owes p" "posts p0 = posts p" "looks p0 = looks p"
    and "num_step value s sig p d q n"
    and "sy_sema t = d" "sy_threads t = (sy_threads s)[i := q]"
    and "sy_signals t = sy_signals s + sig" "sy_passes t = sy_passes s + n"
  shows "sem_inv value t"
  using assms(1,2,9) tsum_ge [OF assms(3), of owes] tsum_ge [OF assms(3), of posts]
    tsum_ge [OF assms(3), of looks]
  unfolding sem_inv_def num_step_def Let_def assms(10-13)
  by (simp add: tsum_update [OF assms(3)] assms(4-8) list_all_update)

lemma sem_inv_crashed: "sy_crashed t = Some e \<Longrightarrow> sem_inv value t"
  by (simp add: sem_inv_def Let_def)

lemma sem_effect_inv:
  assumes "sem_inv value s" "sy_crashed s = None" "i < length (sy_threads s)" "sy_threads s ! i = p0"
    and "slow p0 = slow p" "owes p0 = owes p" "posts p0 = posts p" "looks p0 = looks p"
    and "action_ok value s sig p a"
    and "sem_effect i p (s\<lparr>sy_signals := sy_signals s + sig, sy_refs := r\<rparr>) a = Some t"
  shows "sem_inv value t"
  using assms(9,10)
  by (cases a) (auto intro: num_step_inv [OF assms(1-8)] sem_inv_crashed)

lemma sem_release_ok: "owes p = 0 \<Longrightarrow> posts p = 0 \<Longrightarrow> looks p = 0 \<Longrightarrow> slow p = 0 \<Longrightarrow>
    \<not> is_wait p \<Longrightarrow> sy_sema s = d\<lparr>do_xref_cnt := x\<rparr> \<Longrightarrow> action_ok value s 0 p (sem_release d)"
  by (auto simp: sem_release_def release_count_def u_dispatch_semaphore_dispose_def num_step_def Let_def)

lemma sem_exec_ok:
  assumes "pc_ok p"
  shows "action_ok value s 0 p (sem_exec k (sy_sema s) p)"
proof (cases p)
  case Sem_slow_release
  then show ?thesis
    using sem_release_ok [of p s "do_xref_cnt (sy_sema s)" "sy_sema s"] by simp
next
  case Sem_slow_retain
  then show ?thesis
    by (auto simp: u_dispatch_retain_def num_step_def sem_num_def Let_def)
next
  case (Sem_switch u)
  then show ?thesis
    by (cases k) (auto simp: num_step_def sem_num_def)
qed (use assms in \<open>auto simp: num_step_def sem_num_def Let_def\<close>)

lemma sem_signal_ok: "action_ok value s 1 Sem_signal (sem_exec k (sy_sema s) Sem_signal)"
  by (auto simp: num_step_def sem_num_def Let_def)

lemma sem_client_release_ok: "action_ok value s 0 Sem_idle (sem_client_release (sy_sema s))"
proof (cases "xrelease_count (sy_sema s)")
  case (Inr r)
  then have d: "fst r = sy_sema s \<or> fst r = (sy_sema s)\<lparr>do_xref_cnt := do_xref_cnt (sy_sema s) - 1\<rparr>"
    by (auto simp: xrelease_count_def Let_def split: if_splits)
  then have "\<exists>x. sy_sema s = (fst r)\<lparr>do_xref_cnt := x\<rparr>"
    by (auto intro: exI [of _ "do_xref_cnt (sy_sema s)"])
  then show ?thesis
    using Inr d by (cases "snd r"; cases r)
      (auto simp: sem_client_release_def num_step_def intro: sem_release_ok)
qed (simp add: sem_client_release_def)

lemma sem_inv_step:
  assumes "sem_inv value s" "sem_step s t"
  shows "sem_inv value t"
  using assms(2)
proof cases
  case (sem_call_wait i timeout)
  then show ?thesis
    using assms(1) by (auto simp: sem_inv_def Let_def tsum_update list_all_update)
next
  case (sem_call_signal i k)
  then show ?thesis
    using sem_effect_inv [OF assms(1) sem_call_signal(1-3), of Sem_signal 1 _ "sy_refs s" t]
      sem_signal_ok [of "value" s k] by simp
next
  case (sem_run i k)
  then have "pc_ok (sy_threads s ! i)"
    using assms(1) by (auto simp: sem_inv_def Let_def list_all_length)
  note ok = sem_exec_ok [OF this, of "value" s k]
  show ?thesis
    using sem_effect_inv [OF assms(1) sem_run(1,2) refl refl refl refl refl ok, of "sy_refs s" t] sem_run
    by simp
next
  case (sem_call_retain dsema)
  then show ?thesis
    using assms(1) by (auto simp: sem_inv_def dispatch_retain_def Let_def split: if_splits)
next
  case (sem_call_release i)
  then show ?thesis
    using sem_effect_inv [OF assms(1) sem_call_release(1-3) refl refl refl refl sem_client_release_ok,
        of "sy_refs s - 1" t] by simp
qed

text \<open>References: which actions touch the object header, and how.\<close>

definition header :: "dsema \<Rightarrow> vtable \<times> link \<times> int \<times> int \<times> int" where
  "header d = (do_vtable d, do_next d, do_suspend_cnt d, do_xref_cnt d, do_ref_cnt d)"

lemma sem_exec_goes_header:
  "sem_exec k d p = Goes d' q \<Longrightarrow> p \<noteq> Sem_slow_retain \<Longrightarrow> p \<noteq> Sem_signal \<Longrightarrow>
   header d' = header d \<and> waits q = waits p \<and> holds q = holds p"
  by (cases "(k, d, p)" rule: sem_exec.cases)
    (auto simp: header_def sem_release_def Let_def
      split: if_splits kernel.splits sum.splits option.splits)

lemma sem_exec_returns_header:
  "sem_exec k d p = Returns d' r \<Longrightarrow> is_wait p \<Longrightarrow> header d' = header d"
  by (cases "(k, d, p)" rule: sem_exec.cases)
    (auto simp: header_def Let_def split: if_splits kernel.splits)

lemma sem_exec_wait_ends:
  "is_wait p \<Longrightarrow> sem_exec k d p \<noteq> Failed e \<and> sem_exec k d p \<noteq> Disposes d'"
  by (cases "(k, d, p)" rule: sem_exec.cases)
    (auto simp: Let_def split: if_splits kernel.splits)

definition refs_num :: "dsema \<Rightarrow> int \<Rightarrow> int \<Rightarrow> int \<Rightarrow> bool \<Rightarrow> bool" where
  "refs_num d refs W H freed =
     (do_vtable d = Semaphore_vtable \<and> do_next d = Listless \<and> do_suspend_cnt d = 0 \<and>
      0 \<le> refs \<and> do_xref_cnt d = refs + W \<and> do_xref_cnt d < DISPATCH_OBJECT_GLOBAL_REFCNT \<and>
      do_ref_cnt d = (if do_xref_cnt d = 0 then 0 else 1) + H \<and> (freed \<longleftrightarrow> do_ref_cnt d = 0))"

lemma refs_num_header: "header d' = header d \<Longrightarrow> refs_num d' refs W H freed = refs_num d refs W H freed"
  by (simp add: header_def refs_num_def)

text \<open>
  Giving up an internal reference that is accounted for by \<open>H\<close>: the object stays, or it is disposed
  of with no reference left, or its dispose function refuses it.
\<close>

lemma sem_release_refs:
  assumes "refs_num d refs W (H + 1) False" "0 \<le> H" "0 \<le> W" "H + 2 < DISPATCH_OBJECT_GLOBAL_REFCNT"
  shows "(\<exists>d'. sem_release d = Returns d' 1 \<and> refs_num d' refs W H False) \<or>
         (\<exists>d'. sem_release d = Disposes d' \<and> refs_num d' refs W H True) \<or>
         sem_release d = Failed (Client_crash ''Semaphore/group object deallocated while in use'')"
  using assms
  by (auto simp: sem_release_def release_count_def refs_num_def u_dispatch_semaphore_dispose_def Let_def)

lemma sem_client_release_refs:
  assumes "refs_num d refs W H False" "1 \<le> refs" "0 \<le> H" "0 \<le> W" "H + 2 < DISPATCH_OBJECT_GLOBAL_REFCNT"
  shows "(\<exists>d' r. sem_client_release d = Returns d' r \<and> refs_num d' (refs - 1) W H False) \<or>
         (\<exists>d'. sem_client_release d = Disposes d' \<and> refs_num d' (refs - 1) W H True) \<or>
         sem_client_release d = Failed (Client_crash ''Semaphore/group object deallocated while in use'')"
proof (cases "do_xref_cnt d = 1")
  case True
  let ?d = "d\<lparr>do_xref_cnt := 0\<rparr>"
  have "xrelease_count d = Ok (?d, Xrelease_internal)"
    using assms True by (simp add: xrelease_count_def refs_num_def DISPATCH_OBJECT_SUSPENDED_def
        DISPATCH_OBJECT_SUSPEND_INTERVAL_def DISPATCH_OBJECT_GLOBAL_REFCNT_def)
  moreover have "refs_num ?d (refs - 1) W (H + 1) False"
    using assms True by (auto simp: refs_num_def)
  ultimately show ?thesis
    using sem_release_refs [of ?d "refs - 1" W H] assms by (auto simp: sem_client_release_def)
next
  case False
  then show ?thesis
    using assms by (auto simp: sem_client_release_def xrelease_count_def refs_num_def Let_def)
qed

definition sem_refs_inv :: "sem_sys \<Rightarrow> bool" where
  "sem_refs_inv s =
     (int (length (sy_threads s)) + 2 < DISPATCH_OBJECT_GLOBAL_REFCNT \<and>
      (case sy_crashed s of
         None \<Rightarrow> refs_num (sy_sema s) (sy_refs s) (tsum waits (sy_threads s)) (tsum holds (sy_threads s)) (sy_freed s)
       | Some e \<Rightarrow> e = Client_crash ''Semaphore/group object deallocated while in use''))"

lemma sem_refs_inv_init:
  assumes "sem_init value s"
  shows "sem_refs_inv s"
proof -
  have "p = Sem_idle" if "p \<in> set (sy_threads s)" for p
    using assms that by (auto simp: sem_init_def)
  then have "tsum f (sy_threads s) = 0" if "f Sem_idle = 0" for f
    using that by (metis tsum_eq_0I)
  then show ?thesis
    using assms
    by (auto simp: sem_init_def sem_refs_inv_def refs_num_def dispatch_semaphore_create_def
        DISPATCH_OBJECT_GLOBAL_REFCNT_def split: if_splits)
qed

lemma sem_threads_waits:
  "tsum slow ts \<le> tsum waits ts" "0 \<le> tsum waits ts" "0 \<le> tsum holds ts" "0 \<le> tsum owes ts"
  "0 \<le> tsum slow ts" "tsum holds ts \<le> int (length ts)"
  by (simp_all add: tsum_mono tsum_nonneg tsum_le_length)

text \<open>A signaller that is about to retain the semaphore finds it alive: a waiter holds a reference.\<close>

lemma sem_retain_alive:
  assumes "sem_inv value s" "sem_refs_inv s" "sy_crashed s = None" "i < length (sy_threads s)"
    and "owes (sy_threads s ! i) = 1"
  shows "1 \<le> do_ref_cnt (sy_sema s) \<and> 1 \<le> tsum waits (sy_threads s)"
  using assms(1-3) tsum_ge [OF assms(4), of owes] assms(5) sem_threads_waits [of "sy_threads s"]
  by (auto simp: sem_inv_def sem_refs_inv_def sem_num_def refs_num_def Let_def split: if_splits)

text \<open>The actions that neither take nor give up an internal reference.\<close>

lemma sem_refs_quiet:
  assumes "p \<noteq> Sem_signal" "p \<noteq> Sem_slow_retain" "p \<noteq> Sem_slow_release"
    and "sem_effect i p s (sem_exec k (sy_sema s) p) = Some t" "i < length (sy_threads s)" "sy_threads s ! i = p"
    and "sem_refs_inv s" "sy_crashed s = None"
  shows "sem_refs_inv t"
proof (cases "is_wait p")
  case wait: True
  show ?thesis
  proof (cases "sem_exec k (sy_sema s) p")
    case (Goes d q)
    have h: "header d = header (sy_sema s)" "waits q = waits p" "holds q = holds p"
      using sem_exec_goes_header [OF Goes] assms(1,2) by auto
    show ?thesis
      using assms(4-8) Goes h(2,3) by (auto simp: sem_refs_inv_def tsum_update refs_num_header [OF h(1)])
  next
    case (Returns d r)
    have "header d = header (sy_sema s)" "waits p = 1" "holds p = 0"
      using sem_exec_returns_header [OF Returns wait] wait by (cases p; simp)+
    then have "refs_num d (sy_refs s + 1) (W - 1) H f = refs_num (sy_sema s) (sy_refs s) W H f"
      if "0 \<le> sy_refs s" for W H f
      using that by (auto simp: header_def refs_num_def)
    then show ?thesis
      using assms(4-8) Returns wait \<open>waits p = 1\<close> \<open>holds p = 0\<close>
      by (auto simp: sem_refs_inv_def tsum_update) (simp add: refs_num_def)
  qed (use assms(4) sem_exec_wait_ends [OF wait, of k "sy_sema s"] in auto)
next
  case False
  then show ?thesis
    using assms by (cases p) (auto simp: sem_refs_inv_def tsum_update refs_num_def)
qed

lemma sem_refs_inv_run:
  assumes inv: "sem_inv value s" "sem_refs_inv s" and s: "sy_crashed s = None" "i < length (sy_threads s)"
    and t: "sem_effect i (sy_threads s ! i) s (sem_exec k (sy_sema s) (sy_threads s ! i)) = Some t"
  shows "sem_refs_inv t"
proof -
  define p where "p = sy_threads s ! i"
  note upd = tsum_update [OF s(2), folded p_def]
  note counts = sem_threads_waits [of "sy_threads s"] sem_threads_waits [of "(sy_threads s)[i := Sem_slow_sent]"]
  have ge: "waits p \<le> tsum waits (sy_threads s)" "holds p \<le> tsum holds (sy_threads s)"
    using s(2) by (simp_all add: p_def tsum_ge)
  have len: "int (length (sy_threads s)) + 2 < DISPATCH_OBJECT_GLOBAL_REFCNT"
    and num: "refs_num (sy_sema s) (sy_refs s) (tsum waits (sy_threads s)) (tsum holds (sy_threads s)) (sy_freed s)"
    using inv(2) s(1) by (auto simp: sem_refs_inv_def)
  show ?thesis
  proof (cases "p = Sem_slow_retain")
    case True
    then show ?thesis
      using sem_retain_alive [OF inv s] t num len counts
      by (auto simp: p_def [symmetric] u_dispatch_retain_def sem_refs_inv_def refs_num_def upd Let_def s(1)
          split: if_splits)
  next
    case nr: False
    show ?thesis
    proof (cases "p = Sem_slow_release")
      case True
      then have "\<not> sy_freed s"
        using ge num counts by (auto simp: refs_num_def split: if_splits)
      then show ?thesis
        using True t num len counts ge s(1)
          sem_release_refs [of "sy_sema s" "sy_refs s" "tsum waits (sy_threads s)" "tsum holds (sy_threads s) - 1"]
        by (auto simp: p_def [symmetric] sem_refs_inv_def upd)
    next
      case False
      have "p \<noteq> Sem_signal"
        using inv(1) s by (auto simp: sem_inv_def Let_def list_all_length p_def dest!: spec [of _ i])
      then show ?thesis
        using sem_refs_quiet [OF _ nr False] t inv(2) s p_def by metis
    qed
  qed
qed

lemma sem_refs_inv_step:
  assumes inv: "sem_inv value s" "sem_refs_inv s" and step: "sem_step s t"
  shows "sem_refs_inv t"
  using step
proof cases
  case (sem_call_wait i timeout)
  then show ?thesis
    using inv(2) by (auto simp: sem_refs_inv_def refs_num_def tsum_update)
next
  case (sem_call_signal i k)
  then show ?thesis
    using inv(2) by (auto simp: sem_refs_inv_def refs_num_def tsum_update Let_def split: if_splits)
next
  case (sem_run i k)
  then show ?thesis
    using sem_refs_inv_run [OF inv] by blast
next
  case (sem_call_retain dsema)
  then show ?thesis
    using inv(2) sem_threads_waits [of "sy_threads s"]
    by (auto simp: sem_refs_inv_def refs_num_def dispatch_retain_def Let_def split: if_splits)
next
  case (sem_call_release i)
  have "\<not> sy_freed s"
    using inv(2) sem_call_release sem_threads_waits [of "sy_threads s"]
    by (auto simp: sem_refs_inv_def refs_num_def split: if_splits)
  then show ?thesis
    using sem_client_release_refs [of "sy_sema s" "sy_refs s" "tsum waits (sy_threads s)" "tsum holds (sy_threads s)"]
      inv(2) sem_call_release sem_threads_waits [of "sy_threads s"]
    by (auto simp: sem_refs_inv_def tsum_update)
qed

interpretation sem: invariant_system "sem_init v" sem_step "\<lambda>s. sem_inv v s \<and> sem_refs_inv s"
  for v :: int
  using sem_inv_init sem_refs_inv_init sem_inv_step sem_refs_inv_step by unfold_locales blast+

section \<open>Properties\<close>

text \<open>
  C9: A semaphore never lets more waits pass than it started with plus the signals it got.  In
  every reachable state the waits that returned 0 are the initial value and the signals so far,
  less what is still available, less the wake-ups that are counted but not yet taken or about to
  be counted; so they are at most the initial value plus the signals.
\<close>

theorem sem_passes_bounded:
  assumes "reach (sem_init v) sem_step s" "sy_crashed s = None"
  shows "sy_passes s = v + sy_signals s - max 0 (dsema_value (sy_sema s))
           - dsema_sent_ksignals (sy_sema s) - tsum owes (sy_threads s) \<and>
         sy_passes s \<le> v + sy_signals s"
  using sem.reachable_inv [OF assms(1)] assms(2) sem_threads_waits [of "sy_threads s"]
  by (auto simp: sem_inv_def sem_num_def Let_def)

definition sem_quiet :: "sem_sys \<Rightarrow> bool" where
  "sem_quiet s = list_all (\<lambda>pc. sem_exec Proceed (sy_sema s) pc = Blocked) (sy_threads s)"

lemma blocked_pcs:
  assumes "sem_exec Proceed d pc = Blocked" "pc_ok pc"
  shows "owes pc = 0 \<and> posts pc = 0 \<and> looks pc = 0 \<and> slow pc = waits pc \<and> (waits pc = 1 \<longrightarrow> dsema_sem d \<le> 0)"
  using assms
  by (cases pc) (auto simp: u_dispatch_retain_def sem_release_def Let_def
      split: if_splits sum.splits option.splits prod.splits)

text \<open>
  C7: No wake-up is lost.  In every reachable state in which no thread can move, the threads that
  are still inside a wait are exactly as many as the value is below zero, so a thread stays blocked
  only if there were too few signals, and no counted wake-up is left over.
\<close>

theorem sem_no_lost_wakeup:
  assumes "reach (sem_init v) sem_step s" "sy_crashed s = None" "sem_quiet s"
  shows "tsum waits (sy_threads s) = max 0 (- dsema_value (sy_sema s)) \<and>
         dsema_sent_ksignals (sy_sema s) = 0"
proof -
  let ?ts = "sy_threads s" and ?d = "sy_sema s"
  have inv: "sem_inv v s"
    using sem.reachable_inv [OF assms(1)] by simp
  have pcs: "owes pc = 0 \<and> posts pc = 0 \<and> looks pc = 0 \<and> slow pc = waits pc \<and> (waits pc = 1 \<longrightarrow> dsema_sem ?d \<le> 0)"
    if "pc \<in> set ?ts" for pc
    using that inv assms(2,3) by (intro blocked_pcs) (auto simp: sem_quiet_def sem_inv_def Let_def list_all_iff)
  then have zero: "tsum owes ?ts = 0" "tsum posts ?ts = 0" "tsum looks ?ts = 0" "tsum slow ?ts = tsum waits ?ts"
    using tsum_eq_0I [of ?ts "\<lambda>p. slow p - waits p"] by (auto intro!: tsum_eq_0I antisym tsum_mono)
  have "waits pc = 0" if "pc \<in> set ?ts" "\<not> dsema_sem ?d \<le> 0" for pc
    using pcs [OF that(1)] that(2) waits_is_wait [of pc] by (auto split: if_splits)
  then have "tsum waits ?ts = 0 \<or> dsema_sem ?d \<le> 0"
    by (blast intro: tsum_eq_0I)
  then show ?thesis
    using inv assms(2) zero by (auto simp: sem_inv_def sem_num_def Let_def)
qed

text \<open>
  C8: The semaphore is not used after it is freed, and its reference counts never fail.  Whatever
  the clients do that own their references, a reachable state in which the semaphore is freed has
  no thread inside \<open>wait\<close> or \<open>signal\<close>, in particular no signaller between the signal that lets the
  last waiter return and its own release; the only crash is the documented one of a client that
  drops its last reference while the value is below the initial one.
\<close>

theorem sem_no_use_after_free:
  assumes "reach (sem_init v) sem_step s"
  shows "sy_crashed s \<in> {None, Some (Client_crash ''Semaphore/group object deallocated while in use'')} \<and>
         (sy_crashed s = None \<and> sy_freed s \<longrightarrow> set (sy_threads s) \<subseteq> {Sem_idle})"
proof -
  let ?ts = "sy_threads s"
  have inv: "sem_inv v s" "sem_refs_inv s"
    using sem.reachable_inv [OF assms] by simp_all
  have "pc = Sem_idle" if pc: "sy_crashed s = None" "sy_freed s" "pc \<in> set ?ts" for pc
  proof -
    have z: "tsum waits ?ts = 0" "tsum holds ?ts = 0" "tsum owes ?ts = 0"
      using inv pc(1,2) sem_threads_waits [of ?ts]
      by (auto simp: sem_inv_def sem_refs_inv_def sem_num_def refs_num_def Let_def split: if_splits)
    obtain i where i: "i < length ?ts" "?ts ! i = pc"
      using pc(3) by (auto simp: in_set_conv_nth)
    have "waits pc = 0" "holds pc = 0" "owes pc = 0"
      using tsum_eq_0D [OF z(1) _ i(1)] tsum_eq_0D [OF z(2) _ i(1)] tsum_eq_0D [OF z(3) _ i(1)] i(2) by simp_all
    moreover have "pc_ok pc"
      using inv(1) pc by (auto simp: sem_inv_def Let_def list_all_iff)
    ultimately show ?thesis
      by (cases pc) auto
  qed
  then show ?thesis
    using inv(2) by (auto simp: sem_refs_inv_def split: option.splits)
qed

section \<open>Witnesses\<close>

text \<open>
  Two threads on a semaphore of value 0: the first one waits for ever and blocks, then the second
  one signals.
\<close>

definition sem_state :: "sem_pc list \<Rightarrow> int \<Rightarrow> int \<Rightarrow> int \<Rightarrow> sem_sys" where
  "sem_state ts v refs sigs =
     \<lparr>sy_sema = \<lparr>do_vtable = Semaphore_vtable, do_next = Listless, do_ref_cnt = 1, do_xref_cnt = 1,
        do_suspend_cnt = 0, do_targetq = Some 0, do_ctxt = 0, do_finalizer = 0,
        dsema_value = v, dsema_orig = 0, dsema_sent_ksignals = 0, dsema_sem = 0\<rparr>,
      sy_threads = ts, sy_refs = refs, sy_freed = False, sy_crashed = None, sy_signals = sigs,
      sy_passes = 0\<rparr>"

abbreviation sem_reachable :: "sem_sys \<Rightarrow> bool" where
  "sem_reachable \<equiv> reach (sem_init 0) sem_step"

lemma sem_example_1: "sem_reachable (sem_state [Sem_idle, Sem_idle] 0 1 0)"
  by (rule reach_init)
    (simp add: sem_init_def sem_state_def dispatch_semaphore_create_def DISPATCH_OBJECT_GLOBAL_REFCNT_def)

lemma sem_example_2: "sem_reachable (sem_state [Sem_wait DISPATCH_TIME_FOREVER, Sem_idle] 0 0 0)"
  using reach_step [OF sem_example_1 sem_call_wait [of _ 0 DISPATCH_TIME_FOREVER]]
  by (simp add: sem_state_def)

lemma sem_example_run:
  "sem_reachable s \<Longrightarrow> sy_crashed s = None \<Longrightarrow> i < length (sy_threads s) \<Longrightarrow>
   sem_effect i (sy_threads s ! i) s (sem_exec Proceed (sy_sema s) (sy_threads s ! i)) = Some t \<Longrightarrow>
   sem_reachable t"
  by (erule reach_step, rule sem_run)

lemma sem_example_3: "sem_reachable (sem_state [Sem_again DISPATCH_TIME_FOREVER, Sem_idle] (-1) 0 0)"
  by (rule sem_example_run [OF sem_example_2, of 0]) (simp_all add: sem_state_def)

lemma sem_example_4: "sem_reachable (sem_state [Sem_switch DISPATCH_TIME_FOREVER, Sem_idle] (-1) 0 0)"
  by (rule sem_example_run [OF sem_example_3, of 0]) (simp_all add: sem_state_def)

lemma sem_example_5: "sem_reachable (sem_state [Sem_forever DISPATCH_TIME_FOREVER, Sem_idle] (-1) 0 0)"
  by (rule sem_example_run [OF sem_example_4, of 0])
    (simp_all add: sem_state_def DISPATCH_TIME_FOREVER_def DISPATCH_TIME_NOW_def)

lemma sem_example_6:
  "sem_reachable (sem_state [Sem_forever DISPATCH_TIME_FOREVER, Sem_slow_retain] 0 0 1)"
  by (rule reach_step [OF sem_example_5], rule sem_call_signal [of _ 1]) (simp_all add: sem_state_def)

theorem sem_passes_bounded_witness:
  "sy_passes (sem_state [Sem_forever DISPATCH_TIME_FOREVER, Sem_slow_retain] 0 0 1) = 0 + 1 - 0 - 0 - 1"
  using sem_passes_bounded [OF sem_example_6] by (simp add: sem_state_def)

theorem sem_no_lost_wakeup_witness:
  "tsum waits (sy_threads (sem_state [Sem_forever DISPATCH_TIME_FOREVER, Sem_idle] (-1) 0 0)) = 1"
  using sem_no_lost_wakeup [OF sem_example_5] by (simp add: sem_state_def sem_quiet_def)

theorem sem_no_use_after_free_witness:
  "sy_crashed (sem_state [Sem_forever DISPATCH_TIME_FOREVER, Sem_slow_retain] 0 0 1) = None \<and>
   \<not> sy_freed (sem_state [Sem_forever DISPATCH_TIME_FOREVER, Sem_slow_retain] 0 0 1)"
  using sem_no_use_after_free [OF sem_example_6] by (simp add: sem_state_def)

end
