(* ===== verification/Dispatch_Dispose.thy ===== *)
theory Dispatch_Dispose
  imports Dispatch_Queue Dispatch_Semaphore
begin

text \<open>
  Releasing objects of all kinds in one store.  The dispose functions of queues and semaphores are the
  guards of the contract \<open>disposable\<close> of theory \<open>Dispatch_Object\<close>, so releasing a reference that some code
  owns is safe whatever chain of target queues it brings down.
\<close>

section \<open>Objects of all kinds\<close>

text \<open>What dispose looks at beyond the header: the list of a queue and whether it is the current queue of the
  thread, the value and the initial value of a semaphore.\<close>

datatype payload =
    Queue_part "item list" bool
  | Semaphore_part int int

record any_object = dobject +
  part :: payload

text \<open>\<open>dx_dispose\<close>, the function of the vtable, up to its call of \<open>_dispatch_dispose\<close>.\<close>

definition as_dsema :: "int \<Rightarrow> int \<Rightarrow> any_object \<Rightarrow> dsema" where
  "as_dsema v orig obj =
     \<lparr>do_vtable = do_vtable obj, do_next = do_next obj, do_ref_cnt = do_ref_cnt obj, do_xref_cnt = do_xref_cnt obj,
      do_suspend_cnt = do_suspend_cnt obj, do_targetq = do_targetq obj, do_ctxt = do_ctxt obj,
      do_finalizer = do_finalizer obj, dsema_value = v, dsema_orig = orig, dsema_sent_ksignals = 0, dsema_sem = 0\<rparr>"

definition dx_dispose :: "any_object \<Rightarrow> crash option" where
  "dx_dispose obj =
     (case part obj of
        Queue_part items cur \<Rightarrow> u_dispatch_queue_dispose cur items
      | Semaphore_part v orig \<Rightarrow> u_dispatch_semaphore_dispose (as_dsema v orig obj))"

text \<open>
  The references the library itself holds on an object: one for an object that is on a list, one for a queue with
  items or with a function running, one for the waiters of a semaphore together.
\<close>

definition library_refs :: "any_object \<Rightarrow> int" where
  "library_refs obj =
     (if do_next obj \<noteq> Listless then 1 else 0) +
     (case part obj of
        Queue_part items cur \<Rightarrow> (if items \<noteq> [] \<or> cur then 1 else 0)
      | Semaphore_part v orig \<Rightarrow> (if v < orig then 1 else 0))"

interpretation any_disposable: disposable dx_dispose library_refs
proof
  fix obj :: any_object and n
  show "0 \<le> library_refs obj"
    by (simp add: library_refs_def split: payload.splits)
  show "do_next obj \<noteq> Listless \<Longrightarrow> 1 \<le> library_refs obj"
    by (simp add: library_refs_def split: payload.splits)
  show "dx_dispose obj \<noteq> None \<Longrightarrow> 1 \<le> library_refs obj"
    by (auto simp: library_refs_def dx_dispose_def u_dispatch_queue_dispose_def u_dispatch_semaphore_dispose_def as_dsema_def
        split: payload.splits if_splits)
  show "library_refs (obj\<lparr>do_ref_cnt := n\<rparr>) = library_refs obj" "library_refs (obj\<lparr>do_xref_cnt := n\<rparr>) = library_refs obj"
    by (simp_all add: library_refs_def split: payload.splits)
qed

section \<open>Properties\<close>


text \<open>
  A client that gives back one of its references is served without a crash unless it is the last one
  and the object is suspended; the counts stay right, and the last reference of a source goes to the source code.
\<close>

theorem client_release_keeps_counts:
  assumes "refs_ok library_refs own h" "store_get h a = Some obj" "do_ref_cnt obj \<noteq> DISPATCH_OBJECT_GLOBAL_REFCNT"
    and "1 \<le> do_xref_cnt obj" "do_xref_cnt obj \<noteq> DISPATCH_OBJECT_GLOBAL_REFCNT"
    and "do_xref_cnt obj = 1 \<Longrightarrow> do_vtable obj \<noteq> Source_kevent_vtable \<Longrightarrow> \<not> DISPATCH_OBJECT_SUSPENDED obj"
  shows "\<exists>h' cs. Dispatch_Object.dispatch_release dx_dispose h a = Ok (h', cs) \<and>
      refs_ok library_refs (if do_xref_cnt obj = 1 \<and> do_vtable obj = Source_kevent_vtable
                    then own(a := own a + 1) else own) h'"
  using assms by (rule any_disposable.external_release_safe)

text \<open>A semaphore that targets a queue that targets a root queue; the last reference of the semaphore takes the
  queue along.\<close>

definition example_object :: "vtable \<Rightarrow> int \<Rightarrow> int \<Rightarrow> nat option \<Rightarrow> payload \<Rightarrow> any_object" where
  "example_object vt r x tq p =
     \<lparr>do_vtable = vt, do_next = Listless, do_ref_cnt = r, do_xref_cnt = x, do_suspend_cnt = 0, do_targetq = tq,
      do_ctxt = 0, do_finalizer = 0, part = p\<rparr>"

definition example_store :: "int \<Rightarrow> any_object option list" where
  "example_store x =
     [Some (example_object Semaphore_vtable 1 x (Some 1) (Semaphore_part 2 2)),
      Some (example_object Queue_vtable 1 0 (Some 2) (Queue_part [] False)),
      Some (example_object Queue_root_vtable DISPATCH_OBJECT_GLOBAL_REFCNT 0 None (Queue_part [] False))]"

lemmas example_defs = example_store_def example_object_def store_get_def targeters_def ref_ok_def library_refs_def
  DISPATCH_OBJECT_GLOBAL_REFCNT_def

lemma example_store_ok: "refs_ok library_refs ((\<lambda>_. 0)(0 := 1)) (example_store 0)" "refs_ok library_refs (\<lambda>_. 0) (example_store 1)"
proof -
  have b: "b = 0 \<or> b = 1 \<or> b = 2 \<or> 2 < b" for b :: nat
    by linarith
  show "refs_ok library_refs ((\<lambda>_. 0)(0 := 1)) (example_store 0)"
    unfolding refs_ok_def
  proof
    fix b
    show "ref_ok library_refs (((\<lambda>_. 0)(0 := 1)) b) (targeters (example_store 0) b) (store_get (example_store 0) b)"
      using b [of b] by (elim disjE) (simp_all add: example_defs)
  qed
  show "refs_ok library_refs (\<lambda>_. 0) (example_store 1)"
    unfolding refs_ok_def
  proof
    fix b
    show "ref_ok library_refs 0 (targeters (example_store 1) b) (store_get (example_store 1) b)"
      using b [of b] by (elim disjE) (simp_all add: example_defs)
  qed
qed


theorem client_release_keeps_counts_witness:
  "\<exists>h'. Dispatch_Object.dispatch_release dx_dispose (example_store 1) 0 = Ok (h', []) \<and>
     map (\<lambda>x. x = None) h' = [True, True, False] \<and> refs_ok library_refs (\<lambda>_. 0) h'"
proof -
  obtain h' cs where h': "Dispatch_Object.dispatch_release dx_dispose (example_store 1) 0 = Ok (h', cs)"
      "refs_ok library_refs (\<lambda>_. 0) h'"
    using client_release_keeps_counts [OF example_store_ok(2), of 0]
    by (auto simp: example_defs DISPATCH_OBJECT_SUSPENDED_def DISPATCH_OBJECT_SUSPEND_INTERVAL_def)
  moreover have "case Dispatch_Object.dispatch_release dx_dispose (example_store 1) 0 of
      Inl e \<Rightarrow> False | Inr (h', cs) \<Rightarrow> cs = [] \<and> map (\<lambda>x. x = None) h' = [True, True, False]"
    by code_simp
  ultimately show ?thesis
    by auto
qed

end
