(* ===== verification/Dispatch_Fifo.thy ===== *)
theory Dispatch_Fifo
  imports Dispatch_Prelude
begin

text \<open>
  The lock-free list inside every dispatch queue: \<open>_dispatch_queue_push_list\<close> of
  \<open>libdispatch/src/queue_internal.h\<close> run by any number of threads, and the list part of
  \<open>_dispatch_queue_drain\<close> of \<open>libdispatch/src/queue.c\<close> run by one thread at a time, at the
  granularity of single memory accesses.  Pushing is not atomic: a pusher first swings the tail and
  only then links its item, so the drainer may run ahead of a link that is not there yet.  The
  theory shows that the pair still implements a first-in first-out queue.
\<close>

section \<open>The code\<close>

record mpsc =
  dq_items_head :: "nat option"
  dq_items_tail :: "nat option"
  do_nexts :: "nat \<Rightarrow> nat option"

datatype push_pc =
    Push_idle
  | Push_xchg nat          \<comment> \<open>about to exchange the tail for the item\<close>
  | Push_link nat nat      \<comment> \<open>about to link the previous tail to the item\<close>
  | Push_head nat          \<comment> \<open>the list was empty: about to write the head\<close>

fun u_dispatch_queue_push_list :: "mpsc \<Rightarrow> push_pc \<Rightarrow> mpsc \<times> push_pc" where
  "u_dispatch_queue_push_list q (Push_xchg x) =
     (q\<lparr>do_nexts := (do_nexts q)(x := None), dq_items_tail := Some x\<rparr>,
      case dq_items_tail q of Some prev \<Rightarrow> Push_link prev x | None \<Rightarrow> Push_head x)"
| "u_dispatch_queue_push_list q (Push_link prev x) =
     (q\<lparr>do_nexts := (do_nexts q)(prev := Some x)\<rparr>, Push_idle)"
| "u_dispatch_queue_push_list q (Push_head x) = (q\<lparr>dq_items_head := Some x\<rparr>, Push_idle)"
| "u_dispatch_queue_push_list q Push_idle = (q, Push_idle)"

datatype drain_pc =
    Drain_idle
  | Drain_test                      \<comment> \<open>while (dq->dq_items_tail)\<close>
  | Drain_head                      \<comment> \<open>spin until the head is there, read it\<close>
  | Drain_clear nat                 \<comment> \<open>dq->dq_items_head = NULL\<close>
  | Drain_next nat                  \<comment> \<open>next_dc = dc->do_next\<close>
  | Drain_cas nat                   \<comment> \<open>no next: try to empty the list\<close>
  | Drain_item nat "nat option"     \<comment> \<open>dc in hand, its successor known\<close>
  | Drain_out nat "nat option"      \<comment> \<open>not a complete drain: undo\<close>
  | Drain_restore nat               \<comment> \<open>dq->dq_items_head = dc\<close>
  | Drain_spin nat                  \<comment> \<open>somebody pushed: wait for the new head\<close>
  | Drain_put nat nat               \<comment> \<open>dq->dq_items_head = dc, before the new head\<close>
  | Drain_relink nat nat            \<comment> \<open>dc->do_next = next_dc\<close>

text \<open>
  One action of the drainer.  \<open>go\<close> is the outcome of the tests that decide whether the item in hand
  is executed or the drain stops.  The last component is the item that leaves the list.
\<close>

fun u_dispatch_queue_drain :: "bool \<Rightarrow> mpsc \<Rightarrow> drain_pc \<Rightarrow> mpsc \<times> drain_pc \<times> nat option" where
  "u_dispatch_queue_drain go q Drain_idle = (q, Drain_test, None)"
| "u_dispatch_queue_drain go q Drain_test =
     (case dq_items_tail q of Some _ \<Rightarrow> (q, Drain_head, None) | None \<Rightarrow> (q, Drain_idle, None))"
| "u_dispatch_queue_drain go q Drain_head =
     (case dq_items_head q of Some dc \<Rightarrow> (q, Drain_clear dc, None) | None \<Rightarrow> (q, Drain_head, None))"
| "u_dispatch_queue_drain go q (Drain_clear dc) = (q\<lparr>dq_items_head := None\<rparr>, Drain_next dc, None)"
| "u_dispatch_queue_drain go q (Drain_next dc) =
     (case do_nexts q dc of
        Some n \<Rightarrow> (q, Drain_item dc (Some n), None)
      | None \<Rightarrow> (q, Drain_cas dc, None))"
| "u_dispatch_queue_drain go q (Drain_cas dc) =
     (if dq_items_tail q = Some dc
      then (q\<lparr>dq_items_tail := None\<rparr>, Drain_item dc None, None)
      else (q, Drain_next dc, None))"
| "u_dispatch_queue_drain go q (Drain_item dc next_dc) =
     (if go then (q, case next_dc of Some n \<Rightarrow> Drain_next n | None \<Rightarrow> Drain_test, Some dc)
      else (q, Drain_out dc next_dc, None))"
| "u_dispatch_queue_drain go q (Drain_out dc next_dc) =
     (if next_dc \<noteq> None then (q, Drain_restore dc, None)
      else if dq_items_tail q = None then (q\<lparr>dq_items_tail := Some dc\<rparr>, Drain_restore dc, None)
      else (q, Drain_spin dc, None))"
| "u_dispatch_queue_drain go q (Drain_restore dc) = (q\<lparr>dq_items_head := Some dc\<rparr>, Drain_idle, None)"
| "u_dispatch_queue_drain go q (Drain_spin dc) =
     (case dq_items_head q of Some n \<Rightarrow> (q, Drain_put dc n, None) | None \<Rightarrow> (q, Drain_spin dc, None))"
| "u_dispatch_queue_drain go q (Drain_put dc n) = (q\<lparr>dq_items_head := Some dc\<rparr>, Drain_relink dc n, None)"
| "u_dispatch_queue_drain go q (Drain_relink dc n) =
     (q\<lparr>do_nexts := (do_nexts q)(dc := Some n)\<rparr>, Drain_idle, None)"

section \<open>Threads on one list\<close>

text \<open>
  \<open>ff_items\<close>, \<open>ff_pushed\<close> and \<open>ff_drained\<close> are not read by the code.  They record the abstract queue,
  in the order in which the pushers exchanged the tail, and what went in and came out.
\<close>

record fifo =
  ff_q :: mpsc
  ff_pushers :: "push_pc list"
  ff_drainer :: drain_pc
  ff_items :: "nat list"
  ff_pushed :: "nat list"
  ff_drained :: "nat list"

fun push_node :: "push_pc \<Rightarrow> nat list" where
  "push_node Push_idle = []"
| "push_node (Push_xchg x) = [x]"
| "push_node (Push_link _ x) = [x]"
| "push_node (Push_head x) = [x]"

fun new_item :: "push_pc \<Rightarrow> nat list" where
  "new_item (Push_xchg x) = [x]"
| "new_item _ = []"

definition fifo_push :: "nat \<Rightarrow> fifo \<Rightarrow> fifo" where
  "fifo_push i s =
     (case u_dispatch_queue_push_list (ff_q s) (ff_pushers s ! i) of
        (q, pc) \<Rightarrow> s\<lparr>ff_q := q, ff_pushers := (ff_pushers s)[i := pc],
                     ff_items := ff_items s @ new_item (ff_pushers s ! i),
                     ff_pushed := ff_pushed s @ new_item (ff_pushers s ! i)\<rparr>)"

definition fifo_drain :: "bool \<Rightarrow> fifo \<Rightarrow> fifo" where
  "fifo_drain go s =
     (case u_dispatch_queue_drain go (ff_q s) (ff_drainer s) of
        (q, pc, None) \<Rightarrow> s\<lparr>ff_q := q, ff_drainer := pc\<rparr>
      | (q, pc, Some dc) \<Rightarrow>
          s\<lparr>ff_q := q, ff_drainer := pc, ff_items := tl (ff_items s), ff_drained := ff_drained s @ [dc]\<rparr>)"

text \<open>An item that is pushed is not on the list and is not being pushed by another thread.\<close>

inductive fifo_step :: "fifo \<Rightarrow> fifo \<Rightarrow> bool" where
  fifo_call:
    "i < length (ff_pushers s) \<Longrightarrow> ff_pushers s ! i = Push_idle \<Longrightarrow>
     x \<notin> set (ff_items s) \<Longrightarrow> x \<notin> set (concat (map push_node (ff_pushers s))) \<Longrightarrow>
     fifo_step s (s\<lparr>ff_pushers := (ff_pushers s)[i := Push_xchg x]\<rparr>)"
| fifo_pusher: "i < length (ff_pushers s) \<Longrightarrow> fifo_step s (fifo_push i s)"
| fifo_drainer: "fifo_step s (fifo_drain go s)"

definition fifo_init :: "fifo \<Rightarrow> bool" where
  "fifo_init s =
     (dq_items_head (ff_q s) = None \<and> dq_items_tail (ff_q s) = None \<and>
      set (ff_pushers s) \<subseteq> {Push_idle} \<and> ff_drainer s = Drain_idle \<and>
      ff_items s = [] \<and> ff_pushed s = [] \<and> ff_drained s = [])"

section \<open>Linked lists with pending links\<close>

text \<open>
  A list of items is linked when every item points to its successor, except where a pusher has yet
  to write that link; \<open>L\<close> are the links that are still to be written.
\<close>

fun linked :: "(nat \<Rightarrow> nat option) \<Rightarrow> (nat \<times> nat) set \<Rightarrow> nat list \<Rightarrow> bool" where
  "linked nx L [] = (L = {})"
| "linked nx L [x] = (L = {} \<and> nx x = None)"
| "linked nx L (x # y # r) =
     (nx x = (if (x, y) \<in> L then None else Some y) \<and> linked nx (L - {(x, y)}) (y # r))"

lemma linked_upd: "p \<notin> set b \<Longrightarrow> linked (nx(p := v)) L b = linked nx L b"
  by (induction nx L b rule: linked.induct) auto

lemma linked_mem: "linked nx L b \<Longrightarrow> (p, x) \<in> L \<Longrightarrow> p \<in> set b \<and> x \<in> set (tl b)"
proof (induction nx L b rule: linked.induct)
  case (3 nx L y z r)
  then show ?case
    by (cases "(p, x) = (y, z)") (auto dest: list.set_sel(2) [rotated])
qed auto

lemma linked_done:
  assumes "linked nx L (d # n # r)" "d \<notin> set (n # r)" "nx d = Some n"
  shows "(d, x) \<notin> L"
  using assms linked_mem [of nx "L - {(d, n)}" "n # r" d x] by (auto split: if_splits)

lemma linked_append:
  "linked nx L b \<Longrightarrow> b \<noteq> [] \<Longrightarrow> x \<notin> set b \<Longrightarrow>
   linked (nx(x := None)) (insert (last b, x) L) (b @ [x])"
proof (induction nx L b rule: linked.induct)
  case (3 nx L y z r)
  then have "insert (last (z # r), x) L - {(y, z)} = insert (last (z # r), x) (L - {(y, z)})"
    by auto
  then show ?case
    using 3 by auto
qed auto

lemma linked_link:
  "linked nx L b \<Longrightarrow> distinct b \<Longrightarrow> (p, x) \<in> L \<Longrightarrow> linked (nx(p := Some x)) (L - {(p, x)}) b"
proof (induction nx L b rule: linked.induct)
  case (3 nx L y z r)
  show ?case
  proof (cases "(p, x) = (y, z)")
    case True
    then show ?thesis
      using 3(2,3) linked_upd [of y "z # r" nx "Some z" "L - {(y, z)}"] by (simp add: fun_upd_same del: fun_upd_apply)
  next
    case False
    then have "p \<noteq> y"
      using linked_mem [of nx "L - {(y, z)}" "z # r" p x] 3 by auto
    moreover have "L - {(p, x)} - {(y, z)} = L - {(y, z)} - {(p, x)}"
      by blast
    ultimately show ?thesis
      using 3 False by auto
  qed
qed auto

section \<open>Invariant\<close>

fun link_of :: "push_pc \<Rightarrow> (nat \<times> nat) list" where
  "link_of (Push_link p x) = [(p, x)]"
| "link_of _ = []"

fun head_of :: "push_pc \<Rightarrow> nat list" where
  "head_of (Push_head x) = [x]"
| "head_of _ = []"

definition nodes :: "push_pc list \<Rightarrow> nat list" where
  "nodes ps = concat (map push_node ps)"

definition links :: "push_pc list \<Rightarrow> (nat \<times> nat) set" where
  "links ps = set (concat (map link_of ps))"

definition heads :: "push_pc list \<Rightarrow> nat set" where
  "heads ps = set (concat (map head_of ps))"

definition fresh :: "push_pc list \<Rightarrow> nat set" where
  "fresh ps = set (concat (map new_item ps))"

lemma pcs_append [simp]:
  "nodes (as @ bs) = nodes as @ nodes bs" "nodes (pc # bs) = push_node pc @ nodes bs" "nodes [] = []"
  "links (as @ bs) = links as \<union> links bs" "links (pc # bs) = set (link_of pc) \<union> links bs" "links [] = {}"
  "heads (as @ bs) = heads as \<union> heads bs" "heads (pc # bs) = set (head_of pc) \<union> heads bs" "heads [] = {}"
  "fresh (as @ bs) = fresh as \<union> fresh bs" "fresh (pc # bs) = set (new_item pc) \<union> fresh bs" "fresh [] = {}"
  by (simp_all add: nodes_def links_def heads_def fresh_def)

text \<open>
  The head is published: of an empty list there is none and nobody is about to write one; of any
  other list it is the first item, or one pusher is about to write it.
\<close>

definition head_ok :: "nat option \<Rightarrow> nat set \<Rightarrow> nat list \<Rightarrow> bool" where
  "head_ok h hs b =
     (case b of
        [] \<Rightarrow> h = None \<and> hs = {}
      | x # _ \<Rightarrow> (h = Some x \<and> hs = {}) \<or> (h = None \<and> hs = {x}))"

definition tail_ok :: "nat option \<Rightarrow> nat list \<Rightarrow> bool" where
  "tail_ok t b = (t = (if b = [] then None else Some (last b)))"

definition base_ok :: "mpsc \<Rightarrow> (nat \<times> nat) set \<Rightarrow> nat list \<Rightarrow> bool" where
  "base_ok m L b = (linked (do_nexts m) L b \<and> tail_ok (dq_items_tail m) b)"

text \<open>
  What the drainer knows, by where it is: \<open>h\<close> is the head pointer, \<open>hs\<close> the pending writes of the
  head, \<open>q\<close> the abstract queue.  While an item is cut off from the list, the pointers describe the
  rest of the queue.
\<close>

fun drain_ok :: "mpsc \<Rightarrow> (nat \<times> nat) set \<Rightarrow> nat set \<Rightarrow> nat list \<Rightarrow> drain_pc \<Rightarrow> bool" where
  "drain_ok m L hs q Drain_idle =
     (base_ok m L q \<and> head_ok (dq_items_head m) hs q)"
| "drain_ok m L hs q Drain_test =
     (base_ok m L q \<and> head_ok (dq_items_head m) hs q)"
| "drain_ok m L hs q Drain_head =
     (base_ok m L q \<and> head_ok (dq_items_head m) hs q \<and> q \<noteq> [])"
| "drain_ok m L hs q (Drain_clear dc) =
     (base_ok m L q \<and> dq_items_head m = Some dc \<and> hs = {} \<and>
      q \<noteq> [] \<and> hd q = dc)"
| "drain_ok m L hs q (Drain_next dc) =
     (base_ok m L q \<and> dq_items_head m = None \<and> hs = {} \<and>
      q \<noteq> [] \<and> hd q = dc)"
| "drain_ok m L hs q (Drain_cas dc) =
     (base_ok m L q \<and> dq_items_head m = None \<and> hs = {} \<and>
      q \<noteq> [] \<and> hd q = dc)"
| "drain_ok m L hs q (Drain_restore dc) =
     (base_ok m L q \<and> dq_items_head m = None \<and> hs = {} \<and>
      q \<noteq> [] \<and> hd q = dc)"
| "drain_ok m L hs q (Drain_item dc (Some n)) =
     (base_ok m L q \<and> dq_items_head m = None \<and> hs = {} \<and>
      do_nexts m dc = Some n \<and> (\<exists>r. q = dc # n # r))"
| "drain_ok m L hs q (Drain_out dc (Some n)) =
     (base_ok m L q \<and> dq_items_head m = None \<and> hs = {} \<and>
      do_nexts m dc = Some n \<and> (\<exists>r. q = dc # n # r))"
| "drain_ok m L hs q (Drain_item dc None) =
     (\<exists>r. q = dc # r \<and> do_nexts m dc = None \<and> base_ok m L r \<and>
       head_ok (dq_items_head m) hs r)"
| "drain_ok m L hs q (Drain_out dc None) =
     (\<exists>r. q = dc # r \<and> do_nexts m dc = None \<and> base_ok m L r \<and>
       head_ok (dq_items_head m) hs r)"
| "drain_ok m L hs q (Drain_spin dc) =
     (\<exists>r. q = dc # r \<and> r \<noteq> [] \<and> base_ok m L r \<and>
       head_ok (dq_items_head m) hs r)"
| "drain_ok m L hs q (Drain_put dc n) =
     (\<exists>r. q = dc # n # r \<and> base_ok m L (n # r) \<and>
       dq_items_head m = Some n \<and> hs = {})"
| "drain_ok m L hs q (Drain_relink dc n) =
     (\<exists>r. q = dc # n # r \<and> base_ok m L (n # r) \<and>
       dq_items_head m = Some dc \<and> hs = {})"

definition fifo_inv :: "fifo \<Rightarrow> bool" where
  "fifo_inv s =
     (ff_pushed s = ff_drained s @ ff_items s \<and>
      distinct (ff_items s) \<and> distinct (nodes (ff_pushers s)) \<and>
      fresh (ff_pushers s) \<inter> set (ff_items s) = {} \<and>
      drain_ok (ff_q s) (links (ff_pushers s)) (heads (ff_pushers s)) (ff_items s) (ff_drainer s))"

subsection \<open>Pushers\<close>

text \<open>
  The drainer's knowledge survives each action of a pusher.  The exchange of the tail appends the
  item, and leaves a pending link, or a pending head where the described list was empty.
\<close>

definition new_links :: "nat option \<Rightarrow> nat \<Rightarrow> (nat \<times> nat) set" where
  "new_links t x = (case t of Some p \<Rightarrow> {(p, x)} | None \<Rightarrow> {})"

definition new_heads :: "nat option \<Rightarrow> nat \<Rightarrow> nat set" where
  "new_heads t x = (case t of Some _ \<Rightarrow> {} | None \<Rightarrow> {x})"

lemma xchg_base:
  assumes "base_ok m L b" "x \<notin> set b" "c = b @ [x]"
  shows "base_ok (m\<lparr>do_nexts := (do_nexts m)(x := None), dq_items_tail := Some x\<rparr>)
           (new_links (dq_items_tail m) x \<union> L) c"
  using assms linked_append [of "do_nexts m" L b x]
  by (auto simp: base_ok_def tail_ok_def new_links_def)

lemma xchg_head:
  "head_ok h hs b \<Longrightarrow> base_ok m L b \<Longrightarrow> c = b @ [x] \<Longrightarrow> head_ok h (new_heads (dq_items_tail m) x \<union> hs) c"
  by (cases b) (auto simp: head_ok_def base_ok_def tail_ok_def new_heads_def)

lemma xchg_heads_ne: "base_ok m L b \<Longrightarrow> b \<noteq> [] \<Longrightarrow> new_heads (dq_items_tail m) x = {}"
  by (simp add: base_ok_def tail_ok_def new_heads_def)

lemma drain_ok_xchg:
  assumes "drain_ok m L hs q pc" "x \<notin> set q"
  shows "drain_ok (m\<lparr>do_nexts := (do_nexts m)(x := None), dq_items_tail := Some x\<rparr>)
           (new_links (dq_items_tail m) x \<union> L) (new_heads (dq_items_tail m) x \<union> hs) (q @ [x]) pc"
  using assms
  by (cases "(m, L, hs, q, pc)" rule: drain_ok.cases)
    (auto intro!: xchg_base xchg_head simp: xchg_heads_ne)

lemma link_base:
  "base_ok m L b \<Longrightarrow> (p, x) \<in> L \<Longrightarrow> distinct b \<Longrightarrow>
   base_ok (m\<lparr>do_nexts := (do_nexts m)(p := Some x)\<rparr>) (L - {(p, x)}) b"
  by (simp add: base_ok_def linked_link)

lemma link_mem: "base_ok m L b \<Longrightarrow> (p, x) \<in> L \<Longrightarrow> p \<in> set b"
  using linked_mem by (auto simp: base_ok_def)

lemma link_done:
  "base_ok m L (d # n # r) \<Longrightarrow> (d, x) \<in> L \<Longrightarrow> do_nexts m d = Some n \<Longrightarrow> d \<notin> set (n # r) \<Longrightarrow> False"
  using linked_done [of "do_nexts m" L d n r x] by (auto simp: base_ok_def)

lemma drain_ok_link:
  assumes "drain_ok m L hs q pc" "(p, x) \<in> L" "distinct q"
  shows "drain_ok (m\<lparr>do_nexts := (do_nexts m)(p := Some x)\<rparr>) (L - {(p, x)}) hs q pc"
  using assms
  by (cases "(m, L, hs, q, pc)" rule: drain_ok.cases)
    (auto intro!: link_base dest: link_mem link_done)

lemma drain_ok_head:
  assumes "drain_ok m L hs q pc" "x \<in> hs"
  shows "drain_ok (m\<lparr>dq_items_head := Some x\<rparr>) L (hs - {x}) q pc"
  using assms
  by (cases "(m, L, hs, q, pc)" rule: drain_ok.cases)
    (auto simp: head_ok_def base_ok_def split: list.splits)

lemma pc_sets:
  "set (new_item pc) \<subseteq> set (push_node pc)"
  "(p, x) \<in> set (link_of pc) \<Longrightarrow> x \<in> set (push_node pc)"
  "x \<in> set (head_of pc) \<Longrightarrow> x \<in> set (push_node pc)"
  by (cases pc; auto)+

lemma fresh_nodes: "x \<in> fresh ps \<Longrightarrow> x \<in> set (nodes ps)"
  and links_nodes: "(p, x) \<in> links ps \<Longrightarrow> x \<in> set (nodes ps)"
  and heads_nodes: "x \<in> heads ps \<Longrightarrow> x \<in> set (nodes ps)"
  using pc_sets by (induction ps) fastforce+

lemma fifo_push_split:
  assumes "i < length (ff_pushers s)"
  obtains as pc bs where "ff_pushers s = as @ pc # bs" "length as = i"
    "\<And>q pc'. u_dispatch_queue_push_list (ff_q s) pc = (q, pc') \<Longrightarrow> fifo_push i s =
       s\<lparr>ff_q := q, ff_pushers := as @ pc' # bs, ff_items := ff_items s @ new_item pc,
         ff_pushed := ff_pushed s @ new_item pc\<rparr>"
proof -
  have "ff_pushers s = take i (ff_pushers s) @ ff_pushers s ! i # drop (Suc i) (ff_pushers s)"
    using assms by (rule id_take_nth_drop)
  then show ?thesis
    using that [of "take i (ff_pushers s)" "ff_pushers s ! i" "drop (Suc i) (ff_pushers s)"] assms
    by (simp add: fifo_push_def upd_conv_take_nth_drop)
qed

lemma fifo_inv_xchg:
  assumes inv: "fifo_inv s" and ps: "ff_pushers s = as @ Push_xchg x # bs"
    and t: "ff_q t = (ff_q s)\<lparr>do_nexts := (do_nexts (ff_q s))(x := None), dq_items_tail := Some x\<rparr>"
      "ff_pushers t = as @ (case dq_items_tail (ff_q s) of Some p \<Rightarrow> Push_link p x | None \<Rightarrow> Push_head x) # bs"
      "ff_items t = ff_items s @ [x]" "ff_pushed t = ff_pushed s @ [x]" "ff_drained t = ff_drained s"
      "ff_drainer t = ff_drainer s"
  shows "fifo_inv t"
proof -
  have x: "x \<notin> set (ff_items s)" "x \<notin> set (nodes as)" "x \<notin> set (nodes bs)"
    using inv ps by (auto simp: fifo_inv_def)
  then have fresh: "fresh (ff_pushers t) \<inter> set (ff_items t) = {}"
    using inv ps fresh_nodes [of x as] fresh_nodes [of x bs]
    by (auto simp: fifo_inv_def t split: option.splits)
  have "links (ff_pushers t) = new_links (dq_items_tail (ff_q s)) x \<union> links (ff_pushers s)"
    "heads (ff_pushers t) = new_heads (dq_items_tail (ff_q s)) x \<union> heads (ff_pushers s)"
    "nodes (ff_pushers t) = nodes (ff_pushers s)"
    by (auto simp: ps t new_links_def new_heads_def split: option.splits)
  then show ?thesis
    using inv x fresh drain_ok_xchg [of "ff_q s" "links (ff_pushers s)" "heads (ff_pushers s)" "ff_items s"
        "ff_drainer s" x]
    by (simp add: fifo_inv_def t)
qed

lemma fifo_inv_push:
  assumes inv: "fifo_inv s" and i: "i < length (ff_pushers s)"
  shows "fifo_inv (fifo_push i s)"
  using i
proof (rule fifo_push_split)
  fix as pc bs
  assume ps: "ff_pushers s = as @ pc # bs"
    and push: "\<And>q pc'. u_dispatch_queue_push_list (ff_q s) pc = (q, pc') \<Longrightarrow> fifo_push i s =
       s\<lparr>ff_q := q, ff_pushers := as @ pc' # bs, ff_items := ff_items s @ new_item pc,
         ff_pushed := ff_pushed s @ new_item pc\<rparr>"
  show ?thesis
  proof (cases pc)
    case Push_idle
    then show ?thesis
      using inv by (simp add: push fifo_inv_def ps)
  next
    case (Push_xchg x)
    then show ?thesis
      using ps by (intro fifo_inv_xchg [OF inv]) (auto simp: push)
  next
    case (Push_link p x)
    then have "(p, x) \<notin> links as \<union> links bs"
      using inv ps links_nodes [of p x as] links_nodes [of p x bs] by (auto simp: fifo_inv_def)
    then show ?thesis
      using inv ps Push_link drain_ok_link [of "ff_q s" "links (ff_pushers s)" "heads (ff_pushers s)"
          "ff_items s" "ff_drainer s" p x]
      by (simp add: push fifo_inv_def)
  next
    case (Push_head x)
    then have "x \<notin> heads as \<union> heads bs"
      using inv ps heads_nodes [of x as] heads_nodes [of x bs] by (auto simp: fifo_inv_def)
    then show ?thesis
      using inv ps Push_head drain_ok_head [of "ff_q s" "links (ff_pushers s)" "heads (ff_pushers s)"
          "ff_items s" "ff_drainer s" x]
      by (simp add: push fifo_inv_def)
  qed
qed

subsection \<open>The drainer\<close>

text \<open>The two exchanges of the tail: emptying the list, and putting the last item back.\<close>

lemma drain_ok_cas:
  assumes "drain_ok m L hs q (Drain_cas dc)" "distinct q" "dq_items_tail m = Some dc"
  shows "drain_ok (m\<lparr>dq_items_tail := None\<rparr>) L hs q (Drain_item dc None)"
proof -
  obtain r where r: "q = dc # r"
    using assms(1) by (cases q) auto
  then have "r = []"
    using assms by (cases r rule: rev_cases) (auto simp: base_ok_def tail_ok_def)
  then show ?thesis
    using assms r by (simp add: base_ok_def tail_ok_def head_ok_def)
qed

lemma drain_ok_reattach:
  assumes "drain_ok m L hs q (Drain_out dc None)"
  shows "if dq_items_tail m = None then drain_ok (m\<lparr>dq_items_tail := Some dc\<rparr>) L hs q (Drain_restore dc)
         else drain_ok m L hs q (Drain_spin dc)"
proof -
  obtain r where r: "q = dc # r" "do_nexts m dc = None" "base_ok m L r" "head_ok (dq_items_head m) hs r"
    using assms by auto
  have "r = [] \<longleftrightarrow> dq_items_tail m = None"
    using r(3) by (auto simp: base_ok_def tail_ok_def)
  then show ?thesis
    using r by (auto simp: base_ok_def tail_ok_def head_ok_def)
qed

lemma drain_ok_step:
  assumes "drain_ok m L hs q pc" "distinct q"
  shows "case u_dispatch_queue_drain go m pc of
           (m', pc', None) \<Rightarrow> drain_ok m' L hs q pc'
         | (m', pc', Some dc) \<Rightarrow> q \<noteq> [] \<and> hd q = dc \<and> drain_ok m' L hs (tl q) pc'"
proof (cases pc)
  case Drain_idle
  then show ?thesis using assms by simp
next
  case Drain_test
  then show ?thesis using assms by (auto simp: base_ok_def tail_ok_def split: option.splits if_splits)
next
  case Drain_head
  then show ?thesis using assms
    by (cases q) (auto simp: head_ok_def split: option.splits)
next
  case (Drain_clear dc)
  then show ?thesis using assms by (simp add: base_ok_def)
next
  case (Drain_next dc)
  then obtain r where "q = dc # r"
    using assms by (cases q) auto
  then show ?thesis using assms Drain_next
    by (cases r) (auto simp: base_ok_def split: option.splits if_splits)
next
  case (Drain_cas dc)
  then show ?thesis using assms drain_ok_cas [of m L hs q dc] by simp
next
  case (Drain_item dc next_dc)
  then show ?thesis using assms
    by (cases next_dc) (auto simp: base_ok_def tail_ok_def split: if_splits)
next
  case (Drain_out dc next_dc)
  then show ?thesis using assms
      drain_ok_reattach [of m L hs q dc] by (cases next_dc) (auto split: if_splits)
next
  case (Drain_restore dc)
  then show ?thesis using assms by (cases q) (simp_all add: base_ok_def head_ok_def)
next
  case (Drain_spin dc)
  then obtain n r where "q = dc # n # r" "base_ok m L (n # r)" "head_ok (dq_items_head m) hs (n # r)"
    using assms by (auto simp: neq_Nil_conv)
  then show ?thesis using Drain_spin by (auto simp: head_ok_def split: option.splits)
next
  case (Drain_put dc n)
  then show ?thesis using assms by (auto simp: base_ok_def)
next
  case (Drain_relink dc n)
  then show ?thesis using assms linked_upd [of dc "n # tl (tl q)" "do_nexts m" "Some n" L]
      linked_mem [of "do_nexts m" L "n # tl (tl q)" dc n]
    by (auto simp: base_ok_def tail_ok_def head_ok_def)
qed

lemma fifo_inv_drain:
  assumes "fifo_inv s"
  shows "fifo_inv (fifo_drain go s)"
proof -
  have ok: "drain_ok (ff_q s) (links (ff_pushers s)) (heads (ff_pushers s)) (ff_items s) (ff_drainer s)"
    "distinct (ff_items s)"
    using assms by (simp_all add: fifo_inv_def)
  obtain m pc r where r: "u_dispatch_queue_drain go (ff_q s) (ff_drainer s) = (m, pc, r)"
    by (metis prod_cases3)
  show ?thesis
    using drain_ok_step [OF ok, of go] assms unfolding r fifo_drain_def
    by (cases r; cases "ff_items s") (auto simp: fifo_inv_def)
qed

lemma fifo_inv_call:
  assumes "fifo_inv s" "i < length (ff_pushers s)" "ff_pushers s ! i = Push_idle"
    and "x \<notin> set (ff_items s)" "x \<notin> set (nodes (ff_pushers s))"
  shows "fifo_inv (s\<lparr>ff_pushers := (ff_pushers s)[i := Push_xchg x]\<rparr>)"
proof -
  obtain as bs where ps: "ff_pushers s = as @ Push_idle # bs" "length as = i"
    using id_take_nth_drop [OF assms(2)] assms(2,3) by (metis length_take min.strict_order_iff min.commute)
  then show ?thesis
    using assms by (auto simp: fifo_inv_def list_update_append)
qed

lemma fifo_inv_init: "fifo_init s \<Longrightarrow> fifo_inv s"
proof -
  assume init: "fifo_init s"
  then have "set ps \<subseteq> {Push_idle} \<Longrightarrow> nodes ps = [] \<and> links ps = {} \<and> heads ps = {} \<and> fresh ps = {}" for ps
    by (induction ps) auto
  then show ?thesis
    using init by (simp add: fifo_init_def fifo_inv_def base_ok_def tail_ok_def head_ok_def)
qed

lemma fifo_inv_step: "fifo_inv s \<Longrightarrow> fifo_step s t \<Longrightarrow> fifo_inv t"
  by (erule fifo_step.cases) (auto intro: fifo_inv_push fifo_inv_drain fifo_inv_call simp: nodes_def)

interpretation fifo: invariant_system fifo_init fifo_step fifo_inv
  by unfold_locales (fact fifo_inv_init, fact fifo_inv_step)

section \<open>A drain without pushers ends\<close>

fun drain_rank :: "nat list \<Rightarrow> drain_pc \<Rightarrow> nat" where
  "drain_rank q (Drain_item _ _) = 0"
| "drain_rank q (Drain_next _) = (if length q = 1 then 2 else 1)"
| "drain_rank q (Drain_cas _) = (if length q = 1 then 1 else 2)"
| "drain_rank q (Drain_clear _) = 3"
| "drain_rank q Drain_head = 4"
| "drain_rank q Drain_test = 5"
| "drain_rank q Drain_idle = 6"
| "drain_rank q (Drain_relink _ _) = 7"
| "drain_rank q (Drain_restore _) = 7"
| "drain_rank q (Drain_put _ _) = 8"
| "drain_rank q (Drain_spin _) = 9"
| "drain_rank q (Drain_out _ _) = 10"

definition drain_work :: "fifo \<Rightarrow> nat" where
  "drain_work s = 20 * length (ff_items s) + drain_rank (ff_items s) (ff_drainer s)"

lemma fifo_drain_work:
  assumes ok: "drain_ok (ff_q s) {} {} (ff_items s) (ff_drainer s)" and ne: "ff_items s \<noteq> []"
  shows "drain_work (fifo_drain True s) < drain_work s"
proof (cases "ff_drainer s")
  case (Drain_next dc)
  then obtain r where "ff_items s = dc # r"
    using ok by (cases "ff_items s") auto
  then show ?thesis
    using ok Drain_next by (cases r) (auto simp: fifo_drain_def drain_work_def base_ok_def)
next
  case (Drain_cas dc)
  then obtain r where "ff_items s = dc # r"
    using ok by (cases "ff_items s") auto
  then show ?thesis
    using ok Drain_cas by (cases r) (auto simp: fifo_drain_def drain_work_def base_ok_def tail_ok_def)
next
  case (Drain_item dc n)
  then show ?thesis
    using ok ne by (cases n; cases "ff_items s") (auto simp: fifo_drain_def drain_work_def)
next
  case (Drain_spin dc)
  then obtain n r where "ff_items s = dc # n # r" "head_ok (dq_items_head (ff_q s)) {} (n # r)"
    using ok by (auto simp: neq_Nil_conv)
  then show ?thesis
    using Drain_spin by (auto simp: fifo_drain_def drain_work_def head_ok_def)
next
  case Drain_head
  then show ?thesis
    using ok ne by (cases "ff_items s") (auto simp: fifo_drain_def drain_work_def head_ok_def)
qed (use ok ne in \<open>auto simp: fifo_drain_def drain_work_def base_ok_def tail_ok_def split: if_splits\<close>)

lemma fifo_drain_frame: "ff_pushers (fifo_drain go s) = ff_pushers s" "ff_pushed (fifo_drain go s) = ff_pushed s"
  by (auto simp: fifo_drain_def split: prod.splits option.splits)

lemma fifo_drain_all:
  assumes "fifo_inv s" "links (ff_pushers s) = {}" "heads (ff_pushers s) = {}"
  shows "\<exists>n. ff_items ((fifo_drain True ^^ n) s) = [] \<and>
             ff_drained ((fifo_drain True ^^ n) s) = ff_drained s @ ff_items s"
  using assms
proof (induction "drain_work s" arbitrary: s rule: less_induct)
  case less
  show ?case
  proof (cases "ff_items s = []")
    case True
    then show ?thesis
      by (intro exI [of _ 0]) simp
  next
    case False
    let ?t = "fifo_drain True s"
    have inv: "fifo_inv ?t"
      using less.prems(1) by (rule fifo_inv_drain)
    have "drain_work ?t < drain_work s"
      using less.prems False by (intro fifo_drain_work) (simp_all add: fifo_inv_def)
    then obtain n where "ff_items ((fifo_drain True ^^ n) ?t) = []"
        "ff_drained ((fifo_drain True ^^ n) ?t) = ff_drained ?t @ ff_items ?t"
      using less.hyps [OF _ inv] less.prems by (auto simp: fifo_drain_frame)
    moreover have "ff_drained ?t @ ff_items ?t = ff_drained s @ ff_items s"
      using inv less.prems(1) fifo_drain_frame(2) [of True s] by (simp add: fifo_inv_def)
    ultimately show ?thesis
      by (intro exI [of _ "Suc n"]) (simp add: funpow_Suc_right del: funpow.simps)
  qed
qed

section \<open>Properties\<close>

text \<open>
  The list of a queue is first in, first out and loses nothing.  In every interleaving of any
  number of pushers with a drainer, including one that stops early and puts its item back, what
  the drainer has taken so far, followed by what is in the queue, is exactly what the pushers
  entered, in the order in which they exchanged the tail.
\<close>

theorem fifo_order:
  assumes "reach fifo_init fifo_step s"
  shows "ff_pushed s = ff_drained s @ ff_items s \<and> distinct (ff_items s)"
  using fifo.reachable_inv [OF assms] by (simp add: fifo_inv_def)

text \<open>
  C3: The pointer code refines an atomic queue.  Every action of a pusher or of the drainer, from
  any reachable state, either leaves the abstract queue as it is, or appends one item at its end,
  or takes exactly its first item.
\<close>

theorem fifo_refines_queue:
  assumes "reach fifo_init fifo_step s" "fifo_step s t"
  shows "(ff_items t = ff_items s \<and> ff_drained t = ff_drained s) \<or>
         (\<exists>x. ff_items t = ff_items s @ [x] \<and> x \<notin> set (ff_items s) \<and> ff_drained t = ff_drained s) \<or>
         (\<exists>x. ff_items s = x # ff_items t \<and> ff_drained t = ff_drained s @ [x])"
proof -
  have inv: "fifo_inv s" "fifo_inv t"
    using fifo.reachable_inv [OF assms(1)] fifo_inv_step [OF _ assms(2)] by simp_all
  from assms(2) show ?thesis
  proof cases
    case (fifo_call i x)
    then show ?thesis by simp
  next
    case (fifo_pusher i)
    then show ?thesis
      using inv by (cases "ff_pushers s ! i") (auto simp: fifo_push_def fifo_inv_def)
  next
    case (fifo_drainer go)
    have "ff_drained t @ ff_items t = ff_drained s @ ff_items s"
      using inv fifo_drain_frame(2) [of go s] fifo_drainer by (simp add: fifo_inv_def)
    then show ?thesis
      using fifo_drainer by (auto simp: fifo_drain_def split: prod.splits option.splits)
  qed
qed

text \<open>
  C17: A drain runs to completion.  From every reachable state in which no push is under way, the
  drainer alone, wherever it stands, empties the queue in finitely many actions and takes exactly
  the items that were in it, in order; it never spins for a head or a link that nobody will write.
\<close>

theorem fifo_drain_completes:
  assumes "reach fifo_init fifo_step s" "set (ff_pushers s) \<subseteq> {Push_idle}"
  shows "\<exists>n. ff_items ((fifo_drain True ^^ n) s) = [] \<and>
             ff_drained ((fifo_drain True ^^ n) s) = ff_drained s @ ff_items s"
proof -
  have "set ps \<subseteq> {Push_idle} \<Longrightarrow> links ps = {} \<and> heads ps = {}" for ps
    by (induction ps) auto
  then show ?thesis
    using fifo_drain_all [OF fifo.reachable_inv [OF assms(1)]] assms(2) by blast
qed

section \<open>Witnesses\<close>

text \<open>
  Two pushers; the first one has entered item 7 and published it, the second one has exchanged the
  tail for item 8 but not yet linked it; the drainer holds item 7.
\<close>

definition fifo_example :: fifo where
  "fifo_example =
     \<lparr>ff_q = \<lparr>dq_items_head = None, dq_items_tail = None, do_nexts = \<lambda>_. None\<rparr>,
      ff_pushers = [Push_idle, Push_idle], ff_drainer = Drain_idle,
      ff_items = [], ff_pushed = [], ff_drained = []\<rparr>"

definition fifo_begin :: "nat \<Rightarrow> nat \<Rightarrow> fifo \<Rightarrow> fifo" where
  "fifo_begin i x s = s\<lparr>ff_pushers := (ff_pushers s)[i := Push_xchg x]\<rparr>"

definition fifo_example_busy :: fifo where
  "fifo_example_busy =
     fifo_drain True (fifo_drain True (fifo_drain True (fifo_drain True (
       fifo_push 1 (fifo_begin 1 8 (fifo_push 0 (fifo_push 0 (fifo_begin 0 7 fifo_example))))))))"

lemmas fifo_example_defs =
  fifo_example_def fifo_example_busy_def fifo_begin_def fifo_push_def fifo_drain_def

lemma reach_fifo_begin:
  "reach fifo_init fifo_step s \<Longrightarrow> i < length (ff_pushers s) \<Longrightarrow> ff_pushers s ! i = Push_idle \<Longrightarrow>
   x \<notin> set (ff_items s) \<Longrightarrow> x \<notin> set (concat (map push_node (ff_pushers s))) \<Longrightarrow>
   reach fifo_init fifo_step (fifo_begin i x s)"
  unfolding fifo_begin_def by (erule reach_step, rule fifo_call)

lemma reach_fifo_push:
  "reach fifo_init fifo_step s \<Longrightarrow> i < length (ff_pushers s) \<Longrightarrow> reach fifo_init fifo_step (fifo_push i s)"
  by (erule reach_step, rule fifo_pusher)

lemma reach_fifo_drain: "reach fifo_init fifo_step s \<Longrightarrow> reach fifo_init fifo_step (fifo_drain go s)"
  by (erule reach_step, rule fifo_drainer)

lemma fifo_example_reach: "reach fifo_init fifo_step fifo_example"
  by (rule reach_init) (simp add: fifo_init_def fifo_example_def)

lemma fifo_example_busy_reach: "reach fifo_init fifo_step fifo_example_busy"
  unfolding fifo_example_busy_def
  by (intro reach_fifo_drain reach_fifo_push reach_fifo_begin fifo_example_reach)
    (simp_all add: fifo_example_defs)

theorem fifo_order_witness:
  "ff_pushed fifo_example_busy = [7, 8] \<and> ff_drained fifo_example_busy @ ff_items fifo_example_busy = [7, 8] \<and>
   ff_drainer fifo_example_busy = Drain_next 7"
  using fifo_order [OF fifo_example_busy_reach] by (simp add: fifo_example_defs)

theorem fifo_refines_queue_witness:
  "ff_items (fifo_push 1 fifo_example_busy) = ff_items fifo_example_busy \<and> ff_items fifo_example_busy = [7, 8]"
  using fifo_refines_queue [OF fifo_example_busy_reach fifo_pusher [of 1]]
  by (simp add: fifo_example_defs)

theorem fifo_drain_completes_witness:
  "\<exists>n. ff_drained ((fifo_drain True ^^ n) (fifo_push 1 fifo_example_busy)) = [7, 8]"
proof -
  have "reach fifo_init fifo_step (fifo_push 1 fifo_example_busy)"
    by (rule reach_fifo_push [OF fifo_example_busy_reach]) (simp add: fifo_example_defs)
  moreover have "set (ff_pushers (fifo_push 1 fifo_example_busy)) \<subseteq> {Push_idle}"
    "ff_drained (fifo_push 1 fifo_example_busy) @ ff_items (fifo_push 1 fifo_example_busy) = [7, 8]"
    by (simp_all add: fifo_example_defs)
  ultimately show ?thesis
    using fifo_drain_completes [of "fifo_push 1 fifo_example_busy"] by metis
qed

end
