(* ===== verification/Dispatch_Root.thy ===== *)
theory Dispatch_Root
  imports Dispatch_Fifo
begin

text \<open>
  The root queues: any number of threads push, and any number of worker threads take items with
  \<open>_dispatch_queue_concurrent_drain_one\<close> of \<open>libdispatch/src/queue.c\<close>, which uses a mediator value in
  the head pointer as a lock.  A push onto an empty queue and every taken item that leaves others
  behind ask for a worker with \<open>_dispatch_queue_wakeup_global\<close>; requests go to the thread pool, a
  bag of requests here, and \<open>_dispatch_worker_thread2\<close> runs them.
\<close>

section \<open>The code\<close>

definition mediator :: nat where
  "mediator = 0"

text \<open>
  \<open>_dispatch_queue_wakeup_global\<close> with a kernel work queue: nothing to do for an empty queue,
  otherwise one request is pending at a time.
\<close>

datatype wake_pc =
    Wake_test
  | Wake_cmpxchg
  | Wake_additem
  | Wake_out

record pool =
  dgq_pending :: int
  kworkqueue :: nat  \<comment> \<open>requests in the work queue that no worker has picked up\<close>

fun u_dispatch_queue_wakeup_global :: "mpsc \<Rightarrow> pool \<Rightarrow> wake_pc \<Rightarrow> pool \<times> wake_pc" where
  "u_dispatch_queue_wakeup_global q qc Wake_test =
     (qc, if dq_items_tail q = None then Wake_out else Wake_cmpxchg)"
| "u_dispatch_queue_wakeup_global q qc Wake_cmpxchg =
     (if dgq_pending qc = 0 then (qc\<lparr>dgq_pending := 1\<rparr>, Wake_additem) else (qc, Wake_out))"
| "u_dispatch_queue_wakeup_global q qc Wake_additem = (qc\<lparr>kworkqueue := Suc (kworkqueue qc)\<rparr>, Wake_out)"
| "u_dispatch_queue_wakeup_global q qc Wake_out = (qc, Wake_out)"

text \<open>A thread that pushes: \<open>_dispatch_queue_push_list\<close>, then the wake-up if it wrote the head.\<close>

datatype root_push_pc =
    Root_push push_pc
  | Root_wake wake_pc

fun root_push :: "mpsc \<Rightarrow> pool \<Rightarrow> root_push_pc \<Rightarrow> mpsc \<times> pool \<times> root_push_pc" where
  "root_push q qc (Root_push pc) =
     (case u_dispatch_queue_push_list q pc of
        (q', pc') \<Rightarrow> (q', qc, case pc of Push_head _ \<Rightarrow> Root_wake Wake_test | _ \<Rightarrow> Root_push pc'))"
| "root_push q qc (Root_wake pc) =
     (case u_dispatch_queue_wakeup_global q qc pc of
        (qc', pc') \<Rightarrow> (q, qc', if pc' = Wake_out then Root_push Push_idle else Root_wake pc'))"

text \<open>
  A worker: \<open>_dispatch_worker_thread2\<close> clears the pending flag and then takes and runs items until
  there is none.
\<close>

datatype worker_pc =
    Wk_none
  | Wk_start                     \<comment> \<open>qc->dgq_pending = 0\<close>
  | Wk_xchg                      \<comment> \<open>head = xchg(&dq->dq_items_head, mediator)\<close>
  | Wk_undo                      \<comment> \<open>no work: cmpxchg the mediator with NULL\<close>
  | Wk_lost wake_pc              \<comment> \<open>another worker owns the queue\<close>
  | Wk_next nat                  \<comment> \<open>next = head->do_next\<close>
  | Wk_null nat                  \<comment> \<open>dq->dq_items_head = NULL\<close>
  | Wk_cas nat                   \<comment> \<open>cmpxchg(&dq->dq_items_tail, head, NULL)\<close>
  | Wk_spin nat                  \<comment> \<open>while (!(next = head->do_next))\<close>
  | Wk_set nat nat               \<comment> \<open>dq->dq_items_head = next\<close>
  | Wk_wake nat wake_pc          \<comment> \<open>more items: ask for another worker\<close>
  | Wk_run nat                   \<comment> \<open>the item is returned and run\<close>

fun u_dispatch_queue_concurrent_drain_one :: "mpsc \<Rightarrow> pool \<Rightarrow> worker_pc \<Rightarrow> mpsc \<times> pool \<times> worker_pc" where
  "u_dispatch_queue_concurrent_drain_one q qc Wk_xchg =
     (q\<lparr>dq_items_head := Some mediator\<rparr>, qc,
      case dq_items_head q of
        None \<Rightarrow> Wk_undo
      | Some h \<Rightarrow> if h = mediator then Wk_lost Wake_test else Wk_next h)"
| "u_dispatch_queue_concurrent_drain_one q qc Wk_undo =
     (if dq_items_head q = Some mediator then q\<lparr>dq_items_head := None\<rparr> else q, qc, Wk_none)"
| "u_dispatch_queue_concurrent_drain_one q qc (Wk_lost pc) =
     (case u_dispatch_queue_wakeup_global q qc pc of
        (qc', pc') \<Rightarrow> (q, qc', if pc' = Wake_out then Wk_none else Wk_lost pc'))"
| "u_dispatch_queue_concurrent_drain_one q qc (Wk_next h) =
     (q, qc, case do_nexts q h of Some n \<Rightarrow> Wk_set h n | None \<Rightarrow> Wk_null h)"
| "u_dispatch_queue_concurrent_drain_one q qc (Wk_null h) = (q\<lparr>dq_items_head := None\<rparr>, qc, Wk_cas h)"
| "u_dispatch_queue_concurrent_drain_one q qc (Wk_cas h) =
     (if dq_items_tail q = Some h then (q\<lparr>dq_items_tail := None\<rparr>, qc, Wk_run h) else (q, qc, Wk_spin h))"
| "u_dispatch_queue_concurrent_drain_one q qc (Wk_spin h) =
     (q, qc, case do_nexts q h of Some n \<Rightarrow> Wk_set h n | None \<Rightarrow> Wk_spin h)"
| "u_dispatch_queue_concurrent_drain_one q qc (Wk_set h n) =
     (q\<lparr>dq_items_head := Some n\<rparr>, qc, Wk_wake h Wake_test)"
| "u_dispatch_queue_concurrent_drain_one q qc (Wk_wake h pc) =
     (case u_dispatch_queue_wakeup_global q qc pc of
        (qc', pc') \<Rightarrow> (q, qc', if pc' = Wake_out then Wk_run h else Wk_wake h pc'))"
| "u_dispatch_queue_concurrent_drain_one q qc pc = (q, qc, pc)"

fun u_dispatch_worker_thread2 :: "mpsc \<Rightarrow> pool \<Rightarrow> worker_pc \<Rightarrow> mpsc \<times> pool \<times> worker_pc" where
  "u_dispatch_worker_thread2 q qc Wk_none = (q, qc, Wk_none)"
| "u_dispatch_worker_thread2 q qc Wk_start = (q, qc\<lparr>dgq_pending := 0\<rparr>, Wk_xchg)"
| "u_dispatch_worker_thread2 q qc (Wk_run h) = (q, qc, Wk_xchg)"
| "u_dispatch_worker_thread2 q qc pc = u_dispatch_queue_concurrent_drain_one q qc pc"

section \<open>Threads on one root queue\<close>

text \<open>
  \<open>rt_items\<close>, \<open>rt_pushed\<close>, \<open>rt_taken\<close> and \<open>rt_done\<close> are not read by the code: the abstract queue, what
  was pushed and taken in which order, and what was run.
\<close>

record root =
  rt_q :: mpsc
  rt_pool :: pool
  rt_pushers :: "root_push_pc list"
  rt_workers :: "worker_pc list"
  rt_items :: "nat list"
  rt_pushed :: "nat list"
  rt_taken :: "nat list"
  rt_done :: "nat list"

fun root_new :: "root_push_pc \<Rightarrow> nat list" where
  "root_new (Root_push pc) = new_item pc"
| "root_new (Root_wake _) = []"

definition root_pusher :: "nat \<Rightarrow> root \<Rightarrow> root" where
  "root_pusher i s =
     (case root_push (rt_q s) (rt_pool s) (rt_pushers s ! i) of
        (q, qc, pc) \<Rightarrow> s\<lparr>rt_q := q, rt_pool := qc, rt_pushers := (rt_pushers s)[i := pc],
                         rt_items := rt_items s @ root_new (rt_pushers s ! i),
                         rt_pushed := rt_pushed s @ root_new (rt_pushers s ! i)\<rparr>)"

text \<open>A worker takes the item that it finds in the head; it has run it when it comes back.\<close>

fun takes :: "mpsc \<Rightarrow> worker_pc \<Rightarrow> nat list" where
  "takes q Wk_xchg =
     (case dq_items_head q of None \<Rightarrow> [] | Some h \<Rightarrow> if h = mediator then [] else [h])"
| "takes q _ = []"

fun runs :: "worker_pc \<Rightarrow> nat list" where
  "runs (Wk_run h) = [h]"
| "runs _ = []"

definition root_worker :: "nat \<Rightarrow> root \<Rightarrow> root" where
  "root_worker i s =
     (case u_dispatch_worker_thread2 (rt_q s) (rt_pool s) (rt_workers s ! i) of
        (q, qc, pc) \<Rightarrow>
          s\<lparr>rt_q := q, rt_pool := qc, rt_workers := (rt_workers s)[i := pc],
            rt_items := drop (length (takes (rt_q s) (rt_workers s ! i))) (rt_items s),
            rt_taken := rt_taken s @ takes (rt_q s) (rt_workers s ! i),
            rt_done := rt_done s @ runs (rt_workers s ! i)\<rparr>)"

fun root_node :: "root_push_pc \<Rightarrow> nat list" where
  "root_node (Root_push pc) = push_node pc"
| "root_node (Root_wake _) = []"

fun in_hand :: "worker_pc \<Rightarrow> nat list" where
  "in_hand (Wk_next h) = [h]"
| "in_hand (Wk_null h) = [h]"
| "in_hand (Wk_cas h) = [h]"
| "in_hand (Wk_spin h) = [h]"
| "in_hand (Wk_set h _) = [h]"
| "in_hand (Wk_wake h _) = [h]"
| "in_hand (Wk_run h) = [h]"
| "in_hand _ = []"

inductive root_step :: "root \<Rightarrow> root \<Rightarrow> bool" where
  root_call:
    "i < length (rt_pushers s) \<Longrightarrow> rt_pushers s ! i = Root_push Push_idle \<Longrightarrow> x \<noteq> mediator \<Longrightarrow>
     x \<notin> set (rt_items s) \<Longrightarrow> x \<notin> set (concat (map root_node (rt_pushers s))) \<Longrightarrow>
     x \<notin> set (concat (map in_hand (rt_workers s))) \<Longrightarrow>
     root_step s (s\<lparr>rt_pushers := (rt_pushers s)[i := Root_push (Push_xchg x)]\<rparr>)"
| root_pushes: "i < length (rt_pushers s) \<Longrightarrow> root_step s (root_pusher i s)"
| root_spawn:
    "i < length (rt_workers s) \<Longrightarrow> rt_workers s ! i = Wk_none \<Longrightarrow> kworkqueue (rt_pool s) = Suc n \<Longrightarrow>
     root_step s (s\<lparr>rt_pool := (rt_pool s)\<lparr>kworkqueue := n\<rparr>, rt_workers := (rt_workers s)[i := Wk_start]\<rparr>)"
| root_works: "i < length (rt_workers s) \<Longrightarrow> root_step s (root_worker i s)"

definition root_init :: "root \<Rightarrow> bool" where
  "root_init s =
     (dq_items_head (rt_q s) = None \<and> dq_items_tail (rt_q s) = None \<and>
      rt_pool s = \<lparr>dgq_pending = 0, kworkqueue = 0\<rparr> \<and>
      set (rt_pushers s) \<subseteq> {Root_push Push_idle} \<and> set (rt_workers s) \<subseteq> {Wk_none} \<and>
      rt_items s = [] \<and> rt_pushed s = [] \<and> rt_taken s = [] \<and> rt_done s = [])"

section \<open>The queue part of the invariant\<close>

text \<open>
  \<open>Q\<close> is the abstract queue and \<open>ow\<close> the item of the worker that owns the queue, if there is one.  The
  pointers describe \<open>ow @ Q\<close>.  Without an owner the head is the first item, or a pusher is about to
  write it; with an owner nobody writes the head but the owner and workers that pass by.
\<close>

definition no_head :: "nat option \<Rightarrow> bool" where
  "no_head h = (h = None \<or> h = Some mediator)"

fun free_head :: "nat option \<Rightarrow> nat set \<Rightarrow> nat list \<Rightarrow> bool" where
  "free_head h hs [] = (no_head h \<and> hs = {})"
| "free_head h hs (x # _) = ((h = Some x \<and> hs = {}) \<or> (no_head h \<and> hs = {x}))"

definition root_ok :: "mpsc \<Rightarrow> (nat \<times> nat) set \<Rightarrow> nat set \<Rightarrow> nat list \<Rightarrow> nat list \<Rightarrow> bool" where
  "root_ok m L hs ow Q =
     (base_ok m L (ow @ Q) \<and> distinct (ow @ Q) \<and> mediator \<notin> set (ow @ Q) \<and> length ow \<le> 1 \<and>
      (if ow = [] then free_head (dq_items_head m) hs Q else no_head (dq_items_head m) \<and> hs = {}))"

lemma no_head_simps [simp]: "no_head None" "no_head (Some mediator)" "x \<noteq> mediator \<Longrightarrow> \<not> no_head (Some x)"
  by (simp_all add: no_head_def)

lemma root_ok_xchg:
  assumes "root_ok m L hs ow Q" "x \<notin> set (ow @ Q)" "x \<noteq> mediator"
  shows "root_ok (m\<lparr>do_nexts := (do_nexts m)(x := None), dq_items_tail := Some x\<rparr>)
           (new_links (dq_items_tail m) x \<union> L) (new_heads (dq_items_tail m) x \<union> hs) ow (Q @ [x])"
proof -
  have b: "base_ok m L (ow @ Q)" "distinct (ow @ Q)"
    using assms by (simp_all add: root_ok_def)
  have "base_ok (m\<lparr>do_nexts := (do_nexts m)(x := None), dq_items_tail := Some x\<rparr>)
      (new_links (dq_items_tail m) x \<union> L) (ow @ Q @ [x])"
    using xchg_base [OF b(1) assms(2)] by simp
  moreover have "dq_items_tail m = None \<longleftrightarrow> ow @ Q = []"
    using b by (auto simp: base_ok_def tail_ok_def)
  ultimately show ?thesis
    using assms by (cases Q) (auto simp: root_ok_def new_heads_def split: option.splits)
qed

lemma root_ok_link:
  "root_ok m L hs ow Q \<Longrightarrow> (p, x) \<in> L \<Longrightarrow>
   root_ok (m\<lparr>do_nexts := (do_nexts m)(p := Some x)\<rparr>) (L - {(p, x)}) hs ow Q"
  by (auto simp: root_ok_def intro!: link_base)

lemma root_ok_head:
  "root_ok m L hs ow Q \<Longrightarrow> x \<in> hs \<Longrightarrow> root_ok (m\<lparr>dq_items_head := Some x\<rparr>) L (hs - {x}) ow Q"
  by (cases Q) (auto simp: root_ok_def base_ok_def split: if_splits)

lemma root_ok_pass:
  "root_ok m L hs ow Q \<Longrightarrow> no_head (dq_items_head m) \<Longrightarrow> no_head h \<Longrightarrow> root_ok (m\<lparr>dq_items_head := h\<rparr>) L hs ow Q"
  by (cases Q) (auto simp: root_ok_def base_ok_def no_head_def split: if_splits)

lemma root_ok_take:
  assumes "root_ok m L hs [] Q" "dq_items_head m = Some x" "x \<noteq> mediator"
  shows "Q \<noteq> [] \<and> hd Q = x \<and> root_ok (m\<lparr>dq_items_head := Some mediator\<rparr>) L hs [x] (tl Q)"
  using assms by (cases Q) (auto simp: root_ok_def base_ok_def)

lemma root_ok_no_owner:
  "root_ok m L hs ow Q \<Longrightarrow> dq_items_head m = Some x \<Longrightarrow> x \<noteq> mediator \<Longrightarrow> ow = []"
  by (auto simp: root_ok_def no_head_def split: if_splits)

lemma root_ok_cas:
  assumes "root_ok m L hs [h] Q" "dq_items_tail m = Some h"
  shows "Q = [] \<and> root_ok (m\<lparr>dq_items_tail := None\<rparr>) L hs [] []"
proof -
  have "Q = []"
    using assms by (cases Q rule: rev_cases) (auto simp: root_ok_def base_ok_def tail_ok_def)
  then show ?thesis
    using assms by (simp add: root_ok_def base_ok_def tail_ok_def)
qed

lemma root_ok_set:
  assumes "root_ok m L hs [h] (n # r)" "do_nexts m h = Some n"
  shows "root_ok (m\<lparr>dq_items_head := Some n\<rparr>) L hs [] (n # r)"
  using assms by (auto simp: root_ok_def base_ok_def tail_ok_def split: if_splits)

lemma root_ok_next:
  assumes "root_ok m L hs [h] Q" "do_nexts m h = Some n"
  shows "\<exists>r. Q = n # r"
  using assms by (cases Q) (auto simp: root_ok_def base_ok_def split: if_splits)

section \<open>Invariant of the system\<close>

fun push_part :: "root_push_pc \<Rightarrow> push_pc" where
  "push_part (Root_push pc) = pc"
| "push_part (Root_wake _) = Push_idle"

fun owner_of :: "worker_pc \<Rightarrow> nat list" where
  "owner_of (Wk_next h) = [h]"
| "owner_of (Wk_null h) = [h]"
| "owner_of (Wk_cas h) = [h]"
| "owner_of (Wk_spin h) = [h]"
| "owner_of (Wk_set h _) = [h]"
| "owner_of _ = []"

fun wk_ok :: "mpsc \<Rightarrow> nat list \<Rightarrow> worker_pc \<Rightarrow> bool" where
  "wk_ok m Q (Wk_set h n) = (do_nexts m h = Some n \<and> Q \<noteq> [] \<and> hd Q = n)"
| "wk_ok m Q (Wk_spin h) = (Q \<noteq> [])"
| "wk_ok m Q _ = True"

definition owners :: "worker_pc list \<Rightarrow> nat list" where
  "owners ws = concat (map owner_of ws)"

definition parts :: "root_push_pc list \<Rightarrow> push_pc list" where
  "parts ps = map push_part ps"

lemma owners_simps [simp]: "owners [] = []" "owners (w # ws) = owner_of w @ owners ws"
  "owners (ws @ vs) = owners ws @ owners vs"
  by (simp_all add: owners_def)

lemma parts_simps [simp]: "parts [] = []" "parts (p # ps) = push_part p # parts ps"
  "parts (ps @ qs) = parts ps @ parts qs"
  by (simp_all add: parts_def)

definition root_inv :: "root \<Rightarrow> bool" where
  "root_inv s =
     (let ps = parts (rt_pushers s); ow = owners (rt_workers s) in
      rt_pushed s = rt_taken s @ rt_items s \<and>
      distinct (nodes ps) \<and> mediator \<notin> set (nodes ps) \<and> fresh ps \<inter> set (ow @ rt_items s) = {} \<and>
      root_ok (rt_q s) (links ps) (heads ps) ow (rt_items s) \<and>
      list_all (wk_ok (rt_q s) (rt_items s)) (rt_workers s))"

lemma wk_ok_free: "owner_of pc = [] \<Longrightarrow> wk_ok m Q pc"
  by (cases pc) auto

lemma wk_ok_all_free: "owners ws = [] \<Longrightarrow> list_all (wk_ok m Q) ws"
  by (induction ws) (auto simp: wk_ok_free)

lemma wk_ok_cong: "do_nexts m' = do_nexts m \<Longrightarrow> wk_ok m' = wk_ok m"
proof (intro ext)
  show "do_nexts m' = do_nexts m \<Longrightarrow> wk_ok m' Q pc = wk_ok m Q pc" for Q pc
    by (cases pc) auto
qed

lemma wk_ok_upd [simp]:
  "wk_ok (m\<lparr>dq_items_head := h\<rparr>) = wk_ok m" "wk_ok (m\<lparr>dq_items_tail := t\<rparr>) = wk_ok m"
  by (rule wk_ok_cong, simp)+

lemma root_ok_single: "root_ok m L hs ow Q \<Longrightarrow> h \<in> set ow \<Longrightarrow> ow = [h]"
  by (cases ow) (auto simp: root_ok_def)

lemma wk_ok_xchg:
  assumes "wk_ok m Q pc" "set (owner_of pc) \<subseteq> set ow" "x \<notin> set (ow @ Q)"
  shows "wk_ok (m\<lparr>do_nexts := (do_nexts m)(x := None), dq_items_tail := Some x\<rparr>) (Q @ [x]) pc"
  using assms by (cases pc) auto

lemma wk_ok_link:
  assumes "wk_ok m Q pc" "set (owner_of pc) \<subseteq> set ow" "root_ok m L hs ow Q" "(p, x) \<in> L"
  shows "wk_ok (m\<lparr>do_nexts := (do_nexts m)(p := Some x)\<rparr>) Q pc"
proof (cases pc)
  case (Wk_set h n)
  then obtain r where Q: "Q = n # r" and ow: "ow = [h]"
    using assms root_ok_single [OF assms(3), of h] by (cases Q) auto
  have "p \<noteq> h"
    using link_done [of m L h n r x] assms Wk_set Q ow by (auto simp: root_ok_def)
  then show ?thesis
    using assms(1) Wk_set by simp
qed (use assms in auto)

lemma wk_all_xchg:
  assumes "list_all (wk_ok m Q) ws" "x \<notin> set (owners ws @ Q)"
  shows "list_all (wk_ok (m\<lparr>do_nexts := (do_nexts m)(x := None), dq_items_tail := Some x\<rparr>) (Q @ [x])) ws"
  using assms wk_ok_xchg [of m Q _ "owners ws" x] by (auto simp: list_all_iff owners_def)

lemma wk_all_link:
  assumes "list_all (wk_ok m Q) ws" "root_ok m L hs (owners ws) Q" "(p, x) \<in> L"
  shows "list_all (wk_ok (m\<lparr>do_nexts := (do_nexts m)(p := Some x)\<rparr>) Q) ws"
  using assms wk_ok_link [of m Q _ "owners ws" L hs p x] by (auto simp: list_all_iff owners_def)

lemma root_pusher_split:
  assumes "i < length (rt_pushers s)"
  obtains as pc bs where "rt_pushers s = as @ pc # bs" "length as = i"
    "\<And>q qc pc'. root_push (rt_q s) (rt_pool s) pc = (q, qc, pc') \<Longrightarrow> root_pusher i s =
       s\<lparr>rt_q := q, rt_pool := qc, rt_pushers := as @ pc' # bs, rt_items := rt_items s @ root_new pc,
         rt_pushed := rt_pushed s @ root_new pc\<rparr>"
proof -
  have "rt_pushers s = take i (rt_pushers s) @ rt_pushers s ! i # drop (Suc i) (rt_pushers s)"
    using assms by (rule id_take_nth_drop)
  then show ?thesis
    using that [of "take i (rt_pushers s)" "rt_pushers s ! i" "drop (Suc i) (rt_pushers s)"] assms
    by (simp add: root_pusher_def upd_conv_take_nth_drop)
qed

lemma root_inv_xchg:
  assumes inv: "root_inv s" and ps: "rt_pushers s = as @ Root_push (Push_xchg x) # bs"
    and t: "rt_q t = (rt_q s)\<lparr>do_nexts := (do_nexts (rt_q s))(x := None), dq_items_tail := Some x\<rparr>"
      "rt_pushers t = as @ Root_push (case dq_items_tail (rt_q s) of Some p \<Rightarrow> Push_link p x | None \<Rightarrow> Push_head x) # bs"
      "rt_items t = rt_items s @ [x]" "rt_pushed t = rt_pushed s @ [x]" "rt_taken t = rt_taken s"
      "rt_workers t = rt_workers s"
  shows "root_inv t"
proof -
  let ?ps = "parts (rt_pushers s)" and ?pt = "parts (rt_pushers t)" and ?ow = "owners (rt_workers s)"
  have x: "x \<notin> set (?ow @ rt_items s)" "x \<notin> set (nodes (parts as))" "x \<notin> set (nodes (parts bs))" "x \<noteq> mediator"
    using inv ps by (auto simp: root_inv_def Let_def)
  then have fresh: "fresh ?pt \<inter> set (?ow @ rt_items t) = {}"
    using inv ps fresh_nodes [of x "parts as"] fresh_nodes [of x "parts bs"]
    by (auto simp: root_inv_def Let_def t split: option.splits)
  have "links ?pt = new_links (dq_items_tail (rt_q s)) x \<union> links ?ps"
    "heads ?pt = new_heads (dq_items_tail (rt_q s)) x \<union> heads ?ps" "nodes ?pt = nodes ?ps"
    by (auto simp: ps t new_links_def new_heads_def split: option.splits)
  then show ?thesis
    using inv x fresh root_ok_xchg [of "rt_q s" "links ?ps" "heads ?ps" ?ow "rt_items s" x]
      wk_all_xchg [of "rt_q s" "rt_items s" "rt_workers s" x]
    by (simp add: root_inv_def Let_def t)
qed

lemma root_inv_push:
  assumes inv: "root_inv s" and i: "i < length (rt_pushers s)"
  shows "root_inv (root_pusher i s)"
  using i
proof (rule root_pusher_split)
  fix as pc bs
  assume ps: "rt_pushers s = as @ pc # bs"
    and push: "\<And>q qc pc'. root_push (rt_q s) (rt_pool s) pc = (q, qc, pc') \<Longrightarrow> root_pusher i s =
       s\<lparr>rt_q := q, rt_pool := qc, rt_pushers := as @ pc' # bs, rt_items := rt_items s @ root_new pc,
         rt_pushed := rt_pushed s @ root_new pc\<rparr>"
  let ?ps = "parts (rt_pushers s)" and ?ow = "owners (rt_workers s)"
  show ?thesis
  proof (cases pc)
    case (Root_wake w)
    obtain qc w' where "u_dispatch_queue_wakeup_global (rt_q s) (rt_pool s) w = (qc, w')"
      by fastforce
    then show ?thesis
      using inv ps Root_wake by (simp add: push root_inv_def Let_def)
  next
    case (Root_push p)
    show ?thesis
    proof (cases p)
      case Push_idle
      then show ?thesis
        using inv ps Root_push by (simp add: push root_inv_def Let_def)
    next
      case (Push_xchg x)
      then show ?thesis
        using ps Root_push by (intro root_inv_xchg [OF inv]) (auto simp: push)
    next
      case (Push_link y x)
      then have "(y, x) \<notin> links (parts as) \<union> links (parts bs)"
        using inv ps Root_push links_nodes [of y x "parts as"] links_nodes [of y x "parts bs"]
        by (auto simp: root_inv_def Let_def)
      then show ?thesis
        using inv ps Root_push Push_link root_ok_link [of "rt_q s" "links ?ps" "heads ?ps" ?ow "rt_items s" y x]
          wk_all_link [of "rt_q s" "rt_items s" "rt_workers s" "links ?ps" "heads ?ps" y x]
        by (simp add: push root_inv_def Let_def)
    next
      case (Push_head x)
      then have "x \<notin> heads (parts as) \<union> heads (parts bs)"
        using inv ps Root_push heads_nodes [of x "parts as"] heads_nodes [of x "parts bs"]
        by (auto simp: root_inv_def Let_def)
      then show ?thesis
        using inv ps Root_push Push_head root_ok_head [of "rt_q s" "links ?ps" "heads ?ps" ?ow "rt_items s" x]
        by (simp add: push root_inv_def Let_def)
    qed
  qed
qed

lemma root_worker_split:
  assumes "i < length (rt_workers s)"
  obtains as pc bs where "rt_workers s = as @ pc # bs" "length as = i"
    "\<And>q qc pc'. u_dispatch_worker_thread2 (rt_q s) (rt_pool s) pc = (q, qc, pc') \<Longrightarrow> root_worker i s =
       s\<lparr>rt_q := q, rt_pool := qc, rt_workers := as @ pc' # bs,
         rt_items := drop (length (takes (rt_q s) pc)) (rt_items s),
         rt_taken := rt_taken s @ takes (rt_q s) pc, rt_done := rt_done s @ runs pc\<rparr>"
proof -
  have "rt_workers s = take i (rt_workers s) @ rt_workers s ! i # drop (Suc i) (rt_workers s)"
    using assms by (rule id_take_nth_drop)
  then show ?thesis
    using that [of "take i (rt_workers s)" "rt_workers s ! i" "drop (Suc i) (rt_workers s)"] assms
    by (simp add: root_worker_def upd_conv_take_nth_drop)
qed

text \<open>A worker action that changes neither the queue nor the links.\<close>

lemma root_inv_worker_quiet:
  assumes "root_inv s" "rt_workers s = as @ pc # bs" "rt_workers t = as @ pc' # bs"
    and "owner_of pc' = owner_of pc" "wk_ok (rt_q s) (rt_items s) pc'"
    and "do_nexts (rt_q t) = do_nexts (rt_q s)" "dq_items_tail (rt_q t) = dq_items_tail (rt_q s)"
    and "dq_items_head (rt_q t) = dq_items_head (rt_q s) \<or>
         (no_head (dq_items_head (rt_q s)) \<and> no_head (dq_items_head (rt_q t)))"
    and "rt_items t = rt_items s" "rt_taken t = rt_taken s" "rt_pushed t = rt_pushed s" "rt_pushers t = rt_pushers s"
  shows "root_inv t"
proof -
  have q: "rt_q t = (rt_q s)\<lparr>dq_items_head := dq_items_head (rt_q t)\<rparr>"
    using assms(6,7) by simp
  have "root_ok (rt_q t) L hs ow Q" if "root_ok (rt_q s) L hs ow Q" for L hs ow Q
    using assms(8) root_ok_pass [OF that, of "dq_items_head (rt_q t)"] that by (subst q) auto
  then show ?thesis
    using assms wk_ok_cong [OF assms(6)] by (simp add: root_inv_def Let_def)
qed

text \<open>The three actions by which the queue changes hands.\<close>

lemma root_inv_take:
  assumes inv: "root_inv s" and ws: "rt_workers s = as @ Wk_xchg # bs"
    and h: "dq_items_head (rt_q s) = Some h" "h \<noteq> mediator"
    and t: "rt_q t = (rt_q s)\<lparr>dq_items_head := Some mediator\<rparr>" "rt_workers t = as @ Wk_next h # bs"
      "rt_items t = drop 1 (rt_items s)" "rt_taken t = rt_taken s @ [h]" "rt_pushed t = rt_pushed s"
      "rt_pushers t = rt_pushers s"
  shows "root_inv t"
proof -
  let ?ps = "parts (rt_pushers s)"
  have ok: "root_ok (rt_q s) (links ?ps) (heads ?ps) (owners (rt_workers s)) (rt_items s)"
    using inv by (simp add: root_inv_def Let_def)
  have none: "owners as = []" "owners bs = []"
    using root_ok_no_owner [OF ok h] ws by auto
  then obtain r where Q: "rt_items s = h # r"
      "root_ok ((rt_q s)\<lparr>dq_items_head := Some mediator\<rparr>) (links ?ps) (heads ?ps) [h] r"
    using root_ok_take [of "rt_q s" "links ?ps" "heads ?ps" "rt_items s" h] ok ws h by (cases "rt_items s") auto
  show ?thesis
    using inv none Q ws by (auto simp: root_inv_def Let_def t wk_ok_all_free)
qed

lemma root_inv_empty:
  assumes inv: "root_inv s" and ws: "rt_workers s = as @ Wk_cas h # bs" and h: "dq_items_tail (rt_q s) = Some h"
    and t: "rt_q t = (rt_q s)\<lparr>dq_items_tail := None\<rparr>" "rt_workers t = as @ Wk_run h # bs"
      "rt_items t = rt_items s" "rt_taken t = rt_taken s" "rt_pushed t = rt_pushed s" "rt_pushers t = rt_pushers s"
  shows "root_inv t"
proof -
  let ?ps = "parts (rt_pushers s)"
  have ok: "root_ok (rt_q s) (links ?ps) (heads ?ps) (owners (rt_workers s)) (rt_items s)"
    using inv by (simp add: root_inv_def Let_def)
  have one: "owners (rt_workers s) = [h]"
    using root_ok_single [OF ok, of h] ws by auto
  then have none: "owners as = []" "owners bs = []"
    using ws by (auto simp: append_eq_Cons_conv)
  show ?thesis
    using inv none root_ok_cas [of "rt_q s" "links ?ps" "heads ?ps" h "rt_items s"] ok one h
    by (simp add: root_inv_def Let_def t wk_ok_all_free)
qed

lemma root_inv_pass_on:
  assumes inv: "root_inv s" and ws: "rt_workers s = as @ Wk_set h n # bs"
    and t: "rt_q t = (rt_q s)\<lparr>dq_items_head := Some n\<rparr>" "rt_workers t = as @ Wk_wake h Wake_test # bs"
      "rt_items t = rt_items s" "rt_taken t = rt_taken s" "rt_pushed t = rt_pushed s" "rt_pushers t = rt_pushers s"
  shows "root_inv t"
proof -
  let ?ps = "parts (rt_pushers s)"
  have ok: "root_ok (rt_q s) (links ?ps) (heads ?ps) (owners (rt_workers s)) (rt_items s)"
    and set: "do_nexts (rt_q s) h = Some n" "rt_items s \<noteq> []" "hd (rt_items s) = n"
    using inv ws by (simp_all add: root_inv_def Let_def)
  have one: "owners (rt_workers s) = [h]"
    using root_ok_single [OF ok, of h] ws by auto
  then have none: "owners as = []" "owners bs = []"
    using ws by (auto simp: append_eq_Cons_conv)
  obtain r where Q: "rt_items s = n # r"
    using set by (cases "rt_items s") auto
  show ?thesis
    using inv none root_ok_set [of "rt_q s" "links ?ps" "heads ?ps" h n r] ok one set Q
    by (auto simp: root_inv_def Let_def t wk_ok_all_free)
qed

lemma root_inv_work:
  assumes inv: "root_inv s" and i: "i < length (rt_workers s)"
  shows "root_inv (root_worker i s)"
  using i
proof (rule root_worker_split)
  fix as pc bs
  assume ws: "rt_workers s = as @ pc # bs"
    and work: "\<And>q qc pc'. u_dispatch_worker_thread2 (rt_q s) (rt_pool s) pc = (q, qc, pc') \<Longrightarrow> root_worker i s =
       s\<lparr>rt_q := q, rt_pool := qc, rt_workers := as @ pc' # bs,
         rt_items := drop (length (takes (rt_q s) pc)) (rt_items s),
         rt_taken := rt_taken s @ takes (rt_q s) pc, rt_done := rt_done s @ runs pc\<rparr>"
  let ?ps = "parts (rt_pushers s)"
  note quiet = root_inv_worker_quiet [OF inv ws]
  have ok: "root_ok (rt_q s) (links ?ps) (heads ?ps) (owners (rt_workers s)) (rt_items s)"
    "wk_ok (rt_q s) (rt_items s) pc"
    using inv ws by (simp_all add: root_inv_def Let_def)
  have own: "root_ok (rt_q s) (links ?ps) (heads ?ps) [h] (rt_items s)" if "owner_of pc = [h]" for h
    using root_ok_single [OF ok(1), of h] ok(1) ws that by auto
  have nohead: "no_head (dq_items_head (rt_q s))" if "owner_of pc = [h]" for h
    using own [OF that] by (simp add: root_ok_def)
  show ?thesis
  proof (cases pc)
    case Wk_xchg
    then show ?thesis
      by (cases "no_head (dq_items_head (rt_q s))")
        (auto simp: work no_head_def ws intro: quiet [OF _ _ _ _ _ disjI2] root_inv_take [OF inv, of as bs])
  next
    case (Wk_cas h)
    have "rt_items s \<noteq> []" if "dq_items_tail (rt_q s) \<noteq> Some h"
      using that own [of h] Wk_cas by (auto simp: root_ok_def base_ok_def tail_ok_def)
    then show ?thesis
      using ws Wk_cas
      by (cases "dq_items_tail (rt_q s) = Some h")
        (auto simp: work intro: quiet root_inv_empty [OF inv, of as h bs])
  next
    case (Wk_set h n)
    then show ?thesis
      using ws by (auto simp: work intro: root_inv_pass_on [OF inv, of as h n bs])
  next
    case (Wk_next h)
    then show ?thesis
      using own [of h] root_ok_next [of "rt_q s" "links ?ps" "heads ?ps" h "rt_items s"]
      by (cases "do_nexts (rt_q s) h") (auto simp: work intro: quiet)
  next
    case (Wk_spin h)
    then show ?thesis
      using own [of h] root_ok_next [of "rt_q s" "links ?ps" "heads ?ps" h "rt_items s"] ok(2)
      by (cases "do_nexts (rt_q s) h") (auto simp: work intro: quiet)
  next
    case (Wk_null h)
    then show ?thesis
      using nohead [of h] by (auto simp: work intro: quiet)
  next
    case (Wk_lost w)
    obtain qc w' where "u_dispatch_queue_wakeup_global (rt_q s) (rt_pool s) w = (qc, w')"
      by fastforce
    then show ?thesis
      using Wk_lost by (auto simp: work intro: quiet)
  next
    case (Wk_wake h w)
    obtain qc w' where "u_dispatch_queue_wakeup_global (rt_q s) (rt_pool s) w = (qc, w')"
      by fastforce
    then show ?thesis
      using Wk_wake by (auto simp: work intro: quiet)
  qed (auto simp: work intro: quiet)
qed

lemma root_inv_init:
  assumes "root_init s"
  shows "root_inv s"
proof -
  have "set ps \<subseteq> {Root_push Push_idle} \<Longrightarrow>
      nodes (parts ps) = [] \<and> links (parts ps) = {} \<and> heads (parts ps) = {} \<and> fresh (parts ps) = {}" for ps
    by (induction ps) auto
  moreover have "set ws \<subseteq> {Wk_none} \<Longrightarrow> owners ws = []" for ws
    by (induction ws) auto
  ultimately show ?thesis
    using assms by (simp add: root_init_def root_inv_def Let_def root_ok_def base_ok_def tail_ok_def wk_ok_all_free)
qed

lemma in_hand_owners: "x \<in> set (owners ws) \<Longrightarrow> x \<in> set (concat (map in_hand ws))"
proof (induction ws)
  case (Cons w ws)
  then show ?case by (cases w) auto
qed simp

lemma nodes_parts: "set (nodes (parts ps)) = set (concat (map root_node ps))"
proof (induction ps)
  case (Cons p ps)
  then show ?case by (cases p) auto
qed simp

lemma root_inv_call:
  assumes inv: "root_inv s" and i: "i < length (rt_pushers s)" "rt_pushers s ! i = Root_push Push_idle"
    and x: "x \<noteq> mediator" "x \<notin> set (rt_items s)" "x \<notin> set (nodes (parts (rt_pushers s)))"
      "x \<notin> set (owners (rt_workers s))"
  shows "root_inv (s\<lparr>rt_pushers := (rt_pushers s)[i := Root_push (Push_xchg x)]\<rparr>)"
proof -
  obtain as bs where "rt_pushers s = as @ Root_push Push_idle # bs" "length as = i"
    using id_take_nth_drop [OF i(1)] i by (metis length_take min.strict_order_iff min.commute)
  then show ?thesis
    using inv x by (auto simp: root_inv_def Let_def list_update_append)
qed

lemma root_inv_spawn:
  assumes inv: "root_inv s" and i: "i < length (rt_workers s)" "rt_workers s ! i = Wk_none"
  shows "root_inv (s\<lparr>rt_pool := qc, rt_workers := (rt_workers s)[i := Wk_start]\<rparr>)"
proof -
  obtain as bs where "rt_workers s = as @ Wk_none # bs" "length as = i"
    using id_take_nth_drop [OF i(1)] i by (metis length_take min.strict_order_iff min.commute)
  then show ?thesis
    using inv by (auto simp: root_inv_def Let_def list_update_append)
qed

lemma root_inv_step:
  assumes "root_inv s" "root_step s t"
  shows "root_inv t"
  using assms(2)
proof cases
  case (root_call i x)
  then show ?thesis
    using root_inv_call [OF assms(1)] in_hand_owners nodes_parts by metis
qed (use assms(1) root_inv_push root_inv_work root_inv_spawn in auto)

section \<open>No work is lost\<close>

text \<open>
  Who sees to it that a non-empty queue gets a worker: a request in the pool, a thread that is about
  to make one, a worker that is about to look at the queue, or the owner, which makes a request if
  it leaves items behind.
\<close>

fun wakes :: "wake_pc \<Rightarrow> int" where
  "wakes Wake_out = 0"
| "wakes _ = 1"

fun adds :: "wake_pc \<Rightarrow> int" where
  "adds Wake_additem = 1"
| "adds _ = 0"

fun push_carries :: "root_push_pc \<Rightarrow> int" where
  "push_carries (Root_push (Push_head _)) = 1"
| "push_carries (Root_push _) = 0"
| "push_carries (Root_wake w) = wakes w"

fun push_adds :: "root_push_pc \<Rightarrow> int" where
  "push_adds (Root_push _) = 0"
| "push_adds (Root_wake w) = adds w"

fun work_carries :: "worker_pc \<Rightarrow> int" where
  "work_carries Wk_none = 0"
| "work_carries Wk_undo = 0"
| "work_carries (Wk_lost w) = wakes w"
| "work_carries _ = 1"

fun work_adds :: "worker_pc \<Rightarrow> int" where
  "work_adds Wk_start = 1"
| "work_adds (Wk_lost w) = adds w"
| "work_adds (Wk_wake _ w) = adds w"
| "work_adds _ = 0"

definition pool_inv :: "root \<Rightarrow> bool" where
  "pool_inv s =
     (let k = int (kworkqueue (rt_pool s));
          adds = k + tsum push_adds (rt_pushers s) + tsum work_adds (rt_workers s);
          carriers = k + tsum push_carries (rt_pushers s) + tsum work_carries (rt_workers s) in
      (dgq_pending (rt_pool s) = 0 \<or> 1 \<le> adds) \<and> (rt_items s \<noteq> [] \<longrightarrow> 1 \<le> carriers))"

lemma root_counts [simp]:
  "0 \<le> adds w" "adds w \<le> wakes w" "wakes w \<le> 1" "0 \<le> wakes w"
  by (cases w; simp)+

lemma root_counts2 [simp]:
  "0 \<le> push_adds p" "push_adds p \<le> push_carries p" "0 \<le> push_carries p"
  "0 \<le> work_adds w" "work_adds w \<le> work_carries w" "0 \<le> work_carries w"
proof -
  show "0 \<le> push_adds p" "push_adds p \<le> push_carries p" "0 \<le> push_carries p"
    by (cases p rule: push_carries.cases; simp)+
  have "adds v \<le> 1" for v
    by (rule order_trans [OF root_counts(2,3)])
  then show "0 \<le> work_adds w" "work_adds w \<le> work_carries w" "0 \<le> work_carries w"
    by (cases w; simp)+
qed

definition owns :: "worker_pc \<Rightarrow> int" where
  "owns pc = (if owner_of pc = [] then 0 else 1)"

lemma owns_carries: "owns w \<le> work_carries w"
  by (cases w) (auto simp: owns_def)

lemma owners_own: "owners ws \<noteq> [] \<Longrightarrow> 1 \<le> tsum owns ws"
proof (induction ws)
  case (Cons w ws)
  have "0 \<le> tsum owns ws"
    by (rule tsum_nonneg) (simp add: owns_def)
  then show ?case
    using Cons by (auto simp: owns_def [of w])
qed simp

lemma owners_carry: "owners ws \<noteq> [] \<Longrightarrow> 1 \<le> tsum work_carries ws"
  using owners_own [of ws] tsum_mono [of ws owns work_carries] owns_carries by auto

lemma heads_carry: "heads (parts ps) \<noteq> {} \<Longrightarrow> 1 \<le> tsum push_carries ps"
proof (induction ps)
  case (Cons p ps)
  have "0 \<le> tsum push_carries ps"
    by (rule tsum_nonneg) simp
  then show ?case
    using Cons by (cases p rule: push_carries.cases) (auto intro: add_increasing)
qed simp

text \<open>A step of \<open>_dispatch_queue_wakeup_global\<close>, with what the other threads add (\<open>A\<close>) and carry (\<open>C\<close>).\<close>

lemma wake_keeps:
  assumes "u_dispatch_queue_wakeup_global q qc w = (qc', w')"
    and "dgq_pending qc = 0 \<or> 1 \<le> int (kworkqueue qc) + A + adds w"
    and "ne \<Longrightarrow> 1 \<le> int (kworkqueue qc) + C + wakes w" "ne \<Longrightarrow> dq_items_tail q \<noteq> None" "0 \<le> A" "A \<le> C"
  shows "(dgq_pending qc' = 0 \<or> 1 \<le> int (kworkqueue qc') + A + adds w') \<and>
         (ne \<longrightarrow> 1 \<le> int (kworkqueue qc') + C + wakes w')"
  using assms by (cases w) (auto split: if_splits)

lemma root_tail_ne:
  assumes "root_inv s" "rt_items s \<noteq> []"
  shows "dq_items_tail (rt_q s) \<noteq> None"
  using assms by (auto simp: root_inv_def Let_def root_ok_def base_ok_def tail_ok_def)

lemma root_head_missing:
  assumes "root_inv s" "rt_items s \<noteq> []" "no_head (dq_items_head (rt_q s))"
  shows "1 \<le> tsum push_carries (rt_pushers s) \<or> owners (rt_workers s) \<noteq> []"
proof (cases "owners (rt_workers s) = []")
  case True
  obtain x r where Q: "rt_items s = x # r"
    using assms(2) by (cases "rt_items s") auto
  have "free_head (dq_items_head (rt_q s)) (heads (parts (rt_pushers s))) (x # r)" "x \<noteq> mediator"
    using assms(1) True Q by (auto simp: root_inv_def Let_def root_ok_def)
  then have "heads (parts (rt_pushers s)) \<noteq> {}"
    using assms(3) by (auto simp: no_head_def)
  then show ?thesis
    by (simp add: heads_carry)
qed simp

lemma pool_inv_push:
  assumes inv: "root_inv s" "pool_inv s" and i: "i < length (rt_pushers s)"
  shows "pool_inv (root_pusher i s)"
proof -
  let ?p = "rt_pushers s ! i"
  define A where "A = tsum push_adds (rt_pushers s) - push_adds ?p + tsum work_adds (rt_workers s)"
  define C where "C = tsum push_carries (rt_pushers s) - push_carries ?p + tsum work_carries (rt_workers s)"
  have "0 \<le> tsum work_adds (rt_workers s)" "tsum work_adds (rt_workers s) \<le> tsum work_carries (rt_workers s)"
    by (simp_all add: tsum_nonneg tsum_mono)
  then have AC: "0 \<le> A" "A \<le> C"
    using tsum_ge [OF i, of push_adds] tsum_mono_but [OF i, of push_adds push_carries]
    by (simp_all add: A_def C_def)
  show ?thesis
  proof (cases ?p)
    case (Root_wake w)
    obtain qc w' where w: "u_dispatch_queue_wakeup_global (rt_q s) (rt_pool s) w = (qc, w')"
      by fastforce
    show ?thesis
      using wake_keeps [OF w, of A "rt_items s \<noteq> []" C] AC inv(2) root_tail_ne [OF inv(1)] Root_wake w i
      by (auto simp: root_pusher_def pool_inv_def Let_def tsum_update A_def C_def algebra_simps split: if_splits)
  next
    case (Root_push p)
    have "owners (rt_workers s) \<noteq> []" if "rt_items s = []" "dq_items_tail (rt_q s) \<noteq> None"
      using that inv(1) by (auto simp: root_inv_def Let_def root_ok_def base_ok_def tail_ok_def)
    then have "1 \<le> C" if "rt_items s = []" "dq_items_tail (rt_q s) \<noteq> None"
      using that owners_carry [of "rt_workers s"] tsum_ge [OF i, of push_carries] by (simp add: C_def)
    moreover have "0 \<le> tsum push_carries (rt_pushers s)" "0 \<le> tsum work_carries (rt_workers s)"
      by (simp_all add: tsum_nonneg)
    ultimately show ?thesis
      using inv(2) i Root_push
      by (cases p) (auto simp: root_pusher_def pool_inv_def Let_def tsum_update C_def split: option.splits)
  qed
qed

text \<open>For a worker \<open>i\<close>: what all the others add to the pool and carry.\<close>

definition other_adds :: "root \<Rightarrow> nat \<Rightarrow> int" where
  "other_adds s i = tsum push_adds (rt_pushers s) + (tsum work_adds (rt_workers s) - work_adds (rt_workers s ! i))"

definition other_carries :: "root \<Rightarrow> nat \<Rightarrow> int" where
  "other_carries s i =
     tsum push_carries (rt_pushers s) + (tsum work_carries (rt_workers s) - work_carries (rt_workers s ! i))"

lemma others:
  assumes "i < length (rt_workers s)"
  shows "0 \<le> other_adds s i" "other_adds s i \<le> other_carries s i"
proof -
  have "0 \<le> tsum push_adds (rt_pushers s)" "tsum push_adds (rt_pushers s) \<le> tsum push_carries (rt_pushers s)"
    by (simp_all add: tsum_nonneg tsum_mono)
  then show "0 \<le> other_adds s i" "other_adds s i \<le> other_carries s i"
    using tsum_ge [OF assms, of work_adds] tsum_mono_but [OF assms, of work_adds work_carries]
    by (simp_all add: other_adds_def other_carries_def)
qed

definition keeps_pool :: "root \<Rightarrow> nat \<Rightarrow> pool \<Rightarrow> worker_pc \<Rightarrow> bool" where
  "keeps_pool s i qc pc =
     ((dgq_pending qc = 0 \<or> 1 \<le> int (kworkqueue qc) + other_adds s i + work_adds pc) \<and>
      (rt_items s \<noteq> [] \<longrightarrow> 1 \<le> int (kworkqueue qc) + other_carries s i + work_carries pc))"

lemma pool_inv_keeps: "pool_inv s \<Longrightarrow> keeps_pool s i (rt_pool s) (rt_workers s ! i)"
  by (auto simp: pool_inv_def Let_def keeps_pool_def other_adds_def other_carries_def)

lemma keeps_pool_inv:
  assumes "i < length (rt_workers s)" "u_dispatch_worker_thread2 (rt_q s) (rt_pool s) (rt_workers s ! i) = (q, qc, pc)"
    and "keeps_pool s i qc pc"
  shows "pool_inv (root_worker i s)"
  using assms
  by (cases "rt_items s = []")
    (auto simp: root_worker_def pool_inv_def keeps_pool_def Let_def tsum_update other_adds_def other_carries_def
      algebra_simps)

lemma keeps_pool_xchg:
  assumes inv: "root_inv s" and i: "i < length (rt_workers s)" "rt_workers s ! i = Wk_xchg"
    and "rt_items s \<noteq> []" "no_head (dq_items_head (rt_q s))"
  shows "1 \<le> other_carries s i"
  using root_head_missing [OF inv assms(4,5)] owners_own [of "rt_workers s"] i(2)
    tsum_mono_but [OF i(1), of owns work_carries] owns_carries tsum_ge [OF i(1), of work_carries]
    tsum_nonneg [of "rt_pushers s" push_carries]
  by (auto simp: other_carries_def owns_def [of Wk_xchg])

lemma keeps_pool_wake:
  assumes "root_inv s" "i < length (rt_workers s)" "keeps_pool s i (rt_pool s) pc"
    and w: "u_dispatch_queue_wakeup_global (rt_q s) (rt_pool s) w = (qc, w')"
  shows "pc = Wk_lost w \<Longrightarrow> keeps_pool s i qc (if w' = Wake_out then Wk_none else Wk_lost w')"
    and "pc = Wk_wake h w \<Longrightarrow> keeps_pool s i qc (if w' = Wake_out then Wk_run h else Wk_wake h w')"
  using wake_keeps [OF w, of "other_adds s i" "rt_items s \<noteq> []" "other_carries s i"]
    wake_keeps [OF w, of "other_adds s i" False "other_adds s i"]
    others [OF assms(2)] assms(1,3) root_tail_ne [OF assms(1)]
  by (auto simp: keeps_pool_def split: if_splits)

lemma pool_inv_work:
  assumes inv: "root_inv s" "pool_inv s" and i: "i < length (rt_workers s)"
  shows "pool_inv (root_worker i s)"
proof -
  obtain q qc pc where w: "u_dispatch_worker_thread2 (rt_q s) (rt_pool s) (rt_workers s ! i) = (q, qc, pc)"
    by (metis prod_cases3)
  note k = pool_inv_keeps [OF inv(2), of i] and o = others [OF i]
  have "keeps_pool s i qc pc"
  proof (cases "rt_workers s ! i")
    case Wk_xchg
    then show ?thesis
      using w k o keeps_pool_xchg [OF inv(1) i Wk_xchg]
      by (auto simp: keeps_pool_def split: option.splits if_splits)
  next
    case (Wk_lost x)
    then show ?thesis
      using w keeps_pool_wake(1) [OF inv(1) i k, of x] by (auto split: prod.splits)
  next
    case (Wk_wake h x)
    then show ?thesis
      using w keeps_pool_wake(2) [OF inv(1) i k, of x] by (auto split: prod.splits)
  next
    case (Wk_spin h)
    then show ?thesis
      using w k o by (cases "do_nexts (rt_q s) h") (auto simp: keeps_pool_def)
  qed (use w k o in \<open>auto simp: keeps_pool_def split: option.splits if_splits\<close>)
  then show ?thesis
    by (rule keeps_pool_inv [OF i w])
qed

lemma root_pool_inv_step:
  assumes "root_inv s" "pool_inv s" "root_step s t"
  shows "pool_inv t"
  using assms(3)
proof cases
  case (root_call i x)
  then show ?thesis
    using assms(2) by (auto simp: pool_inv_def Let_def tsum_update)
next
  case (root_spawn i n)
  then show ?thesis
    using assms(2) by (auto simp: pool_inv_def Let_def tsum_update)
qed (use assms pool_inv_push pool_inv_work in auto)

section \<open>Every item that is taken is run\<close>

definition hands :: "worker_pc list \<Rightarrow> nat multiset" where
  "hands ws = mset (concat (map in_hand ws))"

lemma hands_simps [simp]: "hands [] = {#}" "hands (w # ws) = mset (in_hand w) + hands ws"
  "hands (ws @ vs) = hands ws + hands vs"
  by (simp_all add: hands_def)

definition hands_inv :: "root \<Rightarrow> bool" where
  "hands_inv s = (mset (rt_taken s) = mset (rt_done s) + hands (rt_workers s))"

lemma worker_hands:
  assumes "u_dispatch_worker_thread2 q qc pc = (q', qc', pc')"
  shows "mset (in_hand pc) + mset (takes q pc) = mset (in_hand pc') + mset (runs pc)"
  using assms by (cases pc) (auto split: option.splits if_splits prod.splits)

lemma hands_inv_step:
  assumes "hands_inv s" "root_step s t"
  shows "hands_inv t"
  using assms(2)
proof cases
  case (root_pushes i)
  then show ?thesis
    using assms(1) by (auto simp: hands_inv_def root_pusher_def split: prod.splits)
next
  case (root_works i)
  from root_works(2) show ?thesis
  proof (rule root_worker_split)
    fix as pc bs
    assume ws: "rt_workers s = as @ pc # bs"
      and work: "\<And>q qc pc'. u_dispatch_worker_thread2 (rt_q s) (rt_pool s) pc = (q, qc, pc') \<Longrightarrow> root_worker i s =
         s\<lparr>rt_q := q, rt_pool := qc, rt_workers := as @ pc' # bs,
           rt_items := drop (length (takes (rt_q s) pc)) (rt_items s),
           rt_taken := rt_taken s @ takes (rt_q s) pc, rt_done := rt_done s @ runs pc\<rparr>"
    obtain q qc pc' where w: "u_dispatch_worker_thread2 (rt_q s) (rt_pool s) pc = (q, qc, pc')"
      by (metis prod_cases3)
    show ?thesis
      using assms(1) ws worker_hands [OF w] by (simp add: root_works(1) work [OF w] hands_inv_def union_ac)
  qed
next
  case (root_spawn i n)
  then show ?thesis
    using assms(1) id_take_nth_drop [OF root_spawn(2)]
    by (simp add: hands_inv_def upd_conv_take_nth_drop) (metis hands_simps(2,3) in_hand.simps(8) mset.simps(1) add_0)
qed (use assms(1) in \<open>auto simp: hands_inv_def\<close>)

lemma hands_inv_init: "root_init s \<Longrightarrow> hands_inv s"
proof -
  have "set ws \<subseteq> {Wk_none} \<Longrightarrow> hands ws = {#}" for ws
    by (induction ws) auto
  then show "root_init s \<Longrightarrow> hands_inv s"
    by (simp add: root_init_def hands_inv_def)
qed

lemma pool_inv_init: "root_init s \<Longrightarrow> pool_inv s"
  by (simp add: root_init_def pool_inv_def Let_def)

interpretation root: invariant_system root_init root_step "\<lambda>s. root_inv s \<and> pool_inv s \<and> hands_inv s"
  by unfold_locales
    (auto intro: root_inv_init pool_inv_init hands_inv_init root_inv_step root_pool_inv_step hands_inv_step)

section \<open>Properties\<close>

text \<open>
  C18: A root queue hands out every item once and in order.  In every interleaving of pushers and
  worker threads, the items that workers have taken, followed by the items still in the queue, are
  the items pushed, in the order of the pushes; and at most one worker at a time is between taking
  an item and giving the head pointer back.
\<close>

theorem root_queue_order:
  assumes "reach root_init root_step s"
  shows "rt_pushed s = rt_taken s @ rt_items s \<and> length (owners (rt_workers s)) \<le> 1"
  using root.reachable_inv [OF assms] by (auto simp: root_inv_def root_ok_def Let_def)

text \<open>
  C4: No work is lost on a root queue.  In every reachable state with items in the queue, something
  will see to them: a request is in the pool, or a thread is about to make one, or a worker is on
  its way to the queue.  So when all pushers and workers are done and the pool has no request, the
  queue is empty and every item pushed was run exactly once.
\<close>

theorem root_queue_no_lost_work:
  assumes "reach root_init root_step s"
    and "set (rt_pushers s) \<subseteq> {Root_push Push_idle}" "set (rt_workers s) \<subseteq> {Wk_none}"
    and "kworkqueue (rt_pool s) = 0"
  shows "rt_items s = [] \<and> mset (rt_done s) = mset (rt_pushed s)"
proof -
  have "root_inv s" "pool_inv s" "hands_inv s"
    using root.reachable_inv [OF assms(1)] by simp_all
  moreover have "tsum push_carries (rt_pushers s) = 0" "tsum work_carries (rt_workers s) = 0"
    using assms(2,3) by (auto intro!: tsum_eq_0I)
  moreover have "set ws \<subseteq> {Wk_none} \<Longrightarrow> hands ws = {#}" for ws
    by (induction ws) auto
  ultimately show ?thesis
    using assms(3,4) by (auto simp: pool_inv_def root_inv_def hands_inv_def Let_def)
qed

section \<open>Witnesses\<close>

text \<open>One thread pushes item 7 and asks for a worker, which takes the item and runs it.\<close>

definition root_example :: root where
  "root_example =
     \<lparr>rt_q = \<lparr>dq_items_head = None, dq_items_tail = None, do_nexts = \<lambda>_. None\<rparr>,
      rt_pool = \<lparr>dgq_pending = 0, kworkqueue = 0\<rparr>, rt_pushers = [Root_push Push_idle],
      rt_workers = [Wk_none], rt_items = [], rt_pushed = [], rt_taken = [], rt_done = []\<rparr>"

definition root_begin :: "nat \<Rightarrow> nat \<Rightarrow> root \<Rightarrow> root" where
  "root_begin i x s = s\<lparr>rt_pushers := (rt_pushers s)[i := Root_push (Push_xchg x)]\<rparr>"

definition root_start :: "nat \<Rightarrow> root \<Rightarrow> root" where
  "root_start i s =
     s\<lparr>rt_pool := (rt_pool s)\<lparr>kworkqueue := kworkqueue (rt_pool s) - 1\<rparr>, rt_workers := (rt_workers s)[i := Wk_start]\<rparr>"

definition root_example_taken :: root where
  "root_example_taken =
     root_worker 0 (root_worker 0 (root_start 0 (root_pusher 0 (root_pusher 0 (root_pusher 0
       (root_pusher 0 (root_pusher 0 (root_begin 0 7 root_example))))))))"

definition root_example_done :: root where
  "root_example_done =
     root_worker 0 (root_worker 0 (root_worker 0 (root_worker 0 (root_worker 0 (root_worker 0 root_example_taken)))))"

lemmas root_example_defs =
  root_example_def root_begin_def root_start_def root_pusher_def root_worker_def root_example_taken_def
  root_example_done_def mediator_def

lemma reach_root_begin:
  "reach root_init root_step s \<Longrightarrow> i < length (rt_pushers s) \<Longrightarrow> rt_pushers s ! i = Root_push Push_idle \<Longrightarrow>
   x \<noteq> mediator \<Longrightarrow> x \<notin> set (rt_items s) \<Longrightarrow> x \<notin> set (concat (map root_node (rt_pushers s))) \<Longrightarrow>
   x \<notin> set (concat (map in_hand (rt_workers s))) \<Longrightarrow> reach root_init root_step (root_begin i x s)"
  unfolding root_begin_def by (erule reach_step, rule root_call)

lemma reach_root_pusher:
  "reach root_init root_step s \<Longrightarrow> i < length (rt_pushers s) \<Longrightarrow> reach root_init root_step (root_pusher i s)"
  by (erule reach_step, rule root_pushes)

lemma reach_root_worker:
  "reach root_init root_step s \<Longrightarrow> i < length (rt_workers s) \<Longrightarrow> reach root_init root_step (root_worker i s)"
  by (erule reach_step, rule root_works)

lemma reach_root_start:
  "reach root_init root_step s \<Longrightarrow> i < length (rt_workers s) \<Longrightarrow> rt_workers s ! i = Wk_none \<Longrightarrow>
   0 < kworkqueue (rt_pool s) \<Longrightarrow> reach root_init root_step (root_start i s)"
  unfolding root_start_def by (erule reach_step, rule root_spawn) auto

lemma root_example_taken_reach: "reach root_init root_step root_example_taken"
  unfolding root_example_taken_def
  by (intro reach_root_worker reach_root_start reach_root_pusher reach_root_begin reach_init)
    (simp_all add: root_example_defs root_init_def)

lemma root_example_done_reach: "reach root_init root_step root_example_done"
  unfolding root_example_done_def
  by (intro reach_root_worker root_example_taken_reach) (simp_all add: root_example_defs)

theorem root_queue_order_witness:
  "rt_pushed root_example_taken = [7] \<and> rt_taken root_example_taken = [7] \<and>
   owners (rt_workers root_example_taken) = [7]"
  using root_queue_order [OF root_example_taken_reach] by (simp add: root_example_defs)

theorem root_queue_no_lost_work_witness:
  "rt_items root_example_done = [] \<and> rt_done root_example_done = [7]"
  using root_queue_no_lost_work [OF root_example_done_reach] by (simp add: root_example_defs)

end
