(* ===== verification/Dispatch_Queue_Proofs.thy ===== *)
theory Dispatch_Queue_Proofs
  imports Dispatch_Queue
begin

text \<open>
  Correctness of the serial queue of theory \<open>Dispatch_Queue\<close>: the invariant, one lemma per part of it that
  every action keeps that part, and the properties of the queue in every interleaving.
\<close>

section \<open>Invariants\<close>

text \<open>What an invariant counts of a thread.\<close>

fun q_locks :: "qpc \<Rightarrow> int" where  \<comment> \<open>holds the lock bit of the suspend count\<close>
  "q_locks (Q_wakeup_retain _) = 1"
| "q_locks (Q_wakeup_push _) = 1"
| "q_locks Q_invoke = 1"
| "q_locks (Q_trylock _) = 1"
| "q_locks (Q_drain _) = 1"
| "q_locks (Q_item _ _) = 1"
| "q_locks (Q_call _ _) = 1"
| "q_locks (Q_call_signal _ _) = 1"
| "q_locks (Q_out _ _) = 1"
| "q_locks (Q_drained _) = 1"
| "q_locks Q_requeue = 1"
| "q_locks Q_listless = 1"
| "q_locks Q_drop_lock = 1"
| "q_locks _ = 0"

fun q_runs :: "qpc \<Rightarrow> int" where  \<comment> \<open>holds \<open>dq_running\<close>\<close>
  "q_runs (Q_sync_func _) = 1"
| "q_runs Q_sync_unlock = 1"
| "q_runs (Q_drain _) = 1"
| "q_runs (Q_item _ _) = 1"
| "q_runs (Q_call _ _) = 1"
| "q_runs (Q_call_signal _ _) = 1"
| "q_runs (Q_out _ _) = 1"
| "q_runs (Q_drained _) = 1"
| "q_runs _ = 0"

fun q_calls :: "qpc \<Rightarrow> int" where  \<comment> \<open>runs an item of the list\<close>
  "q_calls (Q_call _ _) = 1"
| "q_calls _ = 0"

fun q_signals :: "qpc \<Rightarrow> int" where  \<comment> \<open>has suspended the queue for a waiter and not yet woken it\<close>
  "q_signals (Q_call_signal _ _) = 1"
| "q_signals _ = 0"

fun q_waitf :: "qpc \<Rightarrow> int" where  \<comment> \<open>runs its function while the queue is suspended for it\<close>
  "q_waitf (Q_wait_func _) = 1"
| "q_waitf Q_resume = 1"
| "q_waitf _ = 0"

fun q_unpub :: "qpc \<Rightarrow> int" where  \<comment> \<open>has yet to write the head\<close>
  "q_unpub (Q_push_retain _) = 1"
| "q_unpub (Q_push_head _) = 1"
| "q_unpub _ = 0"

fun q_carries :: "qpc \<Rightarrow> int" where  \<comment> \<open>will look at the list again\<close>
  "q_carries (Q_wakeup _) = 1"
| "q_carries (Q_wakeup_probe _) = 1"
| "q_carries (Q_wakeup_lock _) = 1"
| "q_carries Q_check_running = 1"
| "q_carries (Q_sync_func _) = 1"
| "q_carries Q_sync_unlock = 1"
| "q_carries (Q_push_retain _) = 1"
| "q_carries (Q_push_head _) = 1"
| "q_carries pc = q_locks pc"

fun k_holds :: "wake_k \<Rightarrow> int" where
  "k_holds K_return = 0"
| "k_holds _ = 1"

fun q_holds :: "qpc \<Rightarrow> int" where  \<comment> \<open>internal references\<close>
  "q_holds (Q_push_head _) = 1"
| "q_holds (Q_push_release _) = 1"
| "q_holds (Q_wakeup k) = k_holds k"
| "q_holds (Q_wakeup_probe k) = k_holds k"
| "q_holds (Q_wakeup_lock k) = k_holds k"
| "q_holds (Q_wakeup_retain k) = k_holds k"
| "q_holds (Q_wakeup_push k) = k_holds k + 1"
| "q_holds Q_check_running = 1"
| "q_holds Q_invoke_release = 1"
| "q_holds pc = q_locks pc"

fun q_token :: "qpc \<Rightarrow> int" where  \<comment> \<open>has taken the queue from the list of its target\<close>
  "q_token (Q_wakeup_retain _) = 0"
| "q_token (Q_wakeup_push _) = 0"
| "q_token Q_drop_lock = 0"
| "q_token pc = q_locks pc"

definition q_client :: "qpc \<Rightarrow> int" where  \<comment> \<open>external references\<close>
  "q_client pc = (if is_client pc then 1 else 0)"

fun after_waits :: "after \<Rightarrow> int" where
  "after_waits Return = 0"
| "after_waits (Wait_sema _) = 1"

fun k_waits :: "wake_k \<Rightarrow> int" where
  "k_waits (K_push a) = after_waits a"
| "k_waits _ = 0"

fun q_waits :: "qpc \<Rightarrow> int" where  \<comment> \<open>has its continuation on the list and waits for it\<close>
  "q_waits (Q_push_retain a) = after_waits a"
| "q_waits (Q_push_head a) = after_waits a"
| "q_waits (Q_push_release a) = after_waits a"
| "q_waits (Q_wakeup k) = k_waits k"
| "q_waits (Q_wakeup_probe k) = k_waits k"
| "q_waits (Q_wakeup_lock k) = k_waits k"
| "q_waits (Q_wakeup_retain k) = k_waits k"
| "q_waits (Q_wakeup_push k) = k_waits k"
| "q_waits (Q_wait _) = 1"
| "q_waits _ = 0"

definition is_barrier :: "nat \<Rightarrow> item \<Rightarrow> int" where
  "is_barrier i it = (if it = Barrier_sync i then 1 else 0)"

fun q_tok :: "nat \<Rightarrow> qpc \<Rightarrow> int" where  \<comment> \<open>has the continuation of thread \<open>i\<close> in hand\<close>
  "q_tok i (Q_item _ it) = is_barrier i it"
| "q_tok i (Q_call _ it) = is_barrier i it"
| "q_tok i (Q_out _ it) = is_barrier i it"
| "q_tok i (Q_call_signal _ j) = (if i = j then 1 else 0)"
| "q_tok i _ = 0"

fun q_in_hand :: "qpc \<Rightarrow> item list" where
  "q_in_hand (Q_item _ it) = [it]"
| "q_in_hand (Q_out _ it) = [it]"
| "q_in_hand _ = []"

fun q_pc_ok :: "nat \<Rightarrow> qpc \<Rightarrow> bool" where
  "q_pc_ok i (Q_push (Barrier_sync j) a) = (j = i \<and> after_waits a = 1)"
| "q_pc_ok i (Q_push _ a) = (a = Return)"
| "q_pc_ok i (Q_redirect _ _) = False"
| "q_pc_ok i _ = True"

definition sum_semas :: "int list \<Rightarrow> int" where
  "sum_semas xs = tsum (\<lambda>x. x) xs"

definition enq :: "shared \<Rightarrow> int" where
  "enq sh = (if dq_enqueued sh = None then 0 else 1)"

text \<open>Suspensions on behalf of a waiter of \<open>dispatch_barrier_sync_f\<close>.\<close>

definition barriers :: "shared \<Rightarrow> qpc list \<Rightarrow> int" where
  "barriers sh ts = tsum q_signals ts + sum_semas (dq_semas sh) + tsum q_waitf ts"

definition sh_ok :: "shared \<Rightarrow> qpc list \<Rightarrow> bool" where
  "sh_ok sh ts =
     (dq_width (dq_obj sh) = 1 \<and> do_targetq (dq_obj sh) \<noteq> None \<and> do_vtable (dq_obj sh) = Queue_vtable \<and>
      length (dq_semas sh) = length ts \<and> (\<forall>i<length ts. q_pc_ok i (ts ! i)) \<and>
      2 * int (length ts) + 2 < DISPATCH_OBJECT_GLOBAL_REFCNT)"

definition lock_ok :: "shared \<Rightarrow> qpc list \<Rightarrow> int \<Rightarrow> bool" where
  "lock_ok sh ts susp =
     (do_suspend_cnt (dq_obj sh) = enq sh + tsum q_locks ts + 2 * (susp + barriers sh ts) \<and>
      enq sh + tsum q_locks ts \<le> 1 \<and> 0 \<le> susp \<and>
      dq_running (dq_obj sh) = tsum q_runs ts \<and> tsum q_runs ts \<le> 1 \<and>
      tsum q_calls ts + barriers sh ts \<le> 1)"

definition pub_ok :: "shared \<Rightarrow> qpc list \<Rightarrow> bool" where
  "pub_ok sh ts =
     (dq_head_set sh = (tsum q_unpub ts = 0) \<and> tsum q_unpub ts \<le> 1 \<and>
      (dq_items sh = [] \<longrightarrow> tsum q_unpub ts = 0))"

definition wake_ok :: "shared \<Rightarrow> qpc list \<Rightarrow> bool" where
  "wake_ok sh ts =
     (dq_items sh \<noteq> [] \<and> do_suspend_cnt (dq_obj sh) < 2 \<longrightarrow> 1 \<le> enq sh + tsum q_carries ts)"

definition fifo_ok :: "shared \<Rightarrow> qpc list \<Rightarrow> bool" where
  "fifo_ok sh ts = (dq_submitted sh = dq_started sh @ concat (map q_in_hand ts) @ dq_items sh)"

definition q_refs_ok :: "shared \<Rightarrow> qpc list \<Rightarrow> int \<Rightarrow> int \<Rightarrow> bool" where
  "q_refs_ok sh ts refs susp =
     (do_xref_cnt (dq_obj sh) = refs + tsum q_client ts \<and> 0 \<le> refs \<and>
      do_xref_cnt (dq_obj sh) < DISPATCH_OBJECT_GLOBAL_REFCNT \<and>
      do_ref_cnt (dq_obj sh) = (if do_xref_cnt (dq_obj sh) = 0 then 0 else 1) + enq sh + tsum q_holds ts \<and>
      dq_freed sh = (do_ref_cnt (dq_obj sh) = 0) \<and>
      (do_next (dq_obj sh) \<noteq> Listless \<longrightarrow> 1 \<le> enq sh + tsum q_token ts) \<and>
      (do_xref_cnt (dq_obj sh) = 0 \<longrightarrow> susp = 0))"

definition sem_at :: "int list \<Rightarrow> nat \<Rightarrow> int" where
  "sem_at xs i = (if i < length xs then xs ! i else 0)"

definition waits_ok :: "shared \<Rightarrow> qpc list \<Rightarrow> bool" where
  "waits_ok sh ts =
     (\<forall>i. tsum (is_barrier i) (dq_items sh) + tsum (q_tok i) ts + sem_at (dq_semas sh) i =
          sem_at (map q_waits ts) i \<and> 0 \<le> sem_at (dq_semas sh) i)"

definition queue_ok :: "shared \<Rightarrow> qpc list \<Rightarrow> int \<Rightarrow> int \<Rightarrow> bool" where
  "queue_ok sh ts refs susp =
     (sh_ok sh ts \<and> lock_ok sh ts susp \<and> pub_ok sh ts \<and> wake_ok sh ts \<and> fifo_ok sh ts \<and>
      q_refs_ok sh ts refs susp \<and> waits_ok sh ts)"

definition queue_inv :: "qsys \<Rightarrow> bool" where
  "queue_inv s =
     (case qs_crashed s of
        None \<Rightarrow> queue_ok (qs_sh s) (qs_threads s) (qs_refs s) (qs_susp s)
      | Some e \<Rightarrow> e = Client_crash ''Release of a suspended object'')"

lemma k_holds_range [simp]: "0 \<le> k_holds k" "k_holds k \<le> 1" "k_holds k \<le> 2" "0 \<le> k_holds k + 1"
  by (cases k; simp)+

lemma after_waits_range [simp]: "0 \<le> after_waits a" "after_waits a \<le> 1"
  by (cases a; simp)+

lemma k_waits_range [simp]: "0 \<le> k_waits k" "k_waits k \<le> 1"
  by (cases k; simp)+

lemma q_counts:
  "0 \<le> q_locks p" "0 \<le> q_runs p" "0 \<le> q_calls p" "0 \<le> q_signals p" "0 \<le> q_waitf p"
  "0 \<le> q_unpub p" "0 \<le> q_carries p" "0 \<le> q_holds p" "0 \<le> q_token p"
  "0 \<le> q_waits p" "q_holds p \<le> 2" "0 \<le> q_client p"
proof -
  show "0 \<le> q_locks p" by (cases p) simp_all
  show "0 \<le> q_runs p" by (cases p) simp_all
  show "0 \<le> q_calls p" by (cases p) simp_all
  show "0 \<le> q_signals p" by (cases p) simp_all
  show "0 \<le> q_waitf p" by (cases p) simp_all
  show "0 \<le> q_unpub p" by (cases p) simp_all
  show "0 \<le> q_carries p" by (cases p) simp_all
  show "0 \<le> q_holds p" by (cases p) simp_all
  show "0 \<le> q_token p" by (cases p) simp_all
  show "0 \<le> q_waits p" by (cases p) simp_all
  show "q_holds p \<le> 2" by (cases p) simp_all
  show "0 \<le> q_client p" by (simp add: q_client_def)
qed

lemma is_barrier_nonneg [simp]: "0 \<le> is_barrier i it"
  by (simp add: is_barrier_def)

lemma q_tok_nonneg [simp]: "0 \<le> q_tok i p"
  by (cases p) simp_all

text \<open>How the counts compare on every thread.\<close>

lemma q_compare:
  "q_calls p \<le> q_runs p" "q_locks p \<le> q_carries p" "q_runs p \<le> q_carries p"
  "q_unpub p \<le> q_carries p" "q_token p \<le> q_holds p" "q_token p \<le> q_locks p"
  "q_waitf p \<le> q_client p" "q_waits p \<le> q_client p"
  "q_carries p \<le> q_holds p + q_client p" "(if current p then 1 else 0) \<le> q_holds p + q_client p"
proof -
  show "q_calls p \<le> q_runs p" by (cases p) simp_all
  show "q_locks p \<le> q_carries p" by (cases p) simp_all
  show "q_runs p \<le> q_carries p" by (cases p) simp_all
  show "q_unpub p \<le> q_carries p" by (cases p) simp_all
  show "q_token p \<le> q_holds p" by (cases p) simp_all
  show "q_token p \<le> q_locks p" by (cases p) simp_all
  show "q_waitf p \<le> q_client p" by (cases p) (auto simp: q_client_def)
  show "q_waits p \<le> q_client p" by (cases p) (auto simp: q_client_def)
  show "q_carries p \<le> q_holds p + q_client p" by (cases p) (auto simp: q_client_def)
  show "(if current p then 1 else 0) \<le> q_holds p + q_client p" by (cases p) (auto simp: q_client_def)
qed

lemma queue_okD:
  assumes "queue_ok sh ts refs susp"
  shows "sh_ok sh ts" "lock_ok sh ts susp" "pub_ok sh ts" "wake_ok sh ts" "fifo_ok sh ts"
    "q_refs_ok sh ts refs susp" "waits_ok sh ts"
  using assms by (simp_all add: queue_ok_def)

lemma enq_range: "0 \<le> enq sh" "enq sh \<le> 1"
  by (simp_all add: enq_def)

lemma q_sums:
  "0 \<le> tsum q_locks ts" "0 \<le> tsum q_runs ts" "0 \<le> tsum q_calls ts" "0 \<le> tsum q_signals ts"
  "0 \<le> tsum q_waitf ts" "0 \<le> tsum q_unpub ts" "0 \<le> tsum q_carries ts" "0 \<le> tsum q_holds ts"
  "0 \<le> tsum q_token ts" "0 \<le> tsum q_waits ts" "0 \<le> tsum q_client ts"
  by (simp_all add: tsum_nonneg q_counts)

lemma q_at:
  assumes "i < length ts"
  shows "q_locks (ts ! i) \<le> tsum q_locks ts" "q_runs (ts ! i) \<le> tsum q_runs ts" "q_calls (ts ! i) \<le> tsum q_calls ts"
    "q_signals (ts ! i) \<le> tsum q_signals ts" "q_waitf (ts ! i) \<le> tsum q_waitf ts" "q_unpub (ts ! i) \<le> tsum q_unpub ts"
    "q_carries (ts ! i) \<le> tsum q_carries ts" "q_holds (ts ! i) \<le> tsum q_holds ts" "q_token (ts ! i) \<le> tsum q_token ts"
    "q_waits (ts ! i) \<le> tsum q_waits ts" "q_client (ts ! i) \<le> tsum q_client ts"
  using assms by (simp_all add: tsum_ge q_counts)

lemma sem_at_update: "sem_at (xs[i := v]) j = (if j = i \<and> i < length xs then v else sem_at xs j)"
  by (auto simp: sem_at_def)

lemma sum_semas_update: "i < length xs \<Longrightarrow> sum_semas (xs[i := v]) = sum_semas xs - xs ! i + v"
  by (simp add: sum_semas_def tsum_update)

lemma waits_sum_semas:
  assumes "waits_ok sh ts"
  shows "0 \<le> sum_semas (dq_semas sh)"
proof -
  have "0 \<le> x" if x: "x \<in> set (dq_semas sh)" for x
  proof -
    from x obtain i where "i < length (dq_semas sh)" "x = dq_semas sh ! i"
      by (auto simp: in_set_conv_nth)
    then show ?thesis
      using assms by (auto simp: waits_ok_def sem_at_def dest: spec [of _ i])
  qed
  then show ?thesis
    by (simp add: sum_semas_def tsum_nonneg)
qed

lemma barriers_nonneg: "waits_ok sh ts \<Longrightarrow> 0 \<le> barriers sh ts"
  using waits_sum_semas [of sh ts] q_sums(4,5) [of ts] by (simp add: barriers_def)

text \<open>The waiter of a continuation in hand is a thread, and its semaphore is down.\<close>

lemma waits_tok:
  assumes w: "waits_ok sh ts" and len: "length (dq_semas sh) = length ts"
    and i: "i < length ts" and tok: "q_tok j (ts ! i) = 1"
  shows "j < length ts \<and> dq_semas sh ! j = 0"
proof -
  have "1 \<le> tsum (q_tok j) ts"
    using tsum_ge [OF i, of "q_tok j"] tok by simp
  moreover have "0 \<le> tsum (is_barrier j) (dq_items sh)"
    by (simp add: tsum_nonneg)
  moreover have "sem_at (map q_waits ts) j \<le> 1"
  proof (cases "j < length ts")
    case True
    have "q_waits (ts ! j) \<le> 1"
      by (cases "ts ! j") simp_all
    then show ?thesis
      using True by (simp add: sem_at_def)
  qed (simp add: sem_at_def)
  ultimately show ?thesis
    using w len unfolding waits_ok_def
    by (auto simp: sem_at_def dest!: spec [of _ j] split: if_splits)
qed

lemma no_clients_no_barriers:
  assumes w: "waits_ok sh ts" and len: "length (dq_semas sh) = length ts"
    and x: "tsum q_client ts = 0"
  shows "barriers sh ts = 0"
proof -
  have cl: "q_client (ts ! i) = 0" if "i < length ts" for i
    using tsum_eq_0D [OF x] that by (simp add: q_counts)
  have wt: "sem_at (map q_waits ts) i = 0" for i
  proof (cases "i < length ts")
    case True
    then show ?thesis
      using cl [OF True] q_compare(8) [of "ts ! i"] by (simp add: sem_at_def antisym q_counts)
  qed (simp add: sem_at_def)
  have z: "sem_at (dq_semas sh) i = 0 \<and> tsum (q_tok i) ts = 0" for i
    using w wt [of i] tsum_nonneg [of "dq_items sh" "is_barrier i"] tsum_nonneg [of ts "q_tok i"]
    unfolding waits_ok_def by (auto dest!: spec [of _ i])
  have "sum_semas (dq_semas sh) = 0"
    unfolding sum_semas_def
  proof (rule tsum_eq_0I)
    fix p
    assume "p \<in> set (dq_semas sh)"
    then obtain i where "i < length (dq_semas sh)" "p = dq_semas sh ! i"
      by (auto simp: in_set_conv_nth)
    then show "p = 0"
      using z [of i] by (simp add: sem_at_def)
  qed
  moreover have "tsum q_signals ts = 0"
  proof (rule tsum_eq_0I)
    fix p
    assume "p \<in> set ts"
    then obtain i where i: "i < length ts" "p = ts ! i"
      by (auto simp: in_set_conv_nth)
    show "q_signals p = 0"
    proof (cases p)
      case (Q_call_signal tq j)
      have "q_tok j (ts ! i) = 0"
        using tsum_eq_0D [of "q_tok j", OF _ _ i(1)] z [of j] by simp
      then show ?thesis
        using Q_call_signal i by simp
    qed simp_all
  qed
  moreover have "tsum q_waitf ts = 0"
  proof (rule tsum_eq_0I)
    fix p
    assume "p \<in> set ts"
    then show "q_waitf p = 0"
      using cl q_compare(7) [of p] by (auto simp: in_set_conv_nth antisym q_counts)
  qed
  ultimately show ?thesis
    by (simp add: barriers_def)
qed

text \<open>What the reference counts say of a thread that is in a call.\<close>

lemma busy_ref:
  assumes ok: "queue_ok sh ts refs susp" and i: "i < length ts" and p: "0 < q_holds (ts ! i) + q_client (ts ! i)"
  shows "0 < do_ref_cnt (dq_obj sh)"
  using queue_okD(6) [OF ok] p q_at(8,11) [OF i] q_sums(8,11) [of ts] enq_range(1) [of sh]
  unfolding q_refs_ok_def by (cases "do_xref_cnt (dq_obj sh) = 0") simp_all

lemma ref_range:
  assumes ok: "queue_ok sh ts refs susp"
  shows "do_ref_cnt (dq_obj sh) < DISPATCH_OBJECT_GLOBAL_REFCNT" "0 \<le> do_ref_cnt (dq_obj sh)"
proof -
  have "tsum q_holds ts \<le> 2 * int (length ts)"
  proof (induction ts)
    case (Cons p ts)
    then show ?case
      using q_counts(11) [of p] by simp
  qed simp
  then show "do_ref_cnt (dq_obj sh) < DISPATCH_OBJECT_GLOBAL_REFCNT" "0 \<le> do_ref_cnt (dq_obj sh)"
    using queue_okD(1,6) [OF ok] q_sums(8) [of ts] enq_range [of sh] unfolding q_refs_ok_def sh_ok_def
    by (cases "do_xref_cnt (dq_obj sh) = 0"; simp)+
qed

lemma exec_retain:
  assumes ok: "queue_ok sh ts refs susp" and i: "i < length ts"
    and p: "0 < q_holds (ts ! i) + q_client (ts ! i)"
  shows "queue_retain sh pc = Goes_on (upd_obj (do_ref_cnt_update (\<lambda>r. r + 1)) sh) pc"
  using busy_ref [OF assms] ref_range [OF ok]
  by (simp add: queue_retain_def u_dispatch_retain_def upd_obj_def)

lemma last_reference_gone:
  assumes ok: "queue_ok sh ts refs susp" and i: "i < length ts"
    and e: "enq sh = 0" and h: "tsum q_holds ts = q_holds (ts ! i)" and x: "tsum q_client ts = q_client (ts ! i)"
    and p: "q_carries (ts ! i) = 0" "\<not> current (ts ! i)" "q_token (ts ! i) = 0"
    and c: "do_suspend_cnt (dq_obj sh) < 2"
  shows "dq_items sh = [] \<and> do_next (dq_obj sh) = Listless \<and> \<not> list_ex current ts"
proof -
  let ?c = "\<lambda>p. if current p then 1 else 0 :: int"
  have hx: "tsum (\<lambda>p. q_holds p + q_client p) ts - (q_holds (ts ! i) + q_client (ts ! i)) = 0"
    using h x by (simp add: tsum_add)
  have "tsum q_carries ts \<le> 0" "tsum ?c ts \<le> 0"
    using tsum_mono_but [OF i, of q_carries, OF q_compare(9)] tsum_mono_but [OF i, of ?c, OF q_compare(10)] hx p
    by simp_all
  moreover have "tsum q_token ts \<le> 0"
    using tsum_mono_but [OF i, of q_token, OF q_compare(5)] h p by simp
  moreover have "\<not> list_ex current ts" if "tsum ?c ts \<le> 0"
  proof
    assume "list_ex current ts"
    then obtain j where "j < length ts" "current (ts ! j)"
      by (auto simp: list_ex_length)
    then show False
      using tsum_ge [of j ts ?c] that by fastforce
  qed
  ultimately show ?thesis
    using queue_okD(4,6) [OF ok] e c unfolding wake_ok_def q_refs_ok_def by auto
qed


fun is_release :: "qpc \<Rightarrow> bool" where
  "is_release (Q_push_release a) = True"
| "is_release Q_invoke_release = True"
| "is_release _ = False"

lemma exec_release:
  assumes ok: "queue_ok sh ts refs susp" and i: "i < length ts"
    and p: "is_release (ts ! i)" and cur: "cur \<longrightarrow> list_ex current ts"
  shows "queue_release cur sh pc =
    Goes_on (upd_obj (do_ref_cnt_update (\<lambda>r. r - 1)) sh\<lparr>dq_freed := (do_ref_cnt (dq_obj sh) = 1)\<rparr>) pc"
proof -
  have h: "q_holds (ts ! i) = 1" "q_carries (ts ! i) = 0" "\<not> current (ts ! i)" "q_token (ts ! i) = 0"
    using p by (cases "ts ! i"; simp)+
  have pos: "0 < do_ref_cnt (dq_obj sh)"
    using busy_ref [OF ok i] h q_counts(12) [of "ts ! i"] by simp
  have r: "q_refs_ok sh ts refs susp" and l: "lock_ok sh ts susp" and s: "sh_ok sh ts" and w: "waits_ok sh ts"
    using ok by (simp_all add: queue_ok_def)
  have nf: "\<not> dq_freed sh"
    using r pos by (simp add: q_refs_ok_def)
  show ?thesis
  proof (cases "do_ref_cnt (dq_obj sh) = 1")
    case True
    then have x0: "do_xref_cnt (dq_obj sh) = 0" "enq sh = 0" "tsum q_holds ts = 1"
      using r q_at(8) [OF i] h enq_range [of sh] unfolding q_refs_ok_def by (auto split: if_splits)
    then have x: "tsum q_client ts = 0" "susp = 0"
      using r q_sums(11) [of ts] unfolding q_refs_ok_def by auto
    then have "q_client (ts ! i) = 0"
      using q_at(11) [OF i] q_counts(12) [of "ts ! i"] by simp
    moreover have "barriers sh ts = 0"
      using no_clients_no_barriers [OF w _ x(1)] s by (simp add: sh_ok_def)
    then have "do_suspend_cnt (dq_obj sh) < 2"
      using l x unfolding lock_ok_def by simp
    ultimately have "dq_items sh = [] \<and> do_next (dq_obj sh) = Listless \<and> \<not> list_ex current ts"
      using last_reference_gone [OF ok i x0(2)] x0 x h by simp
    then show ?thesis
      using True x0 cur
      by (simp add: queue_release_def release_count_def u_dispatch_queue_dispose_def upd_obj_def
          DISPATCH_OBJECT_GLOBAL_REFCNT_def)
  next
    case False
    then show ?thesis
      using pos ref_range [OF ok] nf by (simp add: queue_release_def release_count_def upd_obj_def Let_def)
  qed
qed

lemma resume_eq:
  assumes l: "lock_ok sh ts susp" and r: "do_ref_cnt (dq_obj sh) < DISPATCH_OBJECT_GLOBAL_REFCNT"
    and p: "0 < susp + barriers sh ts"
  shows "queue_resume sh = Goes_on (upd_obj (do_suspend_cnt_update (\<lambda>c. c - 2)) sh)
    (if do_suspend_cnt (dq_obj sh) = 2 then Q_wakeup K_return else Q_idle)"
proof -
  have "2 \<le> do_suspend_cnt (dq_obj sh)"
    using l p enq_range(1) [of sh] q_sums(1) [of ts] unfolding lock_ok_def by auto
  then show ?thesis
    using r by (simp add: queue_resume_def dispatch_resume_def upd_obj_def Let_def DISPATCH_OBJECT_SUSPEND_INTERVAL_def
        DISPATCH_OBJECT_SUSPEND_LOCK_def)
qed

lemma exec_resume:
  assumes ok: "queue_ok sh ts refs susp" and i: "i < length ts" and p: "ts ! i = Q_resume"
  shows "queue_resume sh = Goes_on (upd_obj (do_suspend_cnt_update (\<lambda>c. c - 2)) sh)
    (if do_suspend_cnt (dq_obj sh) = 2 then Q_wakeup K_return else Q_idle)"
proof (rule resume_eq [OF queue_okD(2) [OF ok] ref_range(1) [OF ok]])
  show "0 < susp + barriers sh ts"
    using queue_okD(2) [OF ok] q_at(5) [OF i] p waits_sum_semas [OF queue_okD(7) [OF ok]] q_sums(4) [of ts]
    unfolding lock_ok_def barriers_def by auto
qed

lemmas exec_eqs = exec_retain exec_release exec_resume

lemmas queue_exec_simps = upd_obj_def queue_enqueue_def u_dispatch_trylock_def DISPATCH_OBJECT_SUSPENDED_def
  DISPATCH_OBJECT_SUSPEND_LOCK_def DISPATCH_OBJECT_SUSPEND_INTERVAL_def Let_def

lemma wake_next_counts [simp]:
  "q_locks (wake_next k) = 0" "q_runs (wake_next k) = 0" "q_calls (wake_next k) = 0" "q_signals (wake_next k) = 0" "q_waitf (wake_next k) = 0"
  "q_unpub (wake_next k) = 0" "q_carries (wake_next k) = 0" "q_token (wake_next k) = 0"
  "q_holds (wake_next k) = k_holds k" "q_waits (wake_next k) = k_waits k" "q_tok j (wake_next k) = 0"
  "q_in_hand (wake_next k) = []" "q_pc_ok j (wake_next k)"
  by (cases k; simp)+

lemma after_pc_counts [simp]:
  "q_locks (after_pc a) = 0" "q_runs (after_pc a) = 0" "q_calls (after_pc a) = 0" "q_signals (after_pc a) = 0" "q_waitf (after_pc a) = 0"
  "q_unpub (after_pc a) = 0" "q_carries (after_pc a) = 0" "q_token (after_pc a) = 0"
  "q_holds (after_pc a) = 0" "q_waits (after_pc a) = after_waits a" "q_tok j (after_pc a) = 0"
  "q_in_hand (after_pc a) = []" "q_pc_ok j (after_pc a)"
  by (cases a; simp)+

text \<open>A step that touches nothing an invariant speaks of keeps it.\<close>

lemma lock_ok_frame:
  assumes "lock_ok sh ts susp" "i < length ts"
    and "do_suspend_cnt (dq_obj sh') = do_suspend_cnt (dq_obj sh)" "dq_running (dq_obj sh') = dq_running (dq_obj sh)"
      "dq_enqueued sh' = dq_enqueued sh" "dq_semas sh' = dq_semas sh"
    and "q_locks q = q_locks (ts ! i)" "q_runs q = q_runs (ts ! i)" "q_calls q = q_calls (ts ! i)"
      "q_signals q = q_signals (ts ! i)" "q_waitf q = q_waitf (ts ! i)"
  shows "lock_ok sh' (ts[i := q]) susp"
  using assms by (simp add: lock_ok_def barriers_def enq_def tsum_update)

lemma exec_lock_ok:
  assumes ok: "queue_ok sh ts refs susp" and i: "i < length ts" and cur: "cur \<longrightarrow> list_ex current ts"
    and ex: "queue_exec cur i sh (ts ! i) = Goes_on sh' q"
  shows "lock_ok sh' (ts[i := q]) susp"
proof -
  note l = queue_okD(2) [OF ok, unfolded lock_ok_def barriers_def]
    and s = queue_okD(1) [OF ok, unfolded sh_ok_def] and sm = waits_sum_semas [OF queue_okD(7) [OF ok]]
  note simps = lock_ok_def barriers_def enq_def tsum_update [OF i] queue_exec_simps sum_semas_update
  note frame = lock_ok_frame [OF queue_okD(2) [OF ok] i]
  show ?thesis
  proof (cases "ts ! i")
    case (Q_wakeup_lock k)
    show ?thesis
    proof (cases "do_suspend_cnt (dq_obj sh) = 0")
      case True
      then have "enq sh + tsum q_locks ts = 0"
        using l sm q_sums(1,4,5) [of ts] enq_range [of sh] by simp
      then show ?thesis
        using True Q_wakeup_lock ex l by (auto simp: simps)
    next
      case False
      then show ?thesis
        using Q_wakeup_lock ex by (intro frame) (auto simp: queue_exec_simps)
    qed
  next
    case (Q_item tq it)
    show ?thesis
    proof (cases "q = Q_call tq it")
      case True
      then have "do_suspend_cnt (dq_obj sh) < 2" 
        using Q_item ex by (auto simp: queue_exec_simps split: if_splits)
      then have "barriers sh ts = 0" "tsum q_calls ts = 0"
        using l sm q_sums(1,3,4,5) [of ts] enq_range [of sh] Q_item
          tsum_mono_but [OF i, of q_calls q_runs, OF q_compare(1)] unfolding barriers_def by simp_all
      then show ?thesis
        using True Q_item ex l by (auto simp: simps split: if_splits)
    next
      case False
      then show ?thesis
        using Q_item ex s by (intro frame) (auto simp: queue_exec_simps split: if_splits)
    qed
  next
    case (Q_call_signal tq j)
    then show ?thesis
      using ex l waits_tok [OF queue_okD(7) [OF ok] _ i, of j] s by (auto simp: simps)
  next
    case (Q_call tq it)
    then show ?thesis
      using ex l ref_range [OF ok] by (cases it) (auto simp: simps dispatch_suspend_def)
  next
    case (Q_wakeup_push k)
    then show ?thesis
      using ex l q_at(1) [OF i] enq_range [of sh] s by (auto simp: simps)
  next
    case Q_requeue
    then show ?thesis
      using ex l q_at(1) [OF i] enq_range [of sh] s by (auto simp: simps)
  next
    case Q_resume
    then show ?thesis
      using ex l by (auto simp: simps exec_eqs [OF ok i] split: if_splits)
  next
    case Q_drop_lock
    then show ?thesis
      using ex l by (auto simp: simps split: if_splits)
  next
    case (Q_wait f)
    then show ?thesis
      using ex l s i by (auto simp: simps split: if_splits)
  next
    case Q_sync_unlock
    then show ?thesis
      using ex l by (auto simp: simps split: if_splits)
  next
    case (Q_drained tq)
    then show ?thesis
      using ex l by (auto simp: simps split: if_splits)
  next
    case (Q_sync_trylock f)
    then show ?thesis
      using ex l by (auto simp: simps split: if_splits)
  next
    case (Q_trylock f)
    then show ?thesis
      using ex l by (auto simp: simps split: if_splits)
  qed (use ex cur in \<open>auto simp: queue_exec_simps exec_eqs [OF ok i] q_client_def intro!: frame split: if_splits list.splits\<close>)
qed
lemma pub_ok_frame:
  assumes "pub_ok sh ts" "i < length ts" "dq_head_set sh' = dq_head_set sh" "dq_items sh \<noteq> [] \<or> dq_items sh' = [] \<or> dq_head_set sh"
    and "q_unpub q = q_unpub (ts ! i)" "dq_items sh' = [] \<longrightarrow> dq_head_set sh"
  shows "pub_ok sh' (ts[i := q])"
  using assms by (auto simp: pub_ok_def tsum_update)

lemma exec_pub_ok:
  assumes ok: "queue_ok sh ts refs susp" and i: "i < length ts" and cur: "cur \<longrightarrow> list_ex current ts"
    and ex: "queue_exec cur i sh (ts ! i) = Goes_on sh' q"
  shows "pub_ok sh' (ts[i := q])"
proof -
  note u = queue_okD(3) [OF ok, unfolded pub_ok_def] and s = queue_okD(1) [OF ok, unfolded sh_ok_def]
  note frame = pub_ok_frame [OF queue_okD(3) [OF ok] i]
  note simps = pub_ok_def tsum_update [OF i] queue_exec_simps
  have e: "dq_items sh = [] \<longrightarrow> dq_head_set sh"
    using u by auto
  show ?thesis
  proof (cases "ts ! i")
    case (Q_push it a)
    then show ?thesis
      using ex u by (auto simp: simps split: if_splits)
  next
    case (Q_push_head a)
    then show ?thesis
      using ex u q_at(6) [OF i] by (auto simp: simps)
  next
    case (Q_out tq it)
    then show ?thesis
      using ex u by (auto simp: simps split: if_splits)
  next
    case (Q_call tq it)
    then show ?thesis
      using ex e by (cases it) (auto simp: queue_exec_simps intro!: frame)
  next
    case (Q_drain tq)
    then show ?thesis
      using ex e by (auto intro!: frame split: list.splits if_splits)
  qed (use ex cur e s in \<open>auto simp: queue_exec_simps exec_eqs [OF ok i] q_client_def intro!: frame split: if_splits\<close>)
qed

lemma wake_ok_frame:
  assumes "wake_ok sh ts" "i < length ts" "do_suspend_cnt (dq_obj sh') = do_suspend_cnt (dq_obj sh)"
    and "dq_items sh = [] \<longrightarrow> dq_items sh' = []" "dq_enqueued sh' = dq_enqueued sh" "q_carries q = q_carries (ts ! i)"
  shows "wake_ok sh' (ts[i := q])"
  using assms by (auto simp: wake_ok_def enq_def tsum_update)

lemma wake_ok_carrier:
  assumes "i < length ts" "q_carries q = 1"
  shows "wake_ok sh (ts[i := q])"
  using q_at(7) [OF assms(1)] enq_range(1) [of sh] assms(2) by (simp add: wake_ok_def tsum_update [OF assms(1)])

lemma wake_ok_suspended: "2 \<le> do_suspend_cnt (dq_obj sh) \<Longrightarrow> wake_ok sh ts"
  by (simp add: wake_ok_def)

lemma wake_ok_empty: "dq_items sh = [] \<Longrightarrow> wake_ok sh ts"
  by (simp add: wake_ok_def)

lemma wake_ok_enqueued: "dq_enqueued sh \<noteq> None \<Longrightarrow> wake_ok sh ts"
  using q_sums(7) [of ts] by (auto simp: wake_ok_def enq_def)

lemma exec_wake_ok:
  assumes ok: "queue_ok sh ts refs susp" and i: "i < length ts" and cur: "cur \<longrightarrow> list_ex current ts"
    and ex: "queue_exec cur i sh (ts ! i) = Goes_on sh' q"
  shows "wake_ok sh' (ts[i := q])"
proof -
  note l = queue_okD(2) [OF ok, unfolded lock_ok_def] and b = barriers_nonneg [OF queue_okD(7) [OF ok]]
    and ll = tsum_mono_but [OF i, of q_locks q_carries, OF q_compare(2)]
    and rr = tsum_mono_but [OF i, of q_runs q_carries, OF q_compare(3)]
    and s = queue_okD(1) [OF ok, unfolded sh_ok_def]
  note frame = wake_ok_frame [OF queue_okD(4) [OF ok] i] and carrier = wake_ok_carrier [OF i]
  show ?thesis
  proof (cases "ts ! i")
    case (Q_wakeup_lock k)
    show ?thesis
    proof (cases "do_suspend_cnt (dq_obj sh) = 1")
      case True
      then have "1 \<le> enq sh + tsum q_locks ts"
        using l q_sums(1) [of ts] enq_range(1) [of sh] by presburger
      then show ?thesis
        using True ex Q_wakeup_lock ll by (auto simp: queue_exec_simps wake_ok_def tsum_update [OF i])
    next
      case False
      then have "2 \<le> do_suspend_cnt (dq_obj sh) \<or> do_suspend_cnt (dq_obj sh) = 0"
        using l b enq_range(1) [of sh] q_sums(1) [of ts] by auto
      then show ?thesis
        using ex Q_wakeup_lock by (auto simp: queue_exec_simps intro: carrier wake_ok_suspended split: if_splits)
    qed
  next
    case Q_sync_unlock
    then show ?thesis
      using ex l q_at(2) [OF i] by (auto simp: queue_exec_simps intro!: carrier split: if_splits)
  next
    case Q_drop_lock
    have "enq sh = 0 \<and> tsum q_locks ts = 1"
      using l q_at(1) [OF i] Q_drop_lock enq_range(1) [of sh] by simp
    then have "do_suspend_cnt (dq_obj sh) = 1 \<or> 3 \<le> do_suspend_cnt (dq_obj sh)"
      using l b by presburger
    then show ?thesis
      using ex Q_drop_lock by (auto simp: queue_exec_simps intro: carrier wake_ok_suspended split: if_splits)
  next
    case Q_check_running
    show ?thesis
    proof (cases "dq_running (dq_obj sh) = 0")
      case False
      then have "1 \<le> tsum q_runs ts"
        using l q_sums(2) [of ts] by simp
      then show ?thesis
        using False ex Q_check_running rr enq_range(1) [of sh] by (auto simp: wake_ok_def tsum_update [OF i])
    qed (use ex Q_check_running in \<open>auto intro: carrier\<close>)
  next
    case Q_resume
    show ?thesis
    proof (cases "do_suspend_cnt (dq_obj sh) = 3")
      case True
      then have "1 \<le> enq sh + tsum q_locks ts"
        using l q_sums(1) [of ts] enq_range(1) [of sh] by presburger
      then show ?thesis
        using True ex Q_resume ll by (auto simp: queue_exec_simps exec_eqs [OF ok i] wake_ok_def enq_def tsum_update [OF i])
    next
      case False
      have "2 \<le> do_suspend_cnt (dq_obj sh)"
        using Q_resume l q_at(5) [OF i] waits_sum_semas [OF queue_okD(7) [OF ok]] q_sums(1,4) [of ts] enq_range(1) [of sh]
        unfolding barriers_def by simp
      with False show ?thesis
        using ex Q_resume by (auto simp: queue_exec_simps exec_eqs [OF ok i] intro: carrier wake_ok_suspended split: if_splits)
    qed
  next
    case (Q_call tq it)
    then show ?thesis
      using ex by (cases it) (auto intro: carrier)
  next
    case (Q_wakeup_push k)
    then show ?thesis
      using ex s by (auto simp: queue_exec_simps intro!: wake_ok_enqueued)
  next
    case Q_requeue
    then show ?thesis
      using ex s by (auto simp: queue_exec_simps intro!: wake_ok_enqueued)
  qed (use ex cur s in \<open>auto simp: queue_exec_simps exec_eqs [OF ok i] q_client_def
        intro: carrier frame wake_ok_suspended wake_ok_empty split: if_splits list.splits\<close>)
qed


lemma in_hand_update:
  assumes "i < length ts" "q_in_hand q = q_in_hand (ts ! i)"
  shows "concat (map q_in_hand (ts[i := q])) = concat (map q_in_hand ts)"
  using assms list_update_id [of "map q_in_hand ts" i] by (simp add: map_update)

lemma in_hand_runs: "q_runs p = 0 \<Longrightarrow> q_in_hand p = []"
  by (cases p) simp_all

lemma concat_single:
  assumes "tsum f ts \<le> 1" "\<And>p. 0 \<le> f p" "\<And>p. f p = 0 \<Longrightarrow> g p = []" "i < length ts" "f (ts ! i) = 1"
  shows "concat (map g ts) = g (ts ! i)"
proof -
  have ts: "ts = take i ts @ ts ! i # drop (Suc i) ts"
    by (simp add: id_take_nth_drop assms(4))
  have "tsum f (take i ts) + tsum f (drop (Suc i) ts) \<le> 0"
    using assms(1,5) by (subst (asm) ts) simp
  moreover have "0 \<le> tsum f (take i ts)" "0 \<le> tsum f (drop (Suc i) ts)"
    by (simp_all add: tsum_nonneg assms(2))
  ultimately have z: "tsum f (take i ts) = 0" "tsum f (drop (Suc i) ts) = 0"
    by simp_all
  have g: "g p = []" if "p \<in> set us" "tsum f us = 0" for us p
    using that tsum_eq_0D [OF that(2) assms(2)] assms(3) by (auto simp: in_set_conv_nth)
  have n: "concat (map g (take i ts)) = []" "concat (map g (drop (Suc i) ts)) = []"
    using g [OF _ z(1)] g [OF _ z(2)] by auto
  have "concat (map g ts) = concat (map g (take i ts)) @ g (ts ! i) @ concat (map g (drop (Suc i) ts))"
    by (subst ts) simp
  then show ?thesis
    by (simp only: n append_Nil append_Nil2)
qed

lemma fifo_ok_frame:
  assumes "fifo_ok sh ts" "i < length ts" "q_in_hand q = q_in_hand (ts ! i)"
    and "dq_items sh' = dq_items sh" "dq_submitted sh' = dq_submitted sh" "dq_started sh' = dq_started sh"
  shows "fifo_ok sh' (ts[i := q])"
  using assms by (simp add: fifo_ok_def in_hand_update)

lemma fifo_ok_drain:
  assumes "fifo_ok sh ts" "tsum q_runs ts \<le> 1" "i < length ts" "q_runs (ts ! i) = 1" "q_runs q = 1"
    and "dq_submitted sh' = dq_submitted sh"
    and "dq_started sh' @ q_in_hand q @ dq_items sh' = dq_started sh @ q_in_hand (ts ! i) @ dq_items sh"
  shows "fifo_ok sh' (ts[i := q])"
proof -
  have "concat (map q_in_hand ts) = q_in_hand (ts ! i)"
    using assms by (intro concat_single [where f = q_runs]) (auto simp: q_counts in_hand_runs)
  moreover have "concat (map q_in_hand (ts[i := q])) = q_in_hand (ts[i := q] ! i)"
    using assms by (intro concat_single [where f = q_runs]) (auto simp: q_counts in_hand_runs tsum_update)
  ultimately show ?thesis
    using assms by (simp add: fifo_ok_def)
qed

lemma exec_fifo_ok:
  assumes ok: "queue_ok sh ts refs susp" and i: "i < length ts" and cur: "cur \<longrightarrow> list_ex current ts"
    and ex: "queue_exec cur i sh (ts ! i) = Goes_on sh' q"
  shows "fifo_ok sh' (ts[i := q])"
proof -
  have r: "tsum q_runs ts \<le> 1"
    using queue_okD(2) [OF ok] by (simp add: lock_ok_def)
  note s = queue_okD(1) [OF ok, unfolded sh_ok_def]
  note frame = fifo_ok_frame [OF queue_okD(5) [OF ok] i] and drain = fifo_ok_drain [OF queue_okD(5) [OF ok] r i]
  show ?thesis
  proof (cases "ts ! i")
    case (Q_push it a)
    then show ?thesis
      using ex queue_okD(5) [OF ok] by (auto simp: fifo_ok_def in_hand_update i split: if_splits)
  next
    case (Q_call tq it)
    then show ?thesis
      using ex by (cases it) (auto simp: queue_exec_simps intro!: frame)
  next
    case (Q_drain tq)
    then show ?thesis
      using ex by (auto intro!: frame drain split: list.splits if_splits)
  next
    case (Q_item tq it)
    then show ?thesis
      using ex s by (auto simp: queue_exec_simps intro!: drain split: if_splits)
  next
    case (Q_out tq it)
    then show ?thesis
      using ex by (auto intro!: drain split: if_splits)
  qed (use ex cur s in \<open>auto simp: queue_exec_simps exec_eqs [OF ok i] q_client_def intro!: frame split: if_splits\<close>)
qed

lemma exec_sh_ok:
  assumes ok: "queue_ok sh ts refs susp" and i: "i < length ts" and cur: "cur \<longrightarrow> list_ex current ts"
    and ex: "queue_exec cur i sh (ts ! i) = Goes_on sh' q"
  shows "sh_ok sh' (ts[i := q])"
proof -
  note s = queue_okD(1) [OF ok, unfolded sh_ok_def]
  have frame: "sh_ok sh' (ts[i := q])"
    if "q_pc_ok i q" "dq_width (dq_obj sh') = 1" "do_targetq (dq_obj sh') \<noteq> None" "do_vtable (dq_obj sh') = Queue_vtable"
      "length (dq_semas sh') = length (dq_semas sh)" for sh' q
    using that s i by (auto simp: sh_ok_def nth_list_update)
  show ?thesis
  proof (cases "ts ! i")
    case (Q_call tq it)
    then show ?thesis
      using ex s by (cases it) (auto simp: queue_exec_simps dispatch_suspend_def intro!: frame)
  qed (use ex cur s in \<open>auto simp: queue_exec_simps exec_eqs [OF ok i] q_client_def intro!: frame split: if_splits list.splits\<close>)
qed


lemma refs_ok_frame:
  assumes "q_refs_ok sh ts refs susp" "i < length ts"
    and "do_xref_cnt (dq_obj sh') = do_xref_cnt (dq_obj sh)"
    and "do_ref_cnt (dq_obj sh') - enq sh' - q_holds q = do_ref_cnt (dq_obj sh) - enq sh - q_holds (ts ! i)"
    and "dq_freed sh' = (do_ref_cnt (dq_obj sh') = 0)"
    and "do_next (dq_obj sh') = do_next (dq_obj sh) \<and> enq sh' + q_token q = enq sh + q_token (ts ! i) \<or>
         do_next (dq_obj sh') = Listless \<or> dq_enqueued sh' \<noteq> None \<or> q_token q = 1"
    and "refs' + q_client q = refs + q_client (ts ! i)" "refs \<le> refs'"
  shows "q_refs_ok sh' (ts[i := q]) refs' susp"
proof -
  have "do_next (dq_obj sh') \<noteq> Listless \<longrightarrow> 1 \<le> enq sh' + tsum q_token (ts[i := q])"
    using assms(1,6) q_sums(9) [of "ts[i := q]"] q_at(9) [OF assms(2)] enq_range(1) [of sh']
    by (auto simp: q_refs_ok_def tsum_update [OF assms(2)] enq_def split: if_splits)
  then show ?thesis
    using assms by (auto simp: q_refs_ok_def tsum_update)
qed

lemma busy_counts: "p \<noteq> Q_idle \<Longrightarrow> q_pc_ok j p \<Longrightarrow> 0 < q_holds p + q_client p"
proof (cases p)
  case (Q_wakeup k)
  then show ?thesis by (cases k) (simp_all add: q_client_def)
next
  case (Q_wakeup_probe k)
  then show ?thesis by (cases k) (simp_all add: q_client_def)
next
  case (Q_wakeup_lock k)
  then show ?thesis by (cases k) (simp_all add: q_client_def)
next
  case (Q_wakeup_retain k)
  then show ?thesis by (cases k) (simp_all add: q_client_def)
next
  case (Q_wakeup_push k)
  then show ?thesis by (cases k) (simp_all add: q_client_def)
qed (simp_all add: q_client_def)

lemma exec_refs_ok:
  assumes ok: "queue_ok sh ts refs susp" and i: "i < length ts" and cur: "cur \<longrightarrow> list_ex current ts"
    and ex: "queue_exec cur i sh (ts ! i) = Goes_on sh' q"
  shows "q_refs_ok sh' (ts[i := q]) (refs + (if is_client (ts ! i) \<and> \<not> is_client q then 1 else 0)) susp"
proof (cases "ts ! i = Q_idle")
  case False
  then have b: "0 < q_holds (ts ! i) + q_client (ts ! i)"
    using queue_okD(1) [OF ok] i busy_counts [of "ts ! i" i] by (simp add: sh_ok_def)
  have fr: "dq_freed sh = (do_ref_cnt (dq_obj sh) = 0)"
    using queue_okD(6) [OF ok] by (simp add: q_refs_ok_def)
  note rp = busy_ref [OF ok i b]
  note s = queue_okD(1) [OF ok, unfolded sh_ok_def]
  note frame = refs_ok_frame [OF queue_okD(6) [OF ok] i]
  have lk: "enq sh = 0" if "q_locks (ts ! i) = 1"
    using queue_okD(2) [OF ok] q_at(1) [OF i] that enq_range(1) [of sh] by (simp add: lock_ok_def)
  show ?thesis
  proof (cases "ts ! i")
    case (Q_call tq it)
    then show ?thesis
      using ex fr ref_range(1) [OF ok] by (cases it) (auto simp: queue_exec_simps dispatch_suspend_def q_client_def enq_def intro!: frame)
  next
    case (Q_wakeup_push k)
    then show ?thesis
      using ex fr s lk by (cases k) (auto simp: queue_exec_simps q_client_def enq_def intro!: frame)
  next
    case Q_requeue
    then show ?thesis
      using ex fr s lk by (auto simp: queue_exec_simps q_client_def enq_def intro!: frame)
  next
    case (Q_wakeup_lock k)
    then show ?thesis
      using ex fr by (cases k) (auto simp: queue_exec_simps q_client_def enq_def intro!: frame split: if_splits)
  next
    case (Q_wakeup k)
    then show ?thesis
      using ex fr by (cases k) (auto simp: queue_exec_simps q_client_def enq_def intro!: frame split: if_splits)
  next
    case (Q_wakeup_probe k)
    then show ?thesis
      using ex fr by (cases k) (auto simp: queue_exec_simps q_client_def enq_def intro!: frame split: if_splits)
  next
    case (Q_push it a)
    then show ?thesis
      using ex fr by (cases a) (auto simp: q_client_def enq_def intro!: frame split: if_splits)
  next
    case (Q_push_release a)
    then show ?thesis
      using ex cur by (cases a) (auto simp: queue_exec_simps exec_eqs [OF ok i] q_client_def enq_def intro!: frame split: if_splits)
  qed (use ex cur s fr rp in \<open>auto simp: queue_exec_simps exec_eqs [OF ok i] q_client_def enq_def intro!: frame split: if_splits list.splits\<close>)
qed (use ex in simp)


lemma sem_at_map: "i < length ts \<Longrightarrow> sem_at (map f ts) i = f (ts ! i)"
  by (simp add: sem_at_def)

lemma waits_ok_frame:
  assumes "waits_ok sh ts" "i < length ts" "dq_semas sh' = dq_semas sh" "q_waits q = q_waits (ts ! i)"
    and "\<And>j. tsum (is_barrier j) (dq_items sh') + q_tok j q = tsum (is_barrier j) (dq_items sh) + q_tok j (ts ! i)"
  shows "waits_ok sh' (ts[i := q])"
proof -
  have "tsum (is_barrier j) (dq_items sh') + tsum (q_tok j) (ts[i := q]) =
      tsum (is_barrier j) (dq_items sh) + tsum (q_tok j) ts" for j
    using assms(5) [of j] by (simp add: tsum_update [OF assms(2)])
  moreover have "map q_waits (ts[i := q]) = map q_waits ts"
    using assms(2,4) list_update_id [of "map q_waits ts" i] by (simp add: map_update)
  ultimately show ?thesis
    using assms(1,3) by (simp add: waits_ok_def)
qed

lemma exec_waits_ok:
  assumes ok: "queue_ok sh ts refs susp" and i: "i < length ts" and cur: "cur \<longrightarrow> list_ex current ts"
    and ex: "queue_exec cur i sh (ts ! i) = Goes_on sh' q"
  shows "waits_ok sh' (ts[i := q])"
proof -
  note w = queue_okD(7) [OF ok]
  note s = queue_okD(1) [OF ok, unfolded sh_ok_def]
  note frame = waits_ok_frame [OF w i]
  note simps = waits_ok_def tsum_update [OF i] map_update sem_at_update
  have at: "sem_at (map q_waits ts) i = q_waits (ts ! i)" "sem_at (dq_semas sh) i = dq_semas sh ! i"
    using i s by (simp_all add: sem_at_def)
  have w_at: "tsum (is_barrier j) (dq_items sh) + tsum (q_tok j) ts + sem_at (dq_semas sh) j =
      sem_at (map q_waits ts) j \<and> 0 \<le> sem_at (dq_semas sh) j" for j
    using w by (simp add: waits_ok_def)
  show ?thesis
  proof (cases "ts ! i")
    case (Q_push it a)
    then have pc: "q_pc_ok i (Q_push it a)"
      using s i by metis
    show ?thesis
      unfolding waits_ok_def
    proof
      fix j
      show "tsum (is_barrier j) (dq_items sh') + tsum (q_tok j) (ts[i := q]) + sem_at (dq_semas sh') j =
          sem_at (map q_waits (ts[i := q])) j \<and> 0 \<le> sem_at (dq_semas sh') j"
        using ex pc Q_push at i w_at [of j] by (cases it) (auto simp: simps is_barrier_def split: if_splits)
    qed
  next
    case (Q_call tq it)
    then show ?thesis
      using ex by (cases it) (auto simp: queue_exec_simps is_barrier_def intro!: frame)
  next
    case (Q_call_signal tq k)
    have k: "k < length ts" "sem_at (dq_semas sh) k = 0" "dq_semas sh ! k = 0"
      using waits_tok [OF w _ i, of k] s Q_call_signal by (auto simp: sem_at_def)
    show ?thesis
      unfolding waits_ok_def
    proof
      fix j
      show "tsum (is_barrier j) (dq_items sh') + tsum (q_tok j) (ts[i := q]) + sem_at (dq_semas sh') j =
          sem_at (map q_waits (ts[i := q])) j \<and> 0 \<le> sem_at (dq_semas sh') j"
        using ex Q_call_signal at s i k w_at [of j] by (auto simp: simps split: if_splits)
    qed
  next
    case (Q_wait f)
    show ?thesis
      unfolding waits_ok_def
    proof
      fix j
      show "tsum (is_barrier j) (dq_items sh') + tsum (q_tok j) (ts[i := q]) + sem_at (dq_semas sh') j =
          sem_at (map q_waits (ts[i := q])) j \<and> 0 \<le> sem_at (dq_semas sh') j"
        using ex Q_wait at s i w_at [of j] by (auto simp: simps split: if_splits)
    qed
  qed (use ex cur s in \<open>auto simp: queue_exec_simps exec_eqs [OF ok i] q_client_def intro!: frame split: if_splits list.splits\<close>)
qed

lemma exec_no_crash:
  assumes ok: "queue_ok sh ts refs susp" and i: "i < length ts" and cur: "cur \<longrightarrow> list_ex current ts"
  shows "queue_exec cur i sh (ts ! i) \<noteq> Crashed e"
proof (cases "ts ! i")
  case (Q_call tq it)
  then show ?thesis
    by (cases it) simp_all
qed (use cur queue_okD(1) [OF ok, unfolded sh_ok_def] in
    \<open>auto simp: queue_exec_simps exec_eqs [OF ok i] q_client_def split: list.splits\<close>)

lemma exec_ok:
  assumes "queue_ok sh ts refs susp" "i < length ts" "cur \<longrightarrow> list_ex current ts"
    and "queue_exec cur i sh (ts ! i) = Goes_on sh' q"
  shows "queue_ok sh' (ts[i := q]) (refs + (if is_client (ts ! i) \<and> \<not> is_client q then 1 else 0)) susp"
  unfolding queue_ok_def
  using exec_sh_ok [OF assms] exec_lock_ok [OF assms] exec_pub_ok [OF assms] exec_wake_ok [OF assms]
    exec_fifo_ok [OF assms] exec_refs_ok [OF assms] exec_waits_ok [OF assms] by blast

lemma call_ok:
  assumes ok: "queue_ok sh ts refs susp" and i: "i < length ts" "ts ! i = Q_idle" and r: "1 \<le> refs"
    and pc: "pc = Q_push (Async f) Return \<or> pc = Q_push (Set_target tq) Return \<or> pc = Q_sync_tail f"
  shows "queue_ok sh (ts[i := pc]) (refs - 1) susp"
proof -
  have "sh_ok sh (ts[i := pc])"
    using queue_okD(1) [OF ok] i pc by (auto simp: sh_ok_def nth_list_update)
  moreover have "lock_ok sh (ts[i := pc]) susp"
    using pc i by (intro lock_ok_frame [OF queue_okD(2) [OF ok] i(1)]) auto
  moreover have "pub_ok sh (ts[i := pc])"
    using queue_okD(3) [OF ok] pc i by (auto simp: pub_ok_def tsum_update)
  moreover have "wake_ok sh (ts[i := pc])"
    using pc i by (intro wake_ok_frame [OF queue_okD(4) [OF ok] i(1)]) auto
  moreover have "fifo_ok sh (ts[i := pc])"
    using pc i by (intro fifo_ok_frame [OF queue_okD(5) [OF ok] i(1)]) auto
  moreover have "q_refs_ok sh (ts[i := pc]) (refs - 1) susp"
    using queue_okD(6) [OF ok] pc i r by (auto simp: q_refs_ok_def tsum_update q_client_def)
  moreover have "waits_ok sh (ts[i := pc])"
    using pc i by (intro waits_ok_frame [OF queue_okD(7) [OF ok] i(1)]) auto
  ultimately show ?thesis
    by (simp add: queue_ok_def)
qed

lemma client_xref:
  assumes "queue_ok sh ts refs susp" "1 \<le> refs"
  shows "1 \<le> do_xref_cnt (dq_obj sh)" "refs \<le> do_xref_cnt (dq_obj sh)"
  using queue_okD(6) [OF assms(1)] assms(2) q_sums(11) [of ts] by (simp_all add: q_refs_ok_def)

lemma suspend_count_nonneg: "queue_ok sh ts refs susp \<Longrightarrow> 0 \<le> do_suspend_cnt (dq_obj sh)"
  using queue_okD(2) [of sh ts refs susp] barriers_nonneg [OF queue_okD(7), of sh ts refs susp] q_sums(1) [of ts]
    enq_range(1) [of sh] by (simp add: lock_ok_def)

lemma suspend_ok:
  assumes ok: "queue_ok sh ts refs susp" and r: "1 \<le> refs"
  shows "queue_ok (upd_obj dispatch_suspend sh) ts refs (susp + 1)"
proof -
  let ?sh = "sh\<lparr>dq_obj := (dq_obj sh)\<lparr>do_suspend_cnt := do_suspend_cnt (dq_obj sh) + 2\<rparr>\<rparr>"
  have "wake_ok ?sh ts"
    using suspend_count_nonneg [OF ok] by (simp add: wake_ok_suspended)
  moreover have "lock_ok ?sh ts (susp + 1)"
    using queue_okD(2) [OF ok] by (simp add: lock_ok_def barriers_def enq_def)
  moreover have "q_refs_ok ?sh ts refs (susp + 1)"
    using queue_okD(6) [OF ok] client_xref [OF ok r] by (simp add: q_refs_ok_def enq_def)
  ultimately have "queue_ok ?sh ts refs (susp + 1)"
    using ok by (simp add: queue_ok_def sh_ok_def pub_ok_def fifo_ok_def waits_ok_def)
  then show ?thesis
    using ref_range(1) [OF ok]
    by (simp add: upd_obj_def dispatch_suspend_def DISPATCH_OBJECT_SUSPEND_INTERVAL_def)
qed

lemma retain_ok:
  assumes ok: "queue_ok sh ts refs susp" and r: "1 \<le> refs"
    and b: "do_xref_cnt (dq_obj sh) + 1 < DISPATCH_OBJECT_GLOBAL_REFCNT" and dq: "dispatch_retain (dq_obj sh) = Ok dq"
  shows "queue_ok (sh\<lparr>dq_obj := dq\<rparr>) ts (refs + 1) susp"
proof -
  have dq: "dq = (dq_obj sh)\<lparr>do_xref_cnt := do_xref_cnt (dq_obj sh) + 1\<rparr>"
    using dq b by (auto simp: dispatch_retain_def Let_def split: if_splits)
  have "q_refs_ok (sh\<lparr>dq_obj := dq\<rparr>) ts (refs + 1) susp"
    using queue_okD(6) [OF ok] client_xref [OF ok r] b unfolding dq q_refs_ok_def enq_def by auto
  then show ?thesis
    using ok unfolding dq
    by (simp add: queue_ok_def sh_ok_def lock_ok_def pub_ok_def wake_ok_def fifo_ok_def waits_ok_def barriers_def enq_def)
qed

lemma invoke_ok:
  assumes ok: "queue_ok sh ts refs susp" and i: "i < length ts" "ts ! i = Q_idle" and e: "dq_enqueued sh \<noteq> None"
  shows "queue_ok (sh\<lparr>dq_enqueued := None\<rparr>) (ts[i := Q_invoke]) refs susp"
proof -
  let ?sh = "sh\<lparr>dq_enqueued := None\<rparr>"
  have e1: "enq sh = 1" "enq ?sh = 0"
    using e by (auto simp: enq_def)
  have "sh_ok ?sh (ts[i := Q_invoke])"
    using queue_okD(1) [OF ok] i by (auto simp: sh_ok_def nth_list_update)
  moreover have "lock_ok ?sh (ts[i := Q_invoke]) susp"
    using queue_okD(2) [OF ok] i e1 by (simp add: lock_ok_def barriers_def tsum_update)
  moreover have "pub_ok ?sh (ts[i := Q_invoke])"
    using queue_okD(3) [OF ok] i by (auto simp: pub_ok_def tsum_update)
  moreover have "wake_ok ?sh (ts[i := Q_invoke])"
    using i by (simp add: wake_ok_carrier)
  moreover have "fifo_ok ?sh (ts[i := Q_invoke])"
    using i by (intro fifo_ok_frame [OF queue_okD(5) [OF ok] i(1)]) auto
  moreover have "q_refs_ok ?sh (ts[i := Q_invoke]) refs susp"
    using queue_okD(6) [OF ok] i e1 by (auto simp: q_refs_ok_def tsum_update q_client_def)
  moreover have "waits_ok ?sh (ts[i := Q_invoke])"
    using i by (intro waits_ok_frame [OF queue_okD(7) [OF ok] i(1)]) auto
  ultimately show ?thesis
    by (simp add: queue_ok_def)
qed

lemma resume_call_eq:
  assumes ok: "queue_ok sh ts refs susp" and s: "1 \<le> susp"
  shows "queue_resume sh = Goes_on (upd_obj (do_suspend_cnt_update (\<lambda>c. c - 2)) sh)
    (if do_suspend_cnt (dq_obj sh) = 2 then Q_wakeup K_return else Q_idle)"
  using resume_eq [OF queue_okD(2) [OF ok] ref_range(1) [OF ok]] barriers_nonneg [OF queue_okD(7) [OF ok]] s by simp

lemma resume_ok:
  assumes ok: "queue_ok sh ts refs susp" and i: "i < length ts" "ts ! i = Q_idle" and r: "1 \<le> refs" and s: "1 \<le> susp"
    and ex: "queue_resume sh = Goes_on sh' q"
  shows "queue_ok sh' (ts[i := q]) (refs - 1 + (if \<not> is_client q then 1 else 0)) (susp - 1)"
proof -
  have sh': "sh' = sh\<lparr>dq_obj := do_suspend_cnt_update (\<lambda>c. c - 2) (dq_obj sh)\<rparr>"
    and q: "q = (if do_suspend_cnt (dq_obj sh) = 2 then Q_wakeup K_return else Q_idle)"
    using ex resume_call_eq [OF ok s] by (auto simp: upd_obj_def)
  have pc: "q = Q_wakeup K_return \<or> q = Q_idle"
    by (simp add: q)
  note l = queue_okD(2) [OF ok, unfolded lock_ok_def] and b = barriers_nonneg [OF queue_okD(7) [OF ok]]
  have c: "do_suspend_cnt (dq_obj sh) = 2 \<or> do_suspend_cnt (dq_obj sh) = 3 \<and> enq sh + tsum q_locks ts = 1 \<or>
      4 \<le> do_suspend_cnt (dq_obj sh)"
    using l b s q_sums(1) [of ts] enq_range(1) [of sh] by presburger
  have "wake_ok sh' (ts[i := q])"
  proof (cases "q = Q_idle")
    case True
    have "wake_ok sh' ts"
    proof (cases "4 \<le> do_suspend_cnt (dq_obj sh)")
      case False
      have "tsum q_locks ts \<le> tsum q_carries ts"
        by (simp add: tsum_mono q_compare)
      then show ?thesis
        using c False True q by (auto simp: wake_ok_def sh' enq_def split: if_splits)
    qed (simp add: wake_ok_suspended sh')
    then show ?thesis
      using True list_update_id [of ts i] i by simp
  qed (use pc i in \<open>auto simp: wake_ok_carrier\<close>)
  moreover have "sh_ok sh' (ts[i := q])"
    using queue_okD(1) [OF ok] i pc by (auto simp: sh_ok_def nth_list_update sh')
  moreover have "lock_ok sh' (ts[i := q]) (susp - 1)"
    using l i pc s by (auto simp: lock_ok_def barriers_def tsum_update sh' enq_def)
  moreover have "pub_ok sh' (ts[i := q])"
    using queue_okD(3) [OF ok] pc i by (auto simp: pub_ok_def tsum_update sh')
  moreover have "fifo_ok sh' (ts[i := q])"
    using pc i by (intro fifo_ok_frame [OF queue_okD(5) [OF ok] i(1)]) (auto simp: sh')
  moreover have "q_refs_ok sh' (ts[i := q]) (refs - 1 + (if \<not> is_client q then 1 else 0)) (susp - 1)"
    using queue_okD(6) [OF ok] client_xref [OF ok r] pc i r by (auto simp: q_refs_ok_def tsum_update q_client_def sh' enq_def)
  moreover have "waits_ok sh' (ts[i := q])"
    using pc i by (intro waits_ok_frame [OF queue_okD(7) [OF ok] i(1)]) (auto simp: sh')
  ultimately show ?thesis
    by (simp add: queue_ok_def)
qed

text \<open>
  A client gives a reference back: the queue lives on, or it is freed, or the client's error of releasing
  the last reference of a suspended queue stops the program.
\<close>

lemma release_count_ok:
  assumes ok: "queue_ok sh ts refs susp" and i: "i < length ts" "ts ! i = Q_idle" and r: "1 \<le> refs"
    and x: "do_xref_cnt (dq_obj sh) = 1" and c: "do_suspend_cnt (dq_obj sh) < 2" and cur: "cur \<longrightarrow> list_ex current ts"
  shows "queue_release cur (sh\<lparr>dq_obj := (dq_obj sh)\<lparr>do_xref_cnt := 0\<rparr>\<rparr>) Q_idle =
    Goes_on (sh\<lparr>dq_obj := (dq_obj sh)\<lparr>do_ref_cnt := do_ref_cnt (dq_obj sh) - 1, do_xref_cnt := 0\<rparr>,
      dq_freed := (do_ref_cnt (dq_obj sh) = 1)\<rparr>) Q_idle"
proof -
  note rf = queue_okD(6) [OF ok, unfolded q_refs_ok_def]
  have X: "tsum q_client ts = 0"
    using rf x r q_sums(11) [of ts] by simp
  have ref: "do_ref_cnt (dq_obj sh) = 1 + enq sh + tsum q_holds ts"
    using rf x by simp
  show ?thesis
  proof (cases "do_ref_cnt (dq_obj sh) = 1")
    case True
    then have "enq sh = 0" "tsum q_holds ts = 0"
      using ref enq_range [of sh] q_sums(8) [of ts] by simp_all
    then have "dq_items sh = [] \<and> do_next (dq_obj sh) = Listless \<and> \<not> list_ex current ts"
      using last_reference_gone [OF ok i(1)] X c i by (simp add: q_client_def)
    then show ?thesis
      using True cur by (simp add: queue_release_def release_count_def u_dispatch_queue_dispose_def
          DISPATCH_OBJECT_GLOBAL_REFCNT_def)
  next
    case False
    then show ?thesis
      using ref rf ref_range [OF ok] enq_range [of sh] q_sums(8) [of ts]
      by (simp add: queue_release_def release_count_def Let_def)
  qed
qed

lemma release_ok:
  assumes ok: "queue_ok sh ts refs susp" and i: "i < length ts" "ts ! i = Q_idle" and r: "1 \<le> refs"
    and cur: "cur \<longrightarrow> list_ex current ts"
  shows "case queue_client_release cur sh of
      Stuck \<Rightarrow> False
    | Crashed e \<Rightarrow> e = Client_crash ''Release of a suspended object''
    | Goes_on sh' q \<Rightarrow> q = Q_idle \<and> queue_ok sh' ts (refs - 1) susp"
proof -
  note x = client_xref [OF ok r] and rf = queue_okD(6) [OF ok, unfolded q_refs_ok_def]
  have frame: "queue_ok sh' ts (refs - 1) susp"
    if sh': "sh' = sh\<lparr>dq_obj := (dq_obj sh)\<lparr>do_ref_cnt := n, do_xref_cnt := do_xref_cnt (dq_obj sh) - 1\<rparr>, dq_freed := (n = 0)\<rparr>"
      and n: "n = do_ref_cnt (dq_obj sh) - (if do_xref_cnt (dq_obj sh) = 1 then 1 else 0)"
      and s: "do_xref_cnt (dq_obj sh) = 1 \<longrightarrow> susp = 0" for sh' n
  proof -
    have "q_refs_ok sh' ts (refs - 1) susp"
      using rf x r s n unfolding sh' q_refs_ok_def enq_def by auto
    then show ?thesis
      using ok unfolding sh'
      by (simp add: queue_ok_def sh_ok_def lock_ok_def pub_ok_def wake_ok_def fifo_ok_def waits_ok_def barriers_def enq_def)
  qed
  show ?thesis
  proof (cases "do_xref_cnt (dq_obj sh) = 1")
    case True
    show ?thesis
    proof (cases "do_suspend_cnt (dq_obj sh) < 2")
      case c: True
      have "susp = 0"
        using c queue_okD(2) [OF ok] barriers_nonneg [OF queue_okD(7) [OF ok]] q_sums(1) [of ts] enq_range(1) [of sh]
        unfolding lock_ok_def by auto
      then have "queue_ok (sh\<lparr>dq_obj := (dq_obj sh)\<lparr>do_ref_cnt := do_ref_cnt (dq_obj sh) - 1, do_xref_cnt := 0\<rparr>,
          dq_freed := (do_ref_cnt (dq_obj sh) = 1)\<rparr>) ts (refs - 1) susp"
        using True by (intro frame [of _ "do_ref_cnt (dq_obj sh) - 1"]) simp_all
      moreover have "xrelease_count (dq_obj sh) = Ok ((dq_obj sh)\<lparr>do_xref_cnt := 0\<rparr>, Xrelease_internal)"
        using True c queue_okD(1) [OF ok]
        by (simp add: xrelease_count_def sh_ok_def DISPATCH_OBJECT_SUSPENDED_def DISPATCH_OBJECT_SUSPEND_INTERVAL_def
            DISPATCH_OBJECT_GLOBAL_REFCNT_def)
      ultimately show ?thesis
        using release_count_ok [OF ok i r True c cur] by (simp add: queue_client_release_def)
    next
      case False
      then show ?thesis
        using True queue_okD(1) [OF ok] rf
        by (auto simp: queue_client_release_def xrelease_count_def sh_ok_def DISPATCH_OBJECT_SUSPENDED_def
            DISPATCH_OBJECT_SUSPEND_INTERVAL_def)
    qed
  next
    case False
    then have "queue_ok (sh\<lparr>dq_obj := (dq_obj sh)\<lparr>do_xref_cnt := do_xref_cnt (dq_obj sh) - 1\<rparr>\<rparr>) ts (refs - 1) susp"
      using rf by (intro frame [of _ "do_ref_cnt (dq_obj sh)"]) simp_all
    moreover have "xrelease_count (dq_obj sh) =
        Ok ((dq_obj sh)\<lparr>do_xref_cnt := do_xref_cnt (dq_obj sh) - 1\<rparr>, Xrelease_return)"
      using False x rf by (simp add: xrelease_count_def)
    ultimately show ?thesis
      by (simp add: queue_client_release_def)
  qed
qed

lemma create_fields:
  assumes "dispatch_queue_create True serial label = Some dq"
  shows "do_vtable dq = Queue_vtable" "do_next dq = Listless" "do_ref_cnt dq = 1" "do_xref_cnt dq = 1"
    "do_suspend_cnt dq = 0" "do_targetq dq = Some 3" "dq_running dq = 0" "dq_width dq = 1"
  using assms by (auto simp: dispatch_queue_create_def u_dispatch_queue_init_def u_dispatch_get_root_queue_def
      DISPATCH_QUEUE_PRIORITY_LOW_def DISPATCH_QUEUE_PRIORITY_DEFAULT_def)

lemma queue_inv_init:
  assumes "queue_init s"
  shows "queue_inv s"
proof -
  have idle: "p = Q_idle" if "p \<in> set (qs_threads s)" for p
    using assms that by (auto simp: queue_init_def)
  have z: "tsum f (qs_threads s) = 0" if "f Q_idle = 0" for f
    using that idle by (metis tsum_eq_0I)
  obtain serial label where "dispatch_queue_create True serial label = Some (dq_obj (qs_sh s))"
    using assms by (auto simp: queue_init_def)
  note obj = create_fields [OF this]
  have at: "qs_threads s ! i = Q_idle" if "i < length (qs_threads s)" for i
    using idle [OF nth_mem [OF that]] .
  have "sem_at (map q_waits (qs_threads s)) i = 0" for i
    using at by (simp add: sem_at_def)
  moreover have "concat (map q_in_hand (qs_threads s)) = []"
    by (auto dest: idle)
  moreover have "q_pc_ok i (qs_threads s ! i)" if "i < length (qs_threads s)" for i
    using at [OF that] by simp
  ultimately have "queue_ok (qs_sh s) (qs_threads s) 1 0"
    using assms obj
    by (simp add: queue_init_def queue_ok_def sh_ok_def lock_ok_def pub_ok_def wake_ok_def fifo_ok_def
        q_refs_ok_def waits_ok_def barriers_def enq_def sum_semas_def sem_at_def z q_client_def DISPATCH_OBJECT_GLOBAL_REFCNT_def)
  then show ?thesis
    using assms by (simp add: queue_inv_def queue_init_def)
qed

lemma queue_inv_step:
  assumes inv: "queue_inv s" and step: "queue_step s t"
  shows "queue_inv t"
  using step
proof cases
  case (call_async i f)
  then show ?thesis
    using inv call_ok [of "qs_sh s" "qs_threads s" "qs_refs s" "qs_susp s" i "Q_push (Async f) Return" f 0]
    by (simp add: queue_inv_def idle_at_def set_pc_def borrow_def)
next
  case (call_sync i f)
  then show ?thesis
    using inv call_ok [of "qs_sh s" "qs_threads s" "qs_refs s" "qs_susp s" i "Q_sync_tail f" f 0]
    by (simp add: queue_inv_def idle_at_def set_pc_def borrow_def)
next
  case (call_set_target_queue i tq)
  then show ?thesis
    using inv call_ok [of "qs_sh s" "qs_threads s" "qs_refs s" "qs_susp s" i "Q_push (Set_target tq) Return" 0 tq]
    by (simp add: queue_inv_def idle_at_def set_pc_def borrow_def)
next
  case call_suspend
  then show ?thesis
    using inv suspend_ok [of "qs_sh s" "qs_threads s" "qs_refs s" "qs_susp s"] by (simp add: queue_inv_def upd_sh_def)
next
  case (call_resume i)
  then have ok: "queue_ok (qs_sh s) (qs_threads s) (qs_refs s) (qs_susp s)" and i: "i < length (qs_threads s)"
    "qs_threads s ! i = Q_idle" and nc: "qs_crashed s = None"
    using inv by (simp_all add: queue_inv_def idle_at_def)
  obtain sh' q where ex: "queue_resume (qs_sh s) = Goes_on sh' q"
    using resume_call_eq [OF ok] call_resume(3) by blast
  show ?thesis
    using call_resume(2-4) nc resume_ok [OF ok i call_resume(2,3) ex] unfolding ex
    by (auto simp: queue_inv_def borrow_def)
next
  case (call_retain dq)
  then show ?thesis
    using inv retain_ok [of "qs_sh s" "qs_threads s" "qs_refs s" "qs_susp s" dq]
    by (simp add: queue_inv_def upd_sh_def upd_obj_def)
next
  case (call_release i cur)
  then have ok: "queue_ok (qs_sh s) (qs_threads s) (qs_refs s) (qs_susp s)" and i: "i < length (qs_threads s)"
    "qs_threads s ! i = Q_idle" and nc: "qs_crashed s = None"
    using inv by (simp_all add: queue_inv_def idle_at_def)
  show ?thesis
    using call_release(4) nc release_ok [OF ok i call_release(2,3)] list_update_id [of "qs_threads s" i] i
    by (cases "queue_client_release cur (qs_sh s)") (auto simp: queue_inv_def borrow_def)
next
  case (call_invoke i)
  then show ?thesis
    using inv invoke_ok [of "qs_sh s" "qs_threads s" "qs_refs s" "qs_susp s" i]
    by (simp add: queue_inv_def idle_at_def set_pc_def upd_sh_def)
next
  case (run i cur)
  then have ok: "queue_ok (qs_sh s) (qs_threads s) (qs_refs s) (qs_susp s)"
    using inv by (simp add: queue_inv_def)
  show ?thesis
  proof (cases "queue_exec cur i (qs_sh s) (qs_threads s ! i)")
    case (Goes_on sh' q)
    then show ?thesis
      using run exec_ok [OF ok run(2,3) Goes_on] by (auto simp: queue_inv_def)
  qed (use run exec_no_crash [OF ok run(2,3)] in auto)
qed

interpretation serial_queue: invariant_system queue_init queue_step queue_inv
  by unfold_locales (auto intro: queue_inv_init queue_inv_step)

section \<open>Runs\<close>

text \<open>An executable form of the steps, for concrete runs.\<close>

datatype qact =
    Do_async nat nat
  | Do_sync nat nat
  | Do_suspend
  | Do_resume nat
  | Do_retain
  | Do_release nat
  | Do_invoke nat
  | Do_run nat

fun queue_act :: "qact \<Rightarrow> qsys \<Rightarrow> qsys option" where
  "queue_act (Do_async i f) s =
     (if idle_at s i \<and> qs_refs s \<ge> 1 then Some (set_pc i (Q_push (Async f) Return) (borrow s)) else None)"
| "queue_act (Do_sync i f) s =
     (if idle_at s i \<and> qs_refs s \<ge> 1 then Some (set_pc i (Q_sync_tail f) (borrow s)) else None)"
| "queue_act Do_suspend s =
     (if qs_crashed s = None \<and> qs_refs s \<ge> 1
      then Some (upd_sh (upd_obj dispatch_suspend) s\<lparr>qs_susp := qs_susp s + 1\<rparr>) else None)"
| "queue_act (Do_resume i) s =
     (if idle_at s i \<and> qs_refs s \<ge> 1 \<and> qs_susp s \<ge> 1
      then queue_effect i Q_resume (borrow s\<lparr>qs_susp := qs_susp s - 1\<rparr>) (queue_resume (qs_sh s)) else None)"
| "queue_act Do_retain s =
     (if qs_crashed s = None \<and> qs_refs s \<ge> 1 \<and> do_xref_cnt (dq_obj (qs_sh s)) + 1 < DISPATCH_OBJECT_GLOBAL_REFCNT
      then (case dispatch_retain (dq_obj (qs_sh s)) of
              Inl e \<Rightarrow> None
            | Inr dq \<Rightarrow> Some (upd_sh (upd_obj (\<lambda>_. dq)) s\<lparr>qs_refs := qs_refs s + 1\<rparr>))
      else None)"
| "queue_act (Do_release i) s =
     (if idle_at s i \<and> qs_refs s \<ge> 1
      then queue_effect i Q_idle (borrow s) (queue_client_release False (qs_sh s)) else None)"
| "queue_act (Do_invoke i) s =
     (if idle_at s i \<and> dq_enqueued (qs_sh s) \<noteq> None
      then Some (set_pc i Q_invoke (upd_sh (dq_enqueued_update (\<lambda>_. None)) s)) else None)"
| "queue_act (Do_run i) s =
     (if qs_crashed s = None \<and> i < length (qs_threads s)
      then queue_effect i (qs_threads s ! i) s (queue_exec False i (qs_sh s) (qs_threads s ! i)) else None)"

fun queue_acts :: "qact list \<Rightarrow> qsys \<Rightarrow> qsys option" where
  "queue_acts [] s = Some s"
| "queue_acts (a # as) s = (case queue_act a s of None \<Rightarrow> None | Some t \<Rightarrow> queue_acts as t)"

lemma queue_act_step:
  assumes "queue_act a s = Some t"
  shows "queue_step s t"
proof (cases a)
  case (Do_async i f)
  then show ?thesis
    using assms call_async [of s i f] by (simp split: if_splits)
next
  case (Do_sync i f)
  then show ?thesis
    using assms call_sync [of s i f] by (simp split: if_splits)
next
  case Do_suspend
  then show ?thesis
    using assms call_suspend [of s] by (simp split: if_splits)
next
  case (Do_resume i)
  then show ?thesis
    using assms call_resume [of s i t] by (simp split: if_splits)
next
  case Do_retain
  then show ?thesis
    using assms by (auto intro: call_retain split: if_splits sum.splits)
next
  case (Do_release i)
  then show ?thesis
    using assms call_release [of s i False t] by (simp split: if_splits)
next
  case (Do_invoke i)
  then show ?thesis
    using assms call_invoke [of s i] by (simp split: if_splits)
next
  case (Do_run i)
  then show ?thesis
    using assms run [of s i False t] by (simp split: if_splits)
qed

lemma queue_acts_reach: "queue_acts as s = Some t \<Longrightarrow> reach queue_init queue_step s \<Longrightarrow> reach queue_init queue_step t"
proof (induction as arbitrary: s)
  case (Cons a as)
  then show ?case
    using queue_act_step [of a s] by (auto split: option.splits intro: reach_step)
qed simp

definition queue_start :: "nat \<Rightarrow> qsys" where
  "queue_start n =
     \<lparr>qs_sh = \<lparr>dq_obj = u_dispatch_queue_init 10, dq_items = [], dq_head_set = True, dq_enqueued = None,
        dq_semas = replicate n 0, dq_freed = False, dq_submitted = [], dq_started = [], dq_released = []\<rparr>,
      qs_threads = replicate n Q_idle, qs_refs = 1, qs_susp = 0, qs_crashed = None\<rparr>"

lemma queue_start_reach: "2 * int n + 2 < DISPATCH_OBJECT_GLOBAL_REFCNT \<Longrightarrow> reach queue_init queue_step (queue_start n)"
  by (rule reach_init)
    (auto simp: queue_init_def queue_start_def dispatch_queue_create_def u_dispatch_queue_init_def intro!: exI [of _ 10] exI [of _ None])

text \<open>
  Thread 3 enters \<open>dispatch_sync_f\<close> and passes the tests of the fast path.  Thread 0 submits a function,
  thread 1 takes the queue and runs it, thread 2 calls \<open>dispatch_sync_f\<close> and waits on the slow path.
\<close>

definition queue_example :: "qact list" where
  "queue_example =
     replicate 2 Do_retain @ Do_sync 3 9 # replicate 2 (Do_run 3) @ Do_async 0 7 # replicate 9 (Do_run 0) @
     Do_invoke 1 # replicate 4 (Do_run 1) @ Do_sync 2 8 # replicate 10 (Do_run 2)"

text \<open>Thread 1 then reaches the continuation of thread 2, and both callers run their functions.\<close>

definition queue_overlap :: "qact list" where
  "queue_overlap = queue_example @ replicate 7 (Do_run 1) @ [Do_run 2, Do_run 3]"

text \<open>Everything runs to the end.\<close>

definition queue_finish :: "qact list" where
  "queue_finish = queue_overlap @ replicate 2 (Do_run 2) @ replicate 4 (Do_run 3) @ replicate 6 (Do_run 1)"

text \<open>
  Thread 1 runs a function when thread 2 submits another one and stops after it has written the head of the
  list.  Thread 1 takes that function too, which gives back the references of all clients (as
  thread 3), and leaves the queue.  Only the reference that thread 2 has taken before it wrote the head keeps
  the queue, and thread 2 frees it at the end of its call.
\<close>

definition queue_preempted :: "qact list" where
  "queue_preempted =
     Do_retain # Do_async 0 7 # replicate 9 (Do_run 0) @ Do_invoke 1 # replicate 4 (Do_run 1) @
     Do_async 2 8 # replicate 3 (Do_run 2) @ replicate 3 (Do_run 1) @ replicate 2 (Do_release 3) @ replicate 9 (Do_run 1)"

definition queue_handed_over :: "qact list" where
  "queue_handed_over = queue_preempted @ replicate 3 (Do_run 2)"

definition queue_end :: "qact list \<Rightarrow> qsys" where
  "queue_end as = (case queue_acts as (queue_start 4) of Some s \<Rightarrow> s | None \<Rightarrow> queue_start 4)"

lemma queue_end_reach: "reach queue_init queue_step (queue_end as)"
  using queue_acts_reach [OF _ queue_start_reach [of 4]]
  by (auto simp: queue_end_def DISPATCH_OBJECT_GLOBAL_REFCNT_def queue_start_reach split: option.splits)

section \<open>Properties\<close>

lemma reach_queue_ok: "reach queue_init queue_step s \<Longrightarrow> qs_crashed s = None \<Longrightarrow>
    queue_ok (qs_sh s) (qs_threads s) (qs_refs s) (qs_susp s)"
  using serial_queue.reachable_inv [of s] by (simp add: queue_inv_def)

lemma exec_stuck:
  assumes ok: "queue_ok sh ts refs susp" and i: "i < length ts" and st: "queue_exec False i sh (ts ! i) = Stuck"
  shows "ts ! i = Q_idle \<or> (\<exists>f. ts ! i = Q_wait f) \<and> dq_semas sh ! i \<le> 0 \<or>
    q_runs (ts ! i) = 1 \<and> dq_items sh \<noteq> [] \<and> \<not> dq_head_set sh"
proof -
  note s = queue_okD(1) [OF ok, unfolded sh_ok_def]
  have "q_pc_ok i (ts ! i)"
    using s i by simp
  then show ?thesis
  proof (cases "ts ! i")
    case (Q_call tq it)
    then show ?thesis
      using st by (cases it) simp_all
  qed (use st s in \<open>auto simp: queue_exec_simps exec_eqs [OF ok i] q_client_def split: if_splits list.splits\<close>)
qed

text \<open>When no thread can move, every thread is idle or waits for a semaphore that is down.\<close>

lemma quiet_threads:
  assumes ok: "queue_ok sh ts refs susp" and st: "\<And>i. i < length ts \<Longrightarrow> queue_exec False i sh (ts ! i) = Stuck"
    and i: "i < length ts"
  shows "ts ! i = Q_idle \<or> (\<exists>f. ts ! i = Q_wait f) \<and> dq_semas sh ! i \<le> 0"
proof (rule ccontr)
  assume "\<not> ?thesis"
  then have "\<not> dq_head_set sh"
    using exec_stuck [OF ok i st [OF i]] by blast
  then have "0 < tsum q_unpub ts"
    using queue_okD(3) [OF ok] q_sums(6) [of ts] unfolding pub_ok_def by auto
  then obtain j where j: "j < length ts" "q_unpub (ts ! j) \<noteq> 0"
    using tsum_pos_member [of q_unpub ts] by blast
  then show False
    using exec_stuck [OF ok j(1) st [OF j(1)]] by (cases "ts ! j") auto
qed

lemma quiet_idle:
  assumes ok: "queue_ok sh ts refs 0" and st: "\<And>i. i < length ts \<Longrightarrow> queue_exec False i sh (ts ! i) = Stuck"
    and e: "dq_enqueued sh = None"
  shows "dq_items sh = [] \<and> (\<forall>i<length ts. ts ! i = Q_idle)"
proof -
  have q: "ts ! i = Q_idle \<or> (\<exists>f. ts ! i = Q_wait f) \<and> dq_semas sh ! i \<le> 0" if "i < length ts" for i
    using quiet_threads [OF ok _ that] st by blast
  note w = queue_okD(7) [OF ok, unfolded waits_ok_def, rule_format] and s = queue_okD(1) [OF ok, unfolded sh_ok_def]
  have z: "tsum f ts = 0" if "f Q_idle = 0" "\<And>g. f (Q_wait g) = 0" for f
  proof (rule tsum_eq_0I)
    fix p
    assume "p \<in> set ts"
    then obtain i where "i < length ts" "p = ts ! i"
      by (auto simp: in_set_conv_nth)
    then show "f p = 0"
      using q [of i] that by auto
  qed
  have sem: "dq_semas sh ! i = 0" if "i < length ts" for i
    using w [of i] q [OF that] that s z [of "q_tok i"] tsum_nonneg [of "dq_items sh" "is_barrier i"]
    by (auto simp: sem_at_def)
  have "sum_semas (dq_semas sh) = 0"
    unfolding sum_semas_def using sem s by (intro tsum_eq_0I) (auto simp: in_set_conv_nth)
  then have "do_suspend_cnt (dq_obj sh) = 0"
    using queue_okD(2) [OF ok] e by (simp add: lock_ok_def barriers_def z enq_def)
  then have items: "dq_items sh = []"
    using queue_okD(4) [OF ok] e by (auto simp: wake_ok_def z enq_def)
  have "ts ! i = Q_idle" if i: "i < length ts" for i
  proof (rule ccontr)
    assume "ts ! i \<noteq> Q_idle"
    then obtain f where "ts ! i = Q_wait f"
      using q [OF i] by blast
    then show False
      using w [of i] sem [OF i] i s items z [of "q_tok i"] by (simp add: sem_at_def)
  qed
  with items show ?thesis
    by blast
qed

text \<open>Who is running a function: one taken from the list, or one run with \<open>dq_running\<close> held.\<close>

fun runs_listed :: "qpc \<Rightarrow> int" where
  "runs_listed (Q_call _ (Async _)) = 1"
| "runs_listed (Q_wait_func _) = 1"
| "runs_listed _ = 0"

fun runs_locked :: "qpc \<Rightarrow> int" where
  "runs_locked (Q_call _ (Async _)) = 1"
| "runs_locked (Q_sync_func _) = 1"
| "runs_locked _ = 0"

lemma runs_listed_le: "runs_listed p \<le> q_calls p + q_waitf p"
proof (cases p)
  case (Q_call tq it)
  then show ?thesis by (cases it) simp_all
qed simp_all

lemma runs_locked_le: "runs_locked p \<le> q_runs p"
proof (cases p)
  case (Q_call tq it)
  then show ?thesis by (cases it) simp_all
qed simp_all

text \<open>
  C16: A serial queue starts its items one at a time and in the order in which they were submitted.  In
  every interleaving of clients and workers, the items started so far, then the one item a drainer may
  have in hand, then the items on the list, are exactly the items submitted, in order.
\<close>

theorem serial_queue_fifo:
  assumes "reach queue_init queue_step s" "qs_crashed s = None"
  shows "dq_submitted (qs_sh s) =
      dq_started (qs_sh s) @ concat (map q_in_hand (qs_threads s)) @ dq_items (qs_sh s) \<and>
    length (concat (map q_in_hand (qs_threads s))) \<le> 1"
proof -
  note ok = reach_queue_ok [OF assms]
  have "int (length (concat (map q_in_hand ts))) \<le> tsum q_runs ts" for ts
  proof (induction ts)
    case (Cons p ts)
    have "int (length (q_in_hand p)) \<le> q_runs p"
      by (cases p) simp_all
    then show ?case
      using Cons by simp
  qed simp
  from this [of "qs_threads s"] show ?thesis
    using queue_okD(5) [OF ok] queue_okD(2) [OF ok] unfolding fifo_ok_def lock_ok_def by auto
qed

text \<open>
  C2: Mutual exclusion.  At any moment at most one function that came through the list runs, be it an
  asynchronous function or the function of a \<open>dispatch_sync_f\<close> that had to wait; and at most one function
  runs under \<open>dq_running\<close>, be it an asynchronous function or the function of a \<open>dispatch_sync_f\<close> that did not
  have to wait.
\<close>

theorem serial_queue_exclusion:
  assumes "reach queue_init queue_step s" "qs_crashed s = None"
  shows "tsum runs_listed (qs_threads s) \<le> 1 \<and> tsum runs_locked (qs_threads s) \<le> 1"
proof -
  note ok = reach_queue_ok [OF assms]
  have "tsum runs_listed (qs_threads s) \<le> tsum q_calls (qs_threads s) + tsum q_waitf (qs_threads s)"
    using tsum_mono [of "qs_threads s" runs_listed "\<lambda>p. q_calls p + q_waitf p"] runs_listed_le by (simp add: tsum_add)
  moreover have "tsum runs_locked (qs_threads s) \<le> tsum q_runs (qs_threads s)"
    by (simp add: tsum_mono runs_locked_le)
  ultimately show ?thesis
    using queue_okD(2) [OF ok] waits_sum_semas [OF queue_okD(7) [OF ok]] q_sums(4) [of "qs_threads s"]
    unfolding lock_ok_def barriers_def by auto
qed

text \<open>
  C19: The exclusion does not extend to both kinds of \<open>dispatch_sync_f\<close> together.  The fast path looks at the
  suspend count before it takes \<open>dq_running\<close>; the slow path runs its function with the queue only suspended.
  So there is a run in which two callers of \<open>dispatch_sync_f\<close> on one serial queue run their functions at
  the same time.
\<close>

theorem serial_queue_sync_overlap:
  "\<exists>s i j. reach queue_init queue_step s \<and> qs_crashed s = None \<and> i < length (qs_threads s) \<and> j < length (qs_threads s) \<and>
     qs_threads s ! i = Q_sync_func 9 \<and> qs_threads s ! j = Q_wait_func 8"
proof -
  have "qs_crashed (queue_end queue_overlap) = None \<and>
      qs_threads (queue_end queue_overlap) = [Q_idle, Q_listless, Q_wait_func 8, Q_sync_func 9]"
    by code_simp
  then show ?thesis
    using queue_end_reach [of queue_overlap] by (intro exI [of _ "queue_end queue_overlap"] exI [of _ 3] exI [of _ 2]) simp
qed

text \<open>
  C1: No work and no wake-up is lost.  When no thread can move on, the queue is not on its target's list and
  clients have resumed it as often as they suspended it, then the list is empty, every submitted item was
  started, and no caller of \<open>dispatch_sync_f\<close> is left waiting.
\<close>

theorem serial_queue_no_lost_work:
  assumes "reach queue_init queue_step s" "qs_crashed s = None" "qs_susp s = 0" "dq_enqueued (qs_sh s) = None"
    and "\<forall>i<length (qs_threads s). queue_exec False i (qs_sh s) (qs_threads s ! i) = Stuck"
  shows "dq_items (qs_sh s) = [] \<and> dq_started (qs_sh s) = dq_submitted (qs_sh s) \<and>
    (\<forall>i<length (qs_threads s). qs_threads s ! i = Q_idle)"
proof -
  note ok = reach_queue_ok [OF assms(1,2), unfolded assms(3)]
  have i: "dq_items (qs_sh s) = []" "\<forall>i<length (qs_threads s). qs_threads s ! i = Q_idle"
    using quiet_idle [OF ok _ assms(4)] assms(5) by blast+
  then have "concat (map q_in_hand (qs_threads s)) = []"
    by (auto simp: in_set_conv_nth)
  then show ?thesis
    using queue_okD(5) [OF ok] i by (simp add: fifo_ok_def)
qed

text \<open>
  C5: Reference counting is sound.  The only crash that is ever reached is the one for a client that gives
  back the last reference of a suspended queue; and once the queue is freed no thread is inside a call on it, it
  is on nobody's list and it has no items.  This includes a thread that has submitted an item and
  not yet returned, while that item has already run and given back the last reference of the clients: the
  reference that \<open>_dispatch_queue_push_list_slow\<close> takes keeps the queue.
\<close>

theorem serial_queue_memory_safe:
  assumes "reach queue_init queue_step s"
  shows "(case qs_crashed s of
      Some e \<Rightarrow> e = Client_crash ''Release of a suspended object''
    | None \<Rightarrow> dq_freed (qs_sh s) \<longrightarrow>
        dq_items (qs_sh s) = [] \<and> dq_enqueued (qs_sh s) = None \<and> (\<forall>i<length (qs_threads s). qs_threads s ! i = Q_idle))"
proof (cases "qs_crashed s")
  case None
  note ok = reach_queue_ok [OF assms None]
  have "dq_items (qs_sh s) = [] \<and> dq_enqueued (qs_sh s) = None \<and> (\<forall>i<length (qs_threads s). qs_threads s ! i = Q_idle)"
    if f: "dq_freed (qs_sh s)"
  proof -
    have r: "do_ref_cnt (dq_obj (qs_sh s)) = 0"
      using f queue_okD(6) [OF ok] unfolding q_refs_ok_def by blast
    have idle: "qs_threads s ! i = Q_idle" if i: "i < length (qs_threads s)" for i
    proof (rule ccontr)
      assume "qs_threads s ! i \<noteq> Q_idle"
      then have "0 < do_ref_cnt (dq_obj (qs_sh s))"
        using busy_ref [OF ok i] busy_counts [of "qs_threads s ! i" i] queue_okD(1) [OF ok] i by (simp add: sh_ok_def)
      then show False
        using r by simp
    qed
    have e: "dq_enqueued (qs_sh s) = None" "do_xref_cnt (dq_obj (qs_sh s)) = 0"
      using r queue_okD(6) [OF ok] q_sums(8) [of "qs_threads s"] unfolding q_refs_ok_def enq_def by (auto split: if_splits)
    then have "qs_susp s = 0"
      using queue_okD(6) [OF ok] by (simp add: q_refs_ok_def)
    then show ?thesis
      using quiet_idle [of "qs_sh s" "qs_threads s" "qs_refs s"] ok e idle by simp
  qed
  then show ?thesis
    using None by simp
qed (use serial_queue.reachable_inv [OF assms] in \<open>simp add: queue_inv_def\<close>)

text \<open>Witnesses on the runs above.\<close>

theorem serial_queue_fifo_witness:
  "dq_submitted (qs_sh (queue_end queue_example)) = [Async 7, Barrier_sync 2] \<and>
   dq_started (qs_sh (queue_end queue_example)) @ concat (map q_in_hand (qs_threads (queue_end queue_example))) @
     dq_items (qs_sh (queue_end queue_example)) = [Async 7, Barrier_sync 2]"
proof -
  have "qs_crashed (queue_end queue_example) = None \<and>
      dq_submitted (qs_sh (queue_end queue_example)) = [Async 7, Barrier_sync 2]"
    by code_simp
  then show ?thesis
    using serial_queue_fifo [OF queue_end_reach [of queue_example]] by simp
qed

theorem serial_queue_exclusion_witness:
  "tsum runs_listed (qs_threads (queue_end queue_overlap)) = 1 \<and> tsum runs_locked (qs_threads (queue_end queue_overlap)) \<le> 1"
proof -
  have "qs_crashed (queue_end queue_overlap) = None \<and> tsum runs_listed (qs_threads (queue_end queue_overlap)) = 1"
    by code_simp
  then show ?thesis
    using serial_queue_exclusion [OF queue_end_reach [of queue_overlap]] by simp
qed

theorem serial_queue_no_lost_work_witness:
  "dq_items (qs_sh (queue_end queue_finish)) = [] \<and> dq_started (qs_sh (queue_end queue_finish)) = [Async 7, Barrier_sync 2]"
proof -
  have r: "qs_crashed (queue_end queue_finish) = None" "qs_susp (queue_end queue_finish) = 0"
    "dq_enqueued (qs_sh (queue_end queue_finish)) = None" "qs_threads (queue_end queue_finish) = replicate 4 Q_idle"
    "dq_submitted (qs_sh (queue_end queue_finish)) = [Async 7, Barrier_sync 2]"
    by code_simp+
  then show ?thesis
    using serial_queue_no_lost_work [OF queue_end_reach r(1-3)] by simp
qed

theorem serial_queue_memory_safe_witness:
  "qs_threads (queue_end queue_preempted) = [Q_idle, Q_idle, Q_wakeup (K_push Return), Q_idle] \<and>
   \<not> dq_freed (qs_sh (queue_end queue_preempted)) \<and> qs_refs (queue_end queue_preempted) = 0 \<and>
   dq_freed (qs_sh (queue_end queue_handed_over)) \<and> dq_items (qs_sh (queue_end queue_handed_over)) = []"
proof -
  have "qs_threads (queue_end queue_preempted) = [Q_idle, Q_idle, Q_wakeup (K_push Return), Q_idle] \<and>
      qs_refs (queue_end queue_preempted) = 0 \<and> qs_crashed (queue_end queue_preempted) = None"
    "dq_freed (qs_sh (queue_end queue_handed_over)) \<and> qs_crashed (queue_end queue_handed_over) = None"
    by code_simp+
  then show ?thesis
    using serial_queue_memory_safe [OF queue_end_reach [of queue_preempted]]
      serial_queue_memory_safe [OF queue_end_reach [of queue_handed_over]] by fastforce
qed

end
