(* ===== verification/Dispatch_Concurrent.thy ===== *)
theory Dispatch_Concurrent
  imports Dispatch_Queue
begin

text \<open>
  A concurrent queue of \<open>libdispatch/src/queue.c\<close>, one whose width is above 1: readers, which are the
  callers of \<open>dispatch_sync_f\<close> and the items that the drain redirects to the root queue, and barriers,
  which run alone.  Any number of threads interleave at every atomic access.  The list of items is the
  abstract queue of theory \<open>Dispatch_Fifo\<close>, as for the serial queue of theory \<open>Dispatch_Queue\<close>; new here
  are the lock word with its readers, the redirection and the cache of continuations of a thread.
\<close>

section \<open>The continuation cache\<close>

text \<open>
  Every thread caches continuations it has freed in a list under \<open>dispatch_cache_key\<close>; the model
  keeps its length.  \<open>_dispatch_continuation_alloc_from_heap\<close> waits until it gets memory.
\<close>

definition u_dispatch_continuation_alloc_cacheonly :: "nat \<Rightarrow> bool \<times> nat" where
  "u_dispatch_continuation_alloc_cacheonly cache = (if cache \<noteq> 0 then (True, cache - 1) else (False, cache))"

definition u_dispatch_continuation_free :: "nat \<Rightarrow> nat" where
  "u_dispatch_continuation_free cache = cache + 1"

definition u_dispatch_force_cache_cleanup :: "nat \<Rightarrow> nat" where
  "u_dispatch_force_cache_cleanup cache = 0"

section \<open>The width of a queue\<close>

definition DISPATCH_QUEUE_WIDTH_ACTIVE_CPUS :: int where
  "DISPATCH_QUEUE_WIDTH_ACTIVE_CPUS = -1"

definition DISPATCH_QUEUE_WIDTH_MAX_PHYSICAL_CPUS :: int where
  "DISPATCH_QUEUE_WIDTH_MAX_PHYSICAL_CPUS = -2"

record hw_config =
  cc_max_active :: u32
  cc_max_logical :: u32
  cc_max_physical :: u32

text \<open>The argument is a \<open>long\<close> that is truncated to an \<open>int\<close>; the product is one of 32 bits.\<close>

definition dispatch_queue_set_width :: "hw_config \<Rightarrow> u64 \<Rightarrow> dqueue \<Rightarrow> dqueue" where
  "dispatch_queue_set_width hw width dq =
     (let w = sint (ucast width :: u32) in
      if do_ref_cnt dq = DISPATCH_OBJECT_GLOBAL_REFCNT then dq
      else if w = 1 \<or> w = 0 then dq\<lparr>dq_width := 1\<rparr>
      else
        let tmp = (if w > 0 then word_of_int w
                   else if w = DISPATCH_QUEUE_WIDTH_MAX_PHYSICAL_CPUS then cc_max_physical hw
                   else if w = DISPATCH_QUEUE_WIDTH_ACTIVE_CPUS then cc_max_active hw
                   else cc_max_logical hw) in
        dq\<lparr>dq_width := uint (tmp * 2 :: u32)\<rparr>)"

section \<open>State\<close>

text \<open>
  What can be on the queue: the continuations of \<open>dispatch_async_f\<close> and \<open>dispatch_barrier_async_f\<close>,
  and the stack-allocated ones of \<open>dispatch_barrier_sync_f\<close> and \<open>dispatch_sync_f\<close> by thread \<open>i\<close>.
\<close>

datatype witem =
    Wi_async nat
  | Wi_barrier nat
  | Wi_barrier_sync nat
  | Wi_sync nat

text \<open>
  The shared state.  \<open>wq_root\<close> are the functions whose redirected continuations are on the root queue;
  \<open>wq_enqueued\<close> says that the queue is on the list of its target; the logs hold what was submitted,
  what the drain has taken for good, and the items whose functions have ended, also those of
  synchronous callers that came through the list.
\<close>

record wide =
  wq_obj :: dqueue
  wq_items :: "witem list"
  wq_head_set :: bool
  wq_enqueued :: bool
  wq_root :: "nat list"
  wq_submitted :: "witem list"
  wq_taken :: "witem list"
  wq_ended :: "witem list"

datatype wafter =
    To_idle
  | To_sync_wait nat
  | To_barrier_wait nat

datatype wwake =
    Ww_push wafter
  | Ww_return
  | Ww_slow nat
  | Ww_invoke
  | Ww_redirected

datatype wpc =
    C_idle
  | C_async nat
  | C_barrier_async nat
  | C_push witem wafter
  | C_push_retain wafter
  | C_push_head wafter
  | C_push_release wafter
  | C_wakeup wwake
  | C_wakeup_probe wwake
  | C_wakeup_lock wwake
  | C_wakeup_retain wwake
  | C_wakeup_push wwake
  | C_sync_tail nat
  | C_sync_suspended nat
  | C_sync_add nat
  | C_sync_undo nat
  | C_sync_slow nat
  | C_sync_wait nat
  | C_sync_wait_func nat
  | C_sync_func nat
  | C_sync_sub
  | C_bar_tail nat
  | C_bar_suspended nat
  | C_bar_trylock nat
  | C_bar_func nat
  | C_bar_unlock
  | C_bar_wait nat
  | C_bar_wait_func nat
  | C_resume
  | C_invoke
  | C_trylock "nat option"
  | C_drain "nat option"
  | C_item "nat option" witem
  | C_item_width "nat option" witem
  | C_item_target "nat option" witem
  | C_item_barrier "nat option" witem
  | C_call "nat option" witem
  | C_call_signal "nat option" nat
  | C_redirect "nat option" witem
  | C_sync_signal "nat option" nat
  | C_redirect_retain "nat option" nat
  | C_redirect_alloc "nat option" nat
  | C_redirect_push "nat option" nat
  | C_out "nat option" witem
  | C_drained "nat option"
  | C_requeue
  | C_listless
  | C_drop_lock
  | C_check_running
  | C_invoke_release
  | C_redirected_func nat
  | C_redirected_sub
  | C_redirected_release

text \<open>
  A thread has its place, the count of its semaphore and the length of its continuation cache.  An
  action changes the shared state, the thread's place and cache, may take from the thread's own
  semaphore, and may signal the semaphore of another thread.
\<close>

record wthread =
  wt_pc :: wpc
  wt_sema :: int
  wt_cache :: nat

datatype wres =
    W_stuck
  | W_crashed crash
  | W_goes wide wthread "nat option"

abbreviation W_at :: "wide \<Rightarrow> wthread \<Rightarrow> wpc \<Rightarrow> wres" where
  "W_at s th pc \<equiv> W_goes s (th\<lparr>wt_pc := pc\<rparr>) None"

definition upd_wq :: "(dqueue \<Rightarrow> dqueue) \<Rightarrow> wide \<Rightarrow> wide" where
  "upd_wq f s = s\<lparr>wq_obj := f (wq_obj s)\<rparr>"

definition add_running :: "int \<Rightarrow> wide \<Rightarrow> wide" where
  "add_running n s = upd_wq (dq_running_update (\<lambda>r. r + n)) s"

section \<open>The code\<close>

fun wafter_pc :: "wafter \<Rightarrow> wpc" where
  "wafter_pc To_idle = C_idle"
| "wafter_pc (To_sync_wait f) = C_sync_wait f"
| "wafter_pc (To_barrier_wait f) = C_bar_wait f"

fun wwake_next :: "wwake \<Rightarrow> wpc" where
  "wwake_next (Ww_push a) = C_push_release a"
| "wwake_next Ww_return = C_idle"
| "wwake_next (Ww_slow f) = C_sync_slow f"
| "wwake_next Ww_invoke = C_invoke_release"
| "wwake_next Ww_redirected = C_redirected_release"

definition wide_retain :: "wide \<Rightarrow> wthread \<Rightarrow> wpc \<Rightarrow> wres" where
  "wide_retain s th pc =
     (case u_dispatch_retain (wq_obj s) of Inl e \<Rightarrow> W_crashed e | Inr dq \<Rightarrow> W_at (s\<lparr>wq_obj := dq\<rparr>) th pc)"

text \<open>\<open>_dispatch_release\<close>; clients keep a reference, so the last one does not go here.\<close>

definition wide_release :: "wide \<Rightarrow> wthread \<Rightarrow> wpc \<Rightarrow> wres" where
  "wide_release s th pc =
     (case release_count (wq_obj s) of
        Inl e \<Rightarrow> W_crashed e
      | Inr (dq, dispose) \<Rightarrow> if dispose then W_crashed Use_after_free else W_at (s\<lparr>wq_obj := dq\<rparr>) th pc)"

definition wide_push_list :: "wide \<Rightarrow> wthread \<Rightarrow> wpc \<Rightarrow> wres" where
  "wide_push_list s th pc =
     (case pc of
        C_push it a \<Rightarrow>
          (if wq_items s = []
           then W_at (s\<lparr>wq_items := [it], wq_head_set := False, wq_submitted := wq_submitted s @ [it]\<rparr>) th (C_push_retain a)
           else W_at (s\<lparr>wq_items := wq_items s @ [it], wq_submitted := wq_submitted s @ [it]\<rparr>) th (wafter_pc a))
      | C_push_retain a \<Rightarrow> wide_retain s th (C_push_head a)
      | C_push_head a \<Rightarrow> W_at (s\<lparr>wq_head_set := True\<rparr>) th (C_wakeup (Ww_push a))
      | C_push_release a \<Rightarrow> wide_release s th (wafter_pc a)
      | _ \<Rightarrow> W_stuck)"

text \<open>
  \<open>dispatch_async_f\<close> and \<open>dispatch_barrier_async_f\<close>: the continuation comes from the cache or, in their
  slow variants, from the heap.
\<close>

definition dispatch_async_f :: "wide \<Rightarrow> wthread \<Rightarrow> nat \<Rightarrow> wres" where
  "dispatch_async_f s th f =
     (case u_dispatch_continuation_alloc_cacheonly (wt_cache th) of
        (_, cache) \<Rightarrow> W_goes s (th\<lparr>wt_pc := C_push (Wi_async f) To_idle, wt_cache := cache\<rparr>) None)"

definition dispatch_barrier_async_f :: "wide \<Rightarrow> wthread \<Rightarrow> nat \<Rightarrow> wres" where
  "dispatch_barrier_async_f s th f =
     (case u_dispatch_continuation_alloc_cacheonly (wt_cache th) of
        (_, cache) \<Rightarrow> W_goes s (th\<lparr>wt_pc := C_push (Wi_barrier f) To_idle, wt_cache := cache\<rparr>) None)"

definition wide_wakeup :: "wide \<Rightarrow> wthread \<Rightarrow> wpc \<Rightarrow> wres" where
  "wide_wakeup s th pc =
     (case pc of
        C_wakeup k \<Rightarrow> W_at s th (if DISPATCH_OBJECT_SUSPENDED (wq_obj s) then wwake_next k else C_wakeup_probe k)
      | C_wakeup_probe k \<Rightarrow> W_at s th (if wq_items s = [] then wwake_next k else C_wakeup_lock k)
      | C_wakeup_lock k \<Rightarrow>
          (case u_dispatch_trylock (wq_obj s) of
             (dq, locked) \<Rightarrow> W_at (s\<lparr>wq_obj := dq\<rparr>) th (if locked then C_wakeup_retain k else wwake_next k))
      | C_wakeup_retain k \<Rightarrow> wide_retain s th (C_wakeup_push k)
      | C_wakeup_push k \<Rightarrow> W_at (upd_wq (do_next_update (\<lambda>_. Null_link)) s\<lparr>wq_enqueued := True\<rparr>) th (wwake_next k)
      | _ \<Rightarrow> W_stuck)"

text \<open>
  \<open>dispatch_sync_f\<close> on a queue wider than 1, with \<open>_dispatch_sync_f_slow\<close>: the caller becomes a reader,
  which counts 2 in \<open>dq_running\<close>; the low bit is the lock.  A caller that had to wait calls its function at
  \<open>C_sync_wait_func\<close>, any other at \<open>C_sync_func\<close>.
\<close>

definition dispatch_sync_f :: "nat \<Rightarrow> wide \<Rightarrow> wthread \<Rightarrow> wpc \<Rightarrow> wres" where
  "dispatch_sync_f i s th pc =
     (case pc of
        C_sync_tail f \<Rightarrow> W_at s th (if wq_items s \<noteq> [] then C_sync_slow f else C_sync_suspended f)
      | C_sync_suspended f \<Rightarrow> W_at s th (if DISPATCH_OBJECT_SUSPENDED (wq_obj s) then C_sync_slow f else C_sync_add f)
      | C_sync_add f \<Rightarrow>
          (let s' = add_running 2 s; prev_cnt = dq_running (wq_obj s') - 2 in
           W_at s' th (if odd prev_cnt then C_sync_undo f else C_sync_func f))
      | C_sync_undo f \<Rightarrow>
          (let s' = add_running (-2) s in
           W_at s' th (if dq_running (wq_obj s') = 0 then C_wakeup (Ww_slow f) else C_sync_slow f))
      | C_sync_slow f \<Rightarrow>
          (if do_targetq (wq_obj s) = None then W_at (add_running 2 s) th (C_sync_func f)
           else W_at s th (C_push (Wi_sync i) (To_sync_wait f)))
      | C_sync_wait f \<Rightarrow> (if wt_sema th > 0 then W_goes s (th\<lparr>wt_pc := C_sync_wait_func f, wt_sema := wt_sema th - 1\<rparr>) None else W_stuck)
      | C_sync_wait_func f \<Rightarrow> W_at (s\<lparr>wq_ended := wq_ended s @ [Wi_sync i]\<rparr>) th C_sync_sub
      | C_sync_func f \<Rightarrow> W_at s th C_sync_sub
      | C_sync_sub \<Rightarrow>
          (let s' = add_running (-2) s in
           W_at s' th (if dq_running (wq_obj s') = 0 then C_wakeup Ww_return else C_idle))
      | _ \<Rightarrow> W_stuck)"

text \<open>\<open>dispatch_barrier_sync_f\<close> with its slow path, and \<open>dispatch_resume\<close>.\<close>

definition wide_resume :: "wide \<Rightarrow> wthread \<Rightarrow> wres" where
  "wide_resume s th =
     (case dispatch_resume (wq_obj s) of
        Inl e \<Rightarrow> W_crashed e
      | Inr (dq, wake) \<Rightarrow> W_at (s\<lparr>wq_obj := dq\<rparr>) th (if wake then C_wakeup Ww_return else C_idle))"

definition wide_barrier_sync_f :: "nat \<Rightarrow> wide \<Rightarrow> wthread \<Rightarrow> wpc \<Rightarrow> wres" where
  "wide_barrier_sync_f i s th pc =
     (case pc of
        C_bar_tail f \<Rightarrow> W_at s th (if wq_items s \<noteq> [] then C_push (Wi_barrier_sync i) (To_barrier_wait f) else C_bar_suspended f)
      | C_bar_suspended f \<Rightarrow> W_at s th (if DISPATCH_OBJECT_SUSPENDED (wq_obj s) then C_push (Wi_barrier_sync i) (To_barrier_wait f) else C_bar_trylock f)
      | C_bar_trylock f \<Rightarrow>
          (if dq_running (wq_obj s) = 0 then W_at (upd_wq (dq_running_update (\<lambda>_. 1)) s) th (C_bar_func f)
           else W_at s th (C_push (Wi_barrier_sync i) (To_barrier_wait f)))
      | C_bar_func f \<Rightarrow> W_at s th C_bar_unlock
      | C_bar_unlock \<Rightarrow>
          (let s' = add_running (-1) s in
           W_at s' th (if dq_running (wq_obj s') \<noteq> 0 then C_idle else C_wakeup Ww_return))
      | C_bar_wait f \<Rightarrow> (if wt_sema th > 0 then W_goes s (th\<lparr>wt_pc := C_bar_wait_func f, wt_sema := wt_sema th - 1\<rparr>) None else W_stuck)
      | C_bar_wait_func f \<Rightarrow> W_at (s\<lparr>wq_ended := wq_ended s @ [Wi_barrier_sync i]\<rparr>) th C_resume
      | C_resume \<Rightarrow> wide_resume s th
      | _ \<Rightarrow> W_stuck)"

text \<open>
  \<open>_dispatch_async_f_redirect\<close>: the continuation of a waiting reader is called at once, as
  \<open>_dispatch_sync_f_slow2\<close>; any other one is wrapped and pushed to the root queue.  The wrapper is
  taken from the heap only if the cache is empty; if it is not, the pointer that is written through
  is the null pointer.
\<close>

definition u_dispatch_async_f_redirect :: "wide \<Rightarrow> wthread \<Rightarrow> wpc \<Rightarrow> wres" where
  "u_dispatch_async_f_redirect s th pc =
     (case pc of
        C_redirect tq it \<Rightarrow>
          (case it of
             Wi_sync i \<Rightarrow> W_at (add_running 2 (s\<lparr>wq_taken := wq_taken s @ [it]\<rparr>)) th (C_sync_signal tq i)
           | Wi_async f \<Rightarrow> W_at (add_running 2 (s\<lparr>wq_taken := wq_taken s @ [it]\<rparr>)) th (C_redirect_retain tq f)
           | _ \<Rightarrow> W_stuck)
      | C_sync_signal tq i \<Rightarrow> W_goes s (th\<lparr>wt_pc := C_drain tq\<rparr>) (Some i)
      | C_redirect_retain tq f \<Rightarrow> wide_retain s th (C_redirect_alloc tq f)
      | C_redirect_alloc tq f \<Rightarrow>
          (case u_dispatch_continuation_alloc_cacheonly (wt_cache th) of
             (cached, cache) \<Rightarrow> if cached then W_crashed Null_dereference else W_at s th (C_redirect_push tq f))
      | C_redirect_push tq f \<Rightarrow> W_at (s\<lparr>wq_root := wq_root s @ [f]\<rparr>) th (C_drain tq)
      | _ \<Rightarrow> W_stuck)"

text \<open>
  \<open>_dispatch_async_f_redirect2\<close>, on a thread of the root queue; both continuations went to the
  thread's cache before the function is called.
\<close>

definition u_dispatch_async_f_redirect2 :: "wide \<Rightarrow> wthread \<Rightarrow> wpc \<Rightarrow> wres" where
  "u_dispatch_async_f_redirect2 s th pc =
     (case pc of
        C_redirected_func f \<Rightarrow> W_at (s\<lparr>wq_ended := wq_ended s @ [Wi_async f]\<rparr>) th C_redirected_sub
      | C_redirected_sub \<Rightarrow>
          (let s' = add_running (-2) s in
           W_at s' th (if dq_running (wq_obj s') = 0 then C_wakeup Ww_redirected else C_redirected_release))
      | C_redirected_release \<Rightarrow> wide_release s th C_idle
      | _ \<Rightarrow> W_stuck)"

text \<open>
  \<open>_dispatch_queue_drain\<close> of a queue wider than 1: barriers run here, alone; other items are
  redirected.
\<close>

definition wide_drain :: "wide \<Rightarrow> wthread \<Rightarrow> wpc \<Rightarrow> wres" where
  "wide_drain s th pc =
     (case pc of
        C_drain orig_tq \<Rightarrow>
          (case wq_items s of
             [] \<Rightarrow> W_at s th (C_drained orig_tq)
           | it # rest \<Rightarrow> if wq_head_set s then W_at (s\<lparr>wq_items := rest\<rparr>) th (C_item orig_tq it) else W_stuck)
      | C_item orig_tq it \<Rightarrow> W_at s th (if DISPATCH_OBJECT_SUSPENDED (wq_obj s) then C_out orig_tq it else C_item_width orig_tq it)
      | C_item_width orig_tq it \<Rightarrow> W_at s th (if dq_running (wq_obj s) > dq_width (wq_obj s) then C_out orig_tq it else C_item_target orig_tq it)
      | C_item_target orig_tq it \<Rightarrow>
          W_at s th (if orig_tq \<noteq> do_targetq (wq_obj s) then C_out orig_tq it
                   else (case it of
                           Wi_barrier f \<Rightarrow> C_item_barrier orig_tq it
                         | Wi_barrier_sync i \<Rightarrow> C_item_barrier orig_tq it
                         | _ \<Rightarrow> C_redirect orig_tq it))
      | C_item_barrier orig_tq it \<Rightarrow>
          (if dq_running (wq_obj s) > 1 then W_at s th (C_out orig_tq it)
           else W_goes (s\<lparr>wq_taken := wq_taken s @ [it]\<rparr>)
                  (th\<lparr>wt_pc := C_call orig_tq it,
                      wt_cache := (case it of Wi_barrier _ \<Rightarrow> u_dispatch_continuation_free (wt_cache th) | _ \<Rightarrow> wt_cache th)\<rparr>) None)
      | C_call orig_tq it \<Rightarrow>
          (case it of
             Wi_barrier_sync i \<Rightarrow> W_at (upd_wq dispatch_suspend s) th (C_call_signal orig_tq i)
           | _ \<Rightarrow> W_at (s\<lparr>wq_ended := wq_ended s @ [it]\<rparr>) th (C_drain orig_tq))
      | C_call_signal orig_tq i \<Rightarrow> W_goes s (th\<lparr>wt_pc := C_drain orig_tq\<rparr>) (Some i)
      | C_out orig_tq it \<Rightarrow>
          (if wq_items s = [] \<or> wq_head_set s
           then W_at (s\<lparr>wq_items := it # wq_items s, wq_head_set := True\<rparr>) th (C_drained orig_tq)
           else W_stuck)
      | _ \<Rightarrow> u_dispatch_async_f_redirect s th pc)"

definition wide_invoke :: "wide \<Rightarrow> wthread \<Rightarrow> wpc \<Rightarrow> wres" where
  "wide_invoke s th pc =
     (case pc of
        C_invoke \<Rightarrow> W_at s th (if DISPATCH_OBJECT_SUSPENDED (wq_obj s) then C_listless else C_trylock (do_targetq (wq_obj s)))
      | C_trylock tq \<Rightarrow>
          (if dq_running (wq_obj s) = 0 then W_at (upd_wq (dq_running_update (\<lambda>_. 1)) s) th (C_drain tq)
           else W_at s th C_listless)
      | C_drained tq \<Rightarrow> W_at (add_running (-1) s) th (if tq = do_targetq (wq_obj s) then C_listless else C_requeue)
      | C_requeue \<Rightarrow> W_at (upd_wq (do_next_update (\<lambda>_. Null_link)) s\<lparr>wq_enqueued := True\<rparr>) th C_idle
      | C_listless \<Rightarrow> W_at (upd_wq (do_next_update (\<lambda>_. Listless)) s) th C_drop_lock
      | C_drop_lock \<Rightarrow>
          (let s' = upd_wq (do_suspend_cnt_update (\<lambda>n. n - DISPATCH_OBJECT_SUSPEND_LOCK)) s in
           W_at s' th (if do_suspend_cnt (wq_obj s') = 0 then C_check_running else C_invoke_release))
      | C_check_running \<Rightarrow> W_at s th (if dq_running (wq_obj s) = 0 then C_wakeup Ww_invoke else C_invoke_release)
      | C_invoke_release \<Rightarrow> wide_release s th C_idle
      | _ \<Rightarrow> wide_drain s th pc)"

text \<open>One action of thread \<open>i\<close>.\<close>

definition wide_exec :: "nat \<Rightarrow> wide \<Rightarrow> wthread \<Rightarrow> wpc \<Rightarrow> wres" where
  "wide_exec i s th pc =
     (case pc of
        C_idle \<Rightarrow> W_stuck
      | C_async f \<Rightarrow> dispatch_async_f s th f
      | C_barrier_async f \<Rightarrow> dispatch_barrier_async_f s th f
      | C_push _ _ \<Rightarrow> wide_push_list s th pc
      | C_push_retain _ \<Rightarrow> wide_push_list s th pc
      | C_push_head _ \<Rightarrow> wide_push_list s th pc
      | C_push_release _ \<Rightarrow> wide_push_list s th pc
      | C_wakeup _ \<Rightarrow> wide_wakeup s th pc
      | C_wakeup_probe _ \<Rightarrow> wide_wakeup s th pc
      | C_wakeup_lock _ \<Rightarrow> wide_wakeup s th pc
      | C_wakeup_retain _ \<Rightarrow> wide_wakeup s th pc
      | C_wakeup_push _ \<Rightarrow> wide_wakeup s th pc
      | C_sync_tail _ \<Rightarrow> dispatch_sync_f i s th pc
      | C_sync_suspended _ \<Rightarrow> dispatch_sync_f i s th pc
      | C_sync_add _ \<Rightarrow> dispatch_sync_f i s th pc
      | C_sync_undo _ \<Rightarrow> dispatch_sync_f i s th pc
      | C_sync_slow _ \<Rightarrow> dispatch_sync_f i s th pc
      | C_sync_wait _ \<Rightarrow> dispatch_sync_f i s th pc
      | C_sync_wait_func _ \<Rightarrow> dispatch_sync_f i s th pc
      | C_sync_func _ \<Rightarrow> dispatch_sync_f i s th pc
      | C_sync_sub \<Rightarrow> dispatch_sync_f i s th pc
      | C_bar_tail _ \<Rightarrow> wide_barrier_sync_f i s th pc
      | C_bar_suspended _ \<Rightarrow> wide_barrier_sync_f i s th pc
      | C_bar_trylock _ \<Rightarrow> wide_barrier_sync_f i s th pc
      | C_bar_func _ \<Rightarrow> wide_barrier_sync_f i s th pc
      | C_bar_unlock \<Rightarrow> wide_barrier_sync_f i s th pc
      | C_bar_wait _ \<Rightarrow> wide_barrier_sync_f i s th pc
      | C_bar_wait_func _ \<Rightarrow> wide_barrier_sync_f i s th pc
      | C_resume \<Rightarrow> wide_barrier_sync_f i s th pc
      | C_redirected_func _ \<Rightarrow> u_dispatch_async_f_redirect2 s th pc
      | C_redirected_sub \<Rightarrow> u_dispatch_async_f_redirect2 s th pc
      | C_redirected_release \<Rightarrow> u_dispatch_async_f_redirect2 s th pc
      | _ \<Rightarrow> wide_invoke s th pc)"

section \<open>Threads on one queue\<close>

text \<open>
  Clients keep an external reference of the queue for the whole run, and its width and target stay as
  they are.  \<open>ws_susp\<close> counts the suspensions of clients.  A thread of the target queue takes the queue
  and invokes it; a thread of the root queue takes a redirected continuation; a worker that goes back to
  the pool frees its cache.
\<close>

record wsys =
  ws_q :: wide
  ws_threads :: "wthread list"
  ws_susp :: int
  ws_crashed :: "crash option"

definition signalled :: "nat option \<Rightarrow> wthread list \<Rightarrow> wthread list" where
  "signalled sig ts = (case sig of None \<Rightarrow> ts | Some j \<Rightarrow> ts[j := (ts ! j)\<lparr>wt_sema := wt_sema (ts ! j) + 1\<rparr>])"

fun wide_effect :: "nat \<Rightarrow> wsys \<Rightarrow> wres \<Rightarrow> wsys option" where
  "wide_effect i s W_stuck = None"
| "wide_effect i s (W_crashed e) = Some (s\<lparr>ws_crashed := Some e\<rparr>)"
| "wide_effect i s (W_goes q th sig) = Some (s\<lparr>ws_q := q, ws_threads := signalled sig ((ws_threads s)[i := th])\<rparr>)"

definition wide_run :: "nat \<Rightarrow> wsys \<Rightarrow> wsys option" where
  "wide_run i s =
     (if ws_crashed s = None \<and> i < length (ws_threads s)
      then wide_effect i s (wide_exec i (ws_q s) (ws_threads s ! i) (wt_pc (ws_threads s ! i))) else None)"

datatype wide_client =
    Do_async_f nat
  | Do_barrier_async_f nat
  | Do_sync_f nat
  | Do_barrier_sync_f nat
  | Do_suspend
  | Do_resume
  | Do_invoke
  | Do_redirected
  | Do_cleanup

fun wide_call :: "wide_client \<Rightarrow> wsys \<Rightarrow> wthread \<Rightarrow> (wide \<times> int \<times> wthread) option" where
  "wide_call (Do_async_f f) s th = Some (ws_q s, ws_susp s, th\<lparr>wt_pc := C_async f\<rparr>)"
| "wide_call (Do_barrier_async_f f) s th = Some (ws_q s, ws_susp s, th\<lparr>wt_pc := C_barrier_async f\<rparr>)"
| "wide_call (Do_sync_f f) s th = Some (ws_q s, ws_susp s, th\<lparr>wt_pc := C_sync_tail f\<rparr>)"
| "wide_call (Do_barrier_sync_f f) s th = Some (ws_q s, ws_susp s, th\<lparr>wt_pc := C_bar_tail f\<rparr>)"
| "wide_call Do_suspend s th = Some (upd_wq dispatch_suspend (ws_q s), ws_susp s + 1, th)"
| "wide_call Do_resume s th = (if ws_susp s \<ge> 1 then Some (ws_q s, ws_susp s - 1, th\<lparr>wt_pc := C_resume\<rparr>) else None)"
| "wide_call Do_invoke s th =
     (if wq_enqueued (ws_q s) then Some ((ws_q s)\<lparr>wq_enqueued := False\<rparr>, ws_susp s, th\<lparr>wt_pc := C_invoke\<rparr>) else None)"
| "wide_call Do_redirected s th =
     (case wq_root (ws_q s) of
        [] \<Rightarrow> None
      | f # fs \<Rightarrow> Some ((ws_q s)\<lparr>wq_root := fs\<rparr>, ws_susp s,
          th\<lparr>wt_pc := C_redirected_func f,
             wt_cache := u_dispatch_continuation_free (u_dispatch_continuation_free (wt_cache th))\<rparr>))"
| "wide_call Do_cleanup s th = Some (ws_q s, ws_susp s, th\<lparr>wt_cache := u_dispatch_force_cache_cleanup (wt_cache th)\<rparr>)"

definition wide_begin :: "wide_client \<Rightarrow> nat \<Rightarrow> wsys \<Rightarrow> wsys option" where
  "wide_begin c i s =
     (if ws_crashed s = None \<and> i < length (ws_threads s) \<and> wt_pc (ws_threads s ! i) = C_idle
      then map_option (\<lambda>(q, susp, th). s\<lparr>ws_q := q, ws_susp := susp, ws_threads := (ws_threads s)[i := th]\<rparr>)
             (wide_call c s (ws_threads s ! i))
      else None)"

inductive wide_step :: "wsys \<Rightarrow> wsys \<Rightarrow> bool" where
  wide_step_run: "wide_run i s = Some t \<Longrightarrow> wide_step s t"
| wide_step_begin: "wide_begin c i s = Some t \<Longrightarrow> wide_step s t"

definition wide_init :: "hw_config \<Rightarrow> u64 \<Rightarrow> wsys \<Rightarrow> bool" where
  "wide_init hw width s =
     ((\<exists>serial label dq. dispatch_queue_create True serial label = Some dq \<and>
         wq_obj (ws_q s) = dispatch_queue_set_width hw width dq) \<and>
      dq_width (wq_obj (ws_q s)) > 1 \<and>
      wq_items (ws_q s) = [] \<and> wq_head_set (ws_q s) \<and> \<not> wq_enqueued (ws_q s) \<and> wq_root (ws_q s) = [] \<and>
      wq_submitted (ws_q s) = [] \<and> wq_taken (ws_q s) = [] \<and> wq_ended (ws_q s) = [] \<and>
      list_all (\<lambda>th. wt_pc th = C_idle \<and> wt_sema th = 0) (ws_threads s) \<and>
      dq_width (wq_obj (ws_q s)) + 2 * int (length (ws_threads s)) + 4 < DISPATCH_OBJECT_GLOBAL_REFCNT \<and>
      ws_susp s = 0 \<and> ws_crashed s = None)"

end
