(* ===== verification/Dispatch_Concurrent_Proofs.thy ===== *)
theory Dispatch_Concurrent_Proofs
  imports Dispatch_Concurrent
begin

text \<open>
  What holds of a concurrent queue in every interleaving: the lock word counts its holder and the
  readers, the suspend count and the references are accounted for, whoever can make the list non-empty is followed by
  somebody who looks at it, and every waiting caller has its continuation on the way.  From these,
  that barriers run alone and in order and that no work is lost.  Two concrete runs show a null
  pointer and an overlap.
\<close>

section \<open>What the invariants count\<close>

fun w_lock :: "wpc \<Rightarrow> int" where  \<comment> \<open>holds the low bit of \<open>dq_running\<close>\<close>
  "w_lock (C_bar_func _) = 1"
| "w_lock C_bar_unlock = 1"
| "w_lock (C_drain _) = 1"
| "w_lock (C_item _ _) = 1"
| "w_lock (C_item_width _ _) = 1"
| "w_lock (C_item_target _ _) = 1"
| "w_lock (C_item_barrier _ _) = 1"
| "w_lock (C_call _ _) = 1"
| "w_lock (C_call_signal _ _) = 1"
| "w_lock (C_redirect _ _) = 1"
| "w_lock (C_sync_signal _ _) = 1"
| "w_lock (C_redirect_retain _ _) = 1"
| "w_lock (C_redirect_alloc _ _) = 1"
| "w_lock (C_redirect_push _ _) = 1"
| "w_lock (C_out _ _) = 1"
| "w_lock (C_drained _) = 1"
| "w_lock _ = 0"

fun w_red :: "wpc \<Rightarrow> int" where  \<comment> \<open>a reader that was redirected\<close>
  "w_red (C_redirect_retain _ _) = 1"
| "w_red (C_redirect_alloc _ _) = 1"
| "w_red (C_redirect_push _ _) = 1"
| "w_red (C_redirected_func _) = 1"
| "w_red C_redirected_sub = 1"
| "w_red _ = 0"

fun w_undo :: "wpc \<Rightarrow> int" where  \<comment> \<open>counts as a reader but found the lock taken\<close>
  "w_undo (C_sync_undo _) = 1"
| "w_undo _ = 0"

fun w_read :: "wpc \<Rightarrow> int" where  \<comment> \<open>a reader of its own call\<close>
  "w_read (C_sync_func _) = 1"
| "w_read (C_sync_wait_func _) = 1"
| "w_read C_sync_sub = 1"
| "w_read (C_sync_signal _ _) = 1"
| "w_read _ = 0"

fun w_ready :: "wpc \<Rightarrow> int" where  \<comment> \<open>has found that the width allows one more\<close>
  "w_ready (C_item_target _ _) = 1"
| "w_ready (C_item_barrier _ _) = 1"
| "w_ready (C_redirect _ _) = 1"
| "w_ready _ = 0"

fun w_alone :: "wpc \<Rightarrow> int" where  \<comment> \<open>runs a barrier under the lock\<close>
  "w_alone (C_bar_func _) = 1"
| "w_alone C_bar_unlock = 1"
| "w_alone (C_call _ _) = 1"
| "w_alone _ = 0"

fun sync_after :: "wafter \<Rightarrow> int" where
  "sync_after (To_sync_wait _) = 1"
| "sync_after _ = 0"

fun bar_after :: "wafter \<Rightarrow> int" where
  "bar_after (To_barrier_wait _) = 1"
| "bar_after _ = 0"

fun k_after :: "wwake \<Rightarrow> wafter" where
  "k_after (Ww_push a) = a"
| "k_after _ = To_idle"

fun w_after :: "wpc \<Rightarrow> wafter" where  \<comment> \<open>what a push is followed by\<close>
  "w_after (C_push_retain a) = a"
| "w_after (C_push_head a) = a"
| "w_after (C_push_release a) = a"
| "w_after (C_wakeup k) = k_after k"
| "w_after (C_wakeup_probe k) = k_after k"
| "w_after (C_wakeup_lock k) = k_after k"
| "w_after (C_wakeup_retain k) = k_after k"
| "w_after (C_wakeup_push k) = k_after k"
| "w_after (C_sync_wait f) = To_sync_wait f"
| "w_after (C_bar_wait f) = To_barrier_wait f"
| "w_after _ = To_idle"

text \<open>Whether a thread has pushed its continuation and has not got through its wait, as a reader or as a barrier.\<close>

abbreviation w_swait :: "wpc \<Rightarrow> int" where "w_swait p \<equiv> sync_after (w_after p)"
abbreviation w_bwait :: "wpc \<Rightarrow> int" where "w_bwait p \<equiv> bar_after (w_after p)"

text \<open>Signals that the thread has got and not yet taken.\<close>

definition got_sync :: "wthread \<Rightarrow> int" where
  "got_sync th = w_swait (wt_pc th) * wt_sema th"

definition got_bar :: "wthread \<Rightarrow> int" where
  "got_bar th = w_bwait (wt_pc th) * wt_sema th"

fun k_ref :: "wwake \<Rightarrow> int" where
  "k_ref (Ww_push _) = 1"
| "k_ref Ww_invoke = 1"
| "k_ref Ww_redirected = 1"
| "k_ref _ = 0"

fun w_slock :: "wpc \<Rightarrow> int" where  \<comment> \<open>holds the lock bit of the suspend count\<close>
  "w_slock (C_wakeup_retain _) = 1"
| "w_slock (C_wakeup_push _) = 1"
| "w_slock C_invoke = 1"
| "w_slock (C_trylock _) = 1"
| "w_slock C_requeue = 1"
| "w_slock C_listless = 1"
| "w_slock C_drop_lock = 1"
| "w_slock (C_bar_func _) = 0"
| "w_slock C_bar_unlock = 0"
| "w_slock p = w_lock p"

fun w_bsus :: "wpc \<Rightarrow> int" where  \<comment> \<open>has the queue suspended for a barrier\<close>
  "w_bsus (C_call_signal _ _) = 1"
| "w_bsus (C_bar_wait_func _) = 1"
| "w_bsus _ = 0"

fun w_past :: "wpc \<Rightarrow> int" where  \<comment> \<open>has found that the queue is not suspended\<close>
  "w_past (C_item_width _ _) = 1"
| "w_past (C_item_target _ _) = 1"
| "w_past (C_item_barrier _ _) = 1"
| "w_past (C_redirect _ _) = 1"
| "w_past (C_call _ _) = 1"
| "w_past _ = 0"

fun w_listed :: "wpc \<Rightarrow> int" where  \<comment> \<open>a reader that came through the list\<close>
  "w_listed (C_sync_wait_func _) = 1"
| "w_listed (C_sync_signal _ _) = 1"
| "w_listed _ = 0"

fun w_resume :: "wpc \<Rightarrow> int" where
  "w_resume C_resume = 1"
| "w_resume _ = 0"

fun w_ref :: "wpc \<Rightarrow> int" where  \<comment> \<open>internal references\<close>
  "w_ref (C_push_head _) = 1"
| "w_ref (C_push_release _) = 1"
| "w_ref (C_wakeup k) = k_ref k"
| "w_ref (C_wakeup_probe k) = k_ref k"
| "w_ref (C_wakeup_lock k) = k_ref k"
| "w_ref (C_wakeup_retain k) = k_ref k"
| "w_ref (C_wakeup_push k) = k_ref k + 1"
| "w_ref C_check_running = 1"
| "w_ref C_invoke_release = 1"
| "w_ref (C_redirect_alloc _ _) = 2"
| "w_ref (C_redirect_push _ _) = 2"
| "w_ref (C_redirected_func _) = 1"
| "w_ref C_redirected_sub = 1"
| "w_ref C_redirected_release = 1"
| "w_ref p = w_slock p"

fun w_unpub :: "wpc \<Rightarrow> int" where  \<comment> \<open>has yet to write the head\<close>
  "w_unpub (C_push_retain _) = 1"
| "w_unpub (C_push_head _) = 1"
| "w_unpub _ = 0"

fun w_looks :: "wpc \<Rightarrow> int" where  \<comment> \<open>is going to wake the queue\<close>
  "w_looks (C_push_retain _) = 1"
| "w_looks (C_push_head _) = 1"
| "w_looks (C_wakeup _) = 1"
| "w_looks (C_wakeup_probe _) = 1"
| "w_looks (C_wakeup_lock _) = 1"
| "w_looks C_check_running = 1"
| "w_looks (C_bar_func _) = 1"
| "w_looks C_bar_unlock = 1"
| "w_looks (C_sync_undo _) = 1"
| "w_looks (C_sync_func _) = 1"
| "w_looks (C_sync_wait_func _) = 1"
| "w_looks C_sync_sub = 1"
| "w_looks (C_redirected_func _) = 1"
| "w_looks C_redirected_sub = 1"
| "w_looks _ = 0"

fun w_hand :: "wpc \<Rightarrow> witem list" where  \<comment> \<open>the item that the drain has taken off the list\<close>
  "w_hand (C_item _ it) = [it]"
| "w_hand (C_item_width _ it) = [it]"
| "w_hand (C_item_target _ it) = [it]"
| "w_hand (C_item_barrier _ it) = [it]"
| "w_hand (C_redirect _ it) = [it]"
| "w_hand (C_out _ it) = [it]"
| "w_hand _ = []"

fun is_sync :: "nat \<Rightarrow> witem \<Rightarrow> int" where
  "is_sync j (Wi_sync i) = of_bool (i = j)"
| "is_sync j _ = 0"

fun is_bar :: "nat \<Rightarrow> witem \<Rightarrow> int" where
  "is_bar j (Wi_barrier_sync i) = of_bool (i = j)"
| "is_bar j _ = 0"

fun hand_sync :: "nat \<Rightarrow> wpc \<Rightarrow> int" where  \<comment> \<open>has the continuation of the reader \<open>j\<close>\<close>
  "hand_sync j (C_sync_signal _ i) = of_bool (i = j)"
| "hand_sync j p = tsum (is_sync j) (w_hand p)"

fun hand_bar :: "nat \<Rightarrow> wpc \<Rightarrow> int" where
  "hand_bar j (C_call _ it) = is_bar j it"
| "hand_bar j (C_call_signal _ i) = of_bool (i = j)"
| "hand_bar j p = tsum (is_bar j) (w_hand p)"

fun is_fun :: "witem \<Rightarrow> bool" where
  "is_fun (Wi_async _) = True"
| "is_fun (Wi_barrier _) = True"
| "is_fun _ = False"

fun in_flight :: "witem \<Rightarrow> wpc \<Rightarrow> int" where  \<comment> \<open>has the item to run or to hand to its caller\<close>
  "in_flight x (C_redirect_retain _ f) = of_bool (x = Wi_async f)"
| "in_flight x (C_redirect_alloc _ f) = of_bool (x = Wi_async f)"
| "in_flight x (C_redirect_push _ f) = of_bool (x = Wi_async f)"
| "in_flight x (C_redirected_func f) = of_bool (x = Wi_async f)"
| "in_flight x (C_call _ it) = of_bool (x = it)"
| "in_flight x (C_sync_signal _ i) = of_bool (x = Wi_sync i)"
| "in_flight x (C_call_signal _ i) = of_bool (x = Wi_barrier_sync i)"
| "in_flight x _ = 0"

fun slow_sync :: "wpc \<Rightarrow> int" where  \<comment> \<open>runs the function of a call that waited\<close>
  "slow_sync (C_sync_wait_func _) = 1"
| "slow_sync _ = 0"

fun slow_bar :: "wpc \<Rightarrow> int" where
  "slow_bar (C_bar_wait_func _) = 1"
| "slow_bar _ = 0"

fun called :: "witem list \<Rightarrow> wpc \<Rightarrow> bool" where  \<comment> \<open>the item that the drain calls is the last one taken\<close>
  "called xs (C_call _ it) = (xs \<noteq> [] \<and> last xs = it)"
| "called xs _ = True"

fun is_plain :: "witem \<Rightarrow> bool" where
  "is_plain (Wi_async _) = True"
| "is_plain (Wi_sync _) = True"
| "is_plain _ = False"

fun w_pc_ok :: "nat \<Rightarrow> nat option \<Rightarrow> wpc \<Rightarrow> bool" where
  "w_pc_ok i tq (C_push it To_idle) = is_fun it"
| "w_pc_ok i tq (C_push it (To_sync_wait _)) = (it = Wi_sync i)"
| "w_pc_ok i tq (C_push it (To_barrier_wait _)) = (it = Wi_barrier_sync i)"
| "w_pc_ok i tq (C_trylock q) = (q = tq)"
| "w_pc_ok i tq (C_drain q) = (q = tq)"
| "w_pc_ok i tq (C_item q _) = (q = tq)"
| "w_pc_ok i tq (C_item_width q _) = (q = tq)"
| "w_pc_ok i tq (C_item_target q _) = (q = tq)"
| "w_pc_ok i tq (C_item_barrier q it) = (q = tq \<and> \<not> is_plain it)"
| "w_pc_ok i tq (C_call q it) = (q = tq \<and> \<not> is_plain it)"
| "w_pc_ok i tq (C_call_signal q _) = (q = tq)"
| "w_pc_ok i tq (C_redirect q it) = (q = tq \<and> is_plain it)"
| "w_pc_ok i tq (C_sync_signal q _) = (q = tq)"
| "w_pc_ok i tq (C_redirect_retain q _) = (q = tq)"
| "w_pc_ok i tq (C_redirect_alloc q _) = (q = tq)"
| "w_pc_ok i tq (C_redirect_push q _) = (q = tq)"
| "w_pc_ok i tq (C_out q _) = (q = tq)"
| "w_pc_ok i tq (C_drained q) = (q = tq)"
| "w_pc_ok i tq _ = True"

section \<open>The invariants\<close>

abbreviation pcs :: "wthread list \<Rightarrow> wpc list" where
  "pcs ts \<equiv> map wt_pc ts"

text \<open>
  The lock word: its low bit is the lock, the rest are the readers.  While a barrier runs under the
  lock, the only readers are those that are about to undo their attempt.  Half the width bounds the
  redirected readers.
\<close>

definition readers :: "wide \<Rightarrow> wthread list \<Rightarrow> int" where
  "readers q ts = tsum w_red (pcs ts) + int (length (wq_root q)) + tsum w_read (pcs ts) + tsum got_sync ts"

definition run_inv :: "wide \<Rightarrow> wthread list \<Rightarrow> bool" where
  "run_inv q ts =
     (dq_running (wq_obj q) = tsum w_lock (pcs ts) + 2 * (readers q ts + tsum w_undo (pcs ts)) \<and>
      tsum w_lock (pcs ts) \<le> 1 \<and> (0 < tsum w_alone (pcs ts) \<longrightarrow> readers q ts = 0))"

definition width_inv :: "wide \<Rightarrow> wthread list \<Rightarrow> bool" where
  "width_inv q ts =
     (even (dq_width (wq_obj q)) \<and>
      2 * (tsum w_red (pcs ts) + int (length (wq_root q)) + tsum w_ready (pcs ts)) \<le> dq_width (wq_obj q))"

definition sus_inv :: "wide \<Rightarrow> wthread list \<Rightarrow> int \<Rightarrow> bool" where
  "sus_inv q ts susp =
     (do_suspend_cnt (wq_obj q) = tsum w_slock (pcs ts) + of_bool (wq_enqueued q) +
        2 * (susp + tsum w_bsus (pcs ts) + tsum w_resume (pcs ts) + tsum got_bar ts) \<and>
      tsum w_slock (pcs ts) + of_bool (wq_enqueued q) \<le> 1 \<and> 0 \<le> susp)"

text \<open>
  A synchronous barrier that came through the list suspends the queue.  Until its function has ended, there is
  only one such barrier, the drain does not get past the test of the suspend count, and no
  reader that came through the list is left.
\<close>

definition listed :: "wide \<Rightarrow> wthread list \<Rightarrow> int" where
  "listed q ts = tsum w_red (pcs ts) + int (length (wq_root q)) + tsum w_listed (pcs ts) + tsum got_sync ts"

definition bar_inv :: "wide \<Rightarrow> wthread list \<Rightarrow> bool" where
  "bar_inv q ts =
     (tsum w_bsus (pcs ts) + tsum got_bar ts \<le> 1 \<and>
      (0 < tsum w_bsus (pcs ts) + tsum got_bar ts \<longrightarrow> tsum w_past (pcs ts) = 0 \<and> listed q ts = 0))"

definition last_inv :: "wide \<Rightarrow> wthread list \<Rightarrow> bool" where
  "last_inv q ts = (\<forall>j<length ts. called (wq_taken q) (pcs ts ! j))"

definition pub_inv :: "wide \<Rightarrow> wthread list \<Rightarrow> bool" where
  "pub_inv q ts =
     (wq_head_set q = (tsum w_unpub (pcs ts) = 0) \<and> tsum w_unpub (pcs ts) \<le> 1 \<and>
      (wq_items q = [] \<longrightarrow> tsum w_unpub (pcs ts) = 0))"

text \<open>Whoever is bound to look at the list again.\<close>

definition lookers :: "wide \<Rightarrow> wthread list \<Rightarrow> int" where
  "lookers q ts = of_bool (wq_enqueued q) + tsum w_slock (pcs ts) + tsum w_looks (pcs ts) +
     int (length (wq_root q)) + tsum got_sync ts"

definition wake_inv :: "wide \<Rightarrow> wthread list \<Rightarrow> bool" where
  "wake_inv q ts = (wq_items q \<noteq> [] \<longrightarrow> do_suspend_cnt (wq_obj q) < 2 \<longrightarrow> 1 \<le> lookers q ts)"

text \<open>Every waiting thread has its continuation on the list or in the drain's hand, or its signal.\<close>

definition s_lack :: "wthread \<Rightarrow> int" where
  "s_lack th = w_swait (wt_pc th) * (1 - wt_sema th)"

definition b_lack :: "wthread \<Rightarrow> int" where
  "b_lack th = w_bwait (wt_pc th) * (1 - wt_sema th)"

definition lack :: "(wthread \<Rightarrow> int) \<Rightarrow> wthread list \<Rightarrow> nat \<Rightarrow> int" where
  "lack f ts j = (if j < length ts then f (ts ! j) else 0)"

definition wait_ok :: "wthread \<Rightarrow> bool" where
  "wait_ok th = (0 \<le> wt_sema th \<and> (w_swait (wt_pc th) + w_bwait (wt_pc th) = 0 \<longrightarrow> wt_sema th = 0))"

definition wwait_inv :: "wide \<Rightarrow> wthread list \<Rightarrow> bool" where
  "wwait_inv q ts =
     ((\<forall>j. tsum (is_sync j) (wq_items q) + tsum (hand_sync j) (pcs ts) =
           lack s_lack ts j) \<and>
      (\<forall>j. tsum (is_bar j) (wq_items q) + tsum (hand_bar j) (pcs ts) =
           lack b_lack ts j) \<and>
      list_all wait_ok ts)"

definition ok_inv :: "wide \<Rightarrow> wthread list \<Rightarrow> bool" where
  "ok_inv q ts = ((\<forall>i<length ts. w_pc_ok i (do_targetq (wq_obj q)) (pcs ts ! i)) \<and> do_targetq (wq_obj q) \<noteq> None)"

text \<open>Every item taken has ended, is with a thread, or was handed to its caller, who has not ended it yet.\<close>

fun handed :: "witem \<Rightarrow> wthread list \<Rightarrow> int" where
  "handed (Wi_sync j) ts = lack (\<lambda>th. got_sync th + slow_sync (wt_pc th)) ts j"
| "handed (Wi_barrier_sync j) ts = lack (\<lambda>th. got_bar th + slow_bar (wt_pc th)) ts j"
| "handed _ ts = 0"

definition wlog_inv :: "wide \<Rightarrow> wthread list \<Rightarrow> bool" where
  "wlog_inv q ts =
     (wq_submitted q = wq_taken q @ concat (map w_hand (pcs ts)) @ wq_items q \<and>
      (\<forall>x. int (count_list (wq_taken q) x) =
         int (count_list (wq_ended q) x) + int (count_list (map Wi_async (wq_root q)) x) + tsum (in_flight x) (pcs ts) +
         handed x ts))"

definition wref_inv :: "wide \<Rightarrow> wthread list \<Rightarrow> bool" where
  "wref_inv q ts =
     (do_ref_cnt (wq_obj q) = 1 + of_bool (wq_enqueued q) + int (length (wq_root q)) + tsum w_ref (pcs ts) \<and>
      dq_width (wq_obj q) + 2 * int (length ts) + 4 < DISPATCH_OBJECT_GLOBAL_REFCNT)"

definition wide_ok :: "wide \<Rightarrow> wthread list \<Rightarrow> int \<Rightarrow> bool" where
  "wide_ok q ts susp =
     (run_inv q ts \<and> width_inv q ts \<and> sus_inv q ts susp \<and> pub_inv q ts \<and> wake_inv q ts \<and> wwait_inv q ts \<and>
      ok_inv q ts \<and> wlog_inv q ts \<and> wref_inv q ts \<and> bar_inv q ts \<and> last_inv q ts)"

lemma w_counts [simp]:
  "0 \<le> w_lock p" "0 \<le> w_red p" "0 \<le> w_undo p" "0 \<le> w_read p" "0 \<le> w_ready p" "0 \<le> w_alone p" "0 \<le> w_slock p"
  "0 \<le> w_bsus p" "0 \<le> w_resume p" "0 \<le> w_unpub p" "0 \<le> w_looks p" "0 \<le> in_flight x p"
  "0 \<le> w_past p" "0 \<le> w_listed p" "0 \<le> slow_sync p" "0 \<le> slow_bar p"
  by (cases p; simp)+

lemma after_counts [simp]: "0 \<le> sync_after a" "sync_after a \<le> 1" "0 \<le> bar_after a" "bar_after a \<le> 1"
    "sync_after a + bar_after a \<le> 1"
  by (cases a; simp)+

lemma k_ref_range [simp]: "0 \<le> k_ref k" "k_ref k \<le> 1"
  by (cases k; simp)+

lemma item_counts [simp]: "0 \<le> is_sync j it" "0 \<le> is_bar j it"
  by (cases it; simp)+

lemma hand_counts [simp]: "0 \<le> hand_sync j p" "0 \<le> hand_bar j p"
  by (cases p; simp)+

lemma w_ref_range [simp]: "0 \<le> w_ref p" "w_ref p \<le> 2"
proof -
  have "0 \<le> k_ref k" "k_ref k \<le> 1" "k_ref k \<le> 2" for k
    by (cases k; simp)+
  then show "0 \<le> w_ref p" "w_ref p \<le> 2"
    by (cases p; simp)+
qed

lemma w_compare:
  "w_ready p \<le> w_lock p" "w_alone p \<le> w_lock p" "w_lock p \<le> w_slock p + w_looks p" "w_red p \<le> w_slock p + w_looks p"
  "w_undo p \<le> w_looks p" "w_read p \<le> w_slock p + w_looks p" "w_slock p \<le> w_ref p + 1" "w_red p \<le> w_ref p + 1"
  "w_past p \<le> w_lock p" "w_listed p \<le> w_read p"
  by (cases p; simp)+

text \<open>A property of what an action leads to.\<close>

fun wgoes :: "(wide \<Rightarrow> wthread list \<Rightarrow> bool) \<Rightarrow> nat \<Rightarrow> wthread list \<Rightarrow> wres \<Rightarrow> bool" where
  "wgoes P i ts (W_goes q th sig) = P q (signalled sig (ts[i := th]))"
| "wgoes P i ts _ = True"

lemma wgoes_if [simp]: "wgoes P i ts (if b then x else y) = (if b then wgoes P i ts x else wgoes P i ts y)"
  by simp

lemma signalled_None [simp]: "signalled None ts = ts"
  by (simp add: signalled_def)

lemma pcs_update [simp]: "pcs (ts[i := th]) = (pcs ts)[i := wt_pc th]"
  by (simp add: map_update)

lemma pcs_same [simp]: "wt_pc th = wt_pc (ts ! i) \<Longrightarrow> (pcs ts)[i := wt_pc th] = pcs ts"
  by (cases "i < length ts") (auto simp: list_eq_iff_nth_eq nth_list_update)

lemma signalled_pcs [simp]: "pcs (signalled sig ts) = pcs ts" "length (signalled sig ts) = length ts"
  using pcs_same [of "(ts ! j)\<lparr>wt_sema := wt_sema (ts ! j) + 1\<rparr>" ts j for j]
  by (auto simp: signalled_def split: option.splits)

lemma tsum_got_signalled:
  assumes "j < length ts"
  shows "tsum got_sync (signalled (Some j) ts) = tsum got_sync ts + w_swait (wt_pc (ts ! j))"
    "tsum got_bar (signalled (Some j) ts) = tsum got_bar ts + w_bwait (wt_pc (ts ! j))"
  using assms by (simp_all add: signalled_def tsum_update got_sync_def got_bar_def algebra_simps)

text \<open>Where a push and a wake-up return to.\<close>

lemma wafter_counts [simp]:
  "w_lock (wafter_pc a) = 0" "w_red (wafter_pc a) = 0" "w_undo (wafter_pc a) = 0" "w_read (wafter_pc a) = 0"
  "w_ready (wafter_pc a) = 0" "w_alone (wafter_pc a) = 0" "w_slock (wafter_pc a) = 0" "w_bsus (wafter_pc a) = 0"
  "w_resume (wafter_pc a) = 0" "w_ref (wafter_pc a) = 0" "w_unpub (wafter_pc a) = 0" "w_looks (wafter_pc a) = 0"
  "w_hand (wafter_pc a) = []" "hand_sync j (wafter_pc a) = 0" "hand_bar j (wafter_pc a) = 0"
  "in_flight x (wafter_pc a) = 0" "w_pc_ok i tq (wafter_pc a)" "w_after (wafter_pc a) = a"
  "w_past (wafter_pc a) = 0" "w_listed (wafter_pc a) = 0" "slow_sync (wafter_pc a) = 0" "slow_bar (wafter_pc a) = 0"
  "called xs (wafter_pc a)"
  by (cases a; simp)+

lemma wwake_counts [simp]:
  "w_lock (wwake_next k) = 0" "w_red (wwake_next k) = 0" "w_undo (wwake_next k) = 0" "w_read (wwake_next k) = 0"
  "w_ready (wwake_next k) = 0" "w_alone (wwake_next k) = 0" "w_slock (wwake_next k) = 0" "w_bsus (wwake_next k) = 0"
  "w_resume (wwake_next k) = 0" "w_ref (wwake_next k) = k_ref k" "w_unpub (wwake_next k) = 0" "w_looks (wwake_next k) = 0"
  "w_hand (wwake_next k) = []" "hand_sync j (wwake_next k) = 0" "hand_bar j (wwake_next k) = 0"
  "in_flight x (wwake_next k) = 0" "w_pc_ok i tq (wwake_next k)" "w_after (wwake_next k) = k_after k"
  "w_past (wwake_next k) = 0" "w_listed (wwake_next k) = 0" "slow_sync (wwake_next k) = 0" "slow_bar (wwake_next k) = 0"
  "called xs (wwake_next k)"
  by (cases k; simp)+

section \<open>Every action keeps the invariants\<close>

lemma tsum_w_nonneg:
  "0 \<le> tsum w_lock ps" "0 \<le> tsum w_red ps" "0 \<le> tsum w_undo ps" "0 \<le> tsum w_read ps" "0 \<le> tsum w_ready ps"
  "0 \<le> tsum w_alone ps" "0 \<le> tsum w_slock ps" "0 \<le> tsum w_bsus ps" "0 \<le> tsum w_resume ps" "0 \<le> tsum w_ref ps"
  "0 \<le> tsum w_unpub ps" "0 \<le> tsum w_looks ps" "0 \<le> tsum (hand_sync j) ps" "0 \<le> tsum (hand_bar j) ps"
  "0 \<le> tsum (in_flight x) ps" "0 \<le> tsum (is_sync j) its" "0 \<le> tsum (is_bar j) its"
  "0 \<le> tsum w_past ps" "0 \<le> tsum w_listed ps"
  by (rule tsum_nonneg, simp)+

lemma tsum_ge_member:
  assumes "i < length ts" "\<And>p. p \<in> set ts \<Longrightarrow> 0 \<le> f p"
  shows "f (ts ! i) \<le> tsum f ts"
proof -
  have "tsum f ts = tsum f (take i ts) + (f (ts ! i) + tsum f (drop (Suc i) ts))"
    using assms(1) by (metis id_take_nth_drop tsum_simps(2,3))
  moreover have "0 \<le> tsum f (take i ts)" "0 \<le> tsum f (drop (Suc i) ts)"
    using assms(2) by (auto intro!: tsum_nonneg dest: in_set_takeD in_set_dropD)
  ultimately show ?thesis
    by simp
qed

lemma wwait_invD:
  assumes "wwait_inv q ts"
  shows "tsum (is_sync j) (wq_items q) + tsum (hand_sync j) (pcs ts) = lack s_lack ts j"
    "tsum (is_bar j) (wq_items q) + tsum (hand_bar j) (pcs ts) = lack b_lack ts j"
    "th \<in> set ts \<Longrightarrow> 0 \<le> wt_sema th"
    "th \<in> set ts \<Longrightarrow> w_swait (wt_pc th) + w_bwait (wt_pc th) = 0 \<Longrightarrow> wt_sema th = 0"
  using assms by (simp_all add: wwait_inv_def wait_ok_def list_all_iff)

lemma got_nonneg:
  assumes "wwait_inv q ts"
  shows "0 \<le> tsum got_sync ts" "0 \<le> tsum got_bar ts" "i < length ts \<Longrightarrow> got_sync (ts ! i) \<le> tsum got_sync ts"
    "i < length ts \<Longrightarrow> got_bar (ts ! i) \<le> tsum got_bar ts"
proof -
  have g: "0 \<le> got_sync th" "0 \<le> got_bar th" if "th \<in> set ts" for th
    using wwait_invD(3) [OF assms that] by (simp_all add: got_sync_def got_bar_def)
  show "0 \<le> tsum got_sync ts" "0 \<le> tsum got_bar ts"
    using g by (auto intro: tsum_nonneg)
  show "i < length ts \<Longrightarrow> got_sync (ts ! i) \<le> tsum got_sync ts" "i < length ts \<Longrightarrow> got_bar (ts ! i) \<le> tsum got_bar ts"
    by (rule tsum_ge_member; use g in simp)+
qed

lemma wref_range:
  assumes "wref_inv q ts" "width_inv q ts"
  shows "1 \<le> do_ref_cnt (wq_obj q)" "do_ref_cnt (wq_obj q) + 1 < DISPATCH_OBJECT_GLOBAL_REFCNT"
proof -
  have "tsum w_ref (pcs ts) \<le> tsum (\<lambda>_. 2) (pcs ts)"
    by (rule tsum_mono) simp
  also have "\<dots> = 2 * int (length ts)"
    by (induction ts) auto
  finally have "tsum w_ref (pcs ts) \<le> 2 * int (length ts)" .
  moreover have "2 * int (length (wq_root q)) \<le> dq_width (wq_obj q)"
    using assms(2) tsum_w_nonneg(2) [of "pcs ts"] tsum_w_nonneg(5) [of "pcs ts"] by (auto simp: width_inv_def)
  ultimately show "1 \<le> do_ref_cnt (wq_obj q)" "do_ref_cnt (wq_obj q) + 1 < DISPATCH_OBJECT_GLOBAL_REFCNT"
    using assms(1) tsum_w_nonneg(10) [of "pcs ts"] by (auto simp: wref_inv_def of_bool_def split: if_splits)
qed

lemma wide_retain_goes:
  assumes "wref_inv q ts" "width_inv q ts"
  shows "wide_retain q th p = W_at (upd_wq (do_ref_cnt_update (\<lambda>n. n + 1)) q) th p"
  using wref_range [OF assms] by (simp add: wide_retain_def u_dispatch_retain_def upd_wq_def)

lemma wide_release_goes:
  assumes "wref_inv q ts" "width_inv q ts" "i < length ts" "1 \<le> w_ref (wt_pc (ts ! i))"
  shows "wide_release q th p = W_at (upd_wq (do_ref_cnt_update (\<lambda>n. n - 1)) q) th p"
proof -
  have "w_ref (pcs ts ! i) \<le> tsum w_ref (pcs ts)"
    by (rule tsum_ge) (use assms(3) in simp_all)
  then have "1 < do_ref_cnt (wq_obj q)"
    using assms by (simp add: wref_inv_def)
  then show ?thesis
    using wref_range [OF assms(1,2)] by (simp add: wide_release_def release_count_def upd_wq_def)
qed

lemma wide_suspend_goes:
  assumes "wref_inv q ts" "width_inv q ts"
  shows "upd_wq dispatch_suspend q = upd_wq (do_suspend_cnt_update (\<lambda>n. n + 2)) q"
  using wref_range [OF assms] by (simp add: upd_wq_def dispatch_suspend_def DISPATCH_OBJECT_SUSPEND_INTERVAL_def)

lemma wide_resume_goes:
  assumes "wref_inv q ts" "width_inv q ts" "sus_inv q ts susp" "wwait_inv q ts" "i < length ts" "wt_pc (ts ! i) = C_resume"
  shows "wide_resume q th = W_at (upd_wq (do_suspend_cnt_update (\<lambda>n. n - 2)) q) th
    (if do_suspend_cnt (wq_obj q) = 2 then C_wakeup Ww_return else C_idle)"
proof -
  have "w_resume (pcs ts ! i) \<le> tsum w_resume (pcs ts)"
    by (rule tsum_ge) (use assms(5) in simp_all)
  then have "2 \<le> do_suspend_cnt (wq_obj q)"
    using assms(3,5,6) got_nonneg(2) [OF assms(4)] tsum_w_nonneg(8) [of "pcs ts"] tsum_w_nonneg(7) [of "pcs ts"]
    by (simp add: sus_inv_def)
  then show ?thesis
    using wref_range [OF assms(1,2)]
    by (auto simp: wide_resume_def dispatch_resume_def upd_wq_def DISPATCH_OBJECT_SUSPEND_INTERVAL_def
        DISPATCH_OBJECT_SUSPEND_LOCK_def)
qed

lemma wide_running_simps [simp]:
  "wq_obj (upd_wq f q) = f (wq_obj q)" "wq_items (upd_wq f q) = wq_items q" "wq_head_set (upd_wq f q) = wq_head_set q"
  "wq_enqueued (upd_wq f q) = wq_enqueued q" "wq_root (upd_wq f q) = wq_root q" "wq_submitted (upd_wq f q) = wq_submitted q"
  "wq_taken (upd_wq f q) = wq_taken q" "wq_ended (upd_wq f q) = wq_ended q"
  by (simp_all add: upd_wq_def)

lemmas wide_code = wide_exec_def wide_push_list_def dispatch_async_f_def dispatch_barrier_async_f_def wide_wakeup_def dispatch_sync_f_def
  wide_barrier_sync_f_def u_dispatch_async_f_redirect_def u_dispatch_async_f_redirect2_def wide_drain_def wide_invoke_def
  u_dispatch_continuation_alloc_cacheonly_def Let_def add_running_def

text \<open>The thread whose continuation the drain has is waiting for its signal.\<close>

lemma signalled_waits:
  assumes "wwait_inv q ts" "i < length ts"
  shows "wt_pc (ts ! i) = C_sync_signal tq j \<Longrightarrow> j < length ts \<and> j \<noteq> i \<and> w_swait (wt_pc (ts ! j)) = 1 \<and> w_bwait (wt_pc (ts ! j)) = 0 \<and> wt_sema (ts ! j) = 0"
    and "wt_pc (ts ! i) = C_call_signal tq j \<Longrightarrow> j < length ts \<and> j \<noteq> i \<and> w_bwait (wt_pc (ts ! j)) = 1 \<and> w_swait (wt_pc (ts ! j)) = 0 \<and> wt_sema (ts ! j) = 0"
proof -
  have le: "hand_sync j (pcs ts ! i) \<le> tsum (hand_sync j) (pcs ts)" "hand_bar j (pcs ts ! i) \<le> tsum (hand_bar j) (pcs ts)"
    by (rule tsum_ge; use assms(2) in simp)+
  have s: "0 \<le> wt_sema (ts ! j)" if "j < length ts"
    using wwait_invD(3) [OF assms(1)] that by simp
  have a: "sync_after a = 1 \<and> bar_after a = 0 \<or> sync_after a = 0" "bar_after a = 1 \<and> sync_after a = 0 \<or> bar_after a = 0" for a
    by (cases a; simp)+
  show "wt_pc (ts ! i) = C_sync_signal tq j \<Longrightarrow> j < length ts \<and> j \<noteq> i \<and> w_swait (wt_pc (ts ! j)) = 1 \<and> w_bwait (wt_pc (ts ! j)) = 0 \<and> wt_sema (ts ! j) = 0"
    using assms(2) le(1) s a(1) [of "w_after (wt_pc (ts ! j))"] tsum_w_nonneg(16) [of j "wq_items q"] wwait_invD(1) [OF assms(1), of j]
    by (cases "j = i") (auto simp: lack_def s_lack_def split: if_splits)
  show "wt_pc (ts ! i) = C_call_signal tq j \<Longrightarrow> j < length ts \<and> j \<noteq> i \<and> w_bwait (wt_pc (ts ! j)) = 1 \<and> w_swait (wt_pc (ts ! j)) = 0 \<and> wt_sema (ts ! j) = 0"
    using assms(2) le(2) s a(2) [of "w_after (wt_pc (ts ! j))"] tsum_w_nonneg(17) [of j "wq_items q"] wwait_invD(2) [OF assms(1), of j]
    by (cases "j = i") (auto simp: lack_def b_lack_def split: if_splits)
qed

lemma sema_le:
  assumes "wwait_inv q ts" "i < length ts"
  shows "0 \<le> wt_sema (ts ! i)" "w_swait (wt_pc (ts ! i)) + w_bwait (wt_pc (ts ! i)) = 0 \<Longrightarrow> wt_sema (ts ! i) = 0"
    "w_swait (wt_pc (ts ! i)) * wt_sema (ts ! i) \<le> w_swait (wt_pc (ts ! i))"
    "w_bwait (wt_pc (ts ! i)) * wt_sema (ts ! i) \<le> w_bwait (wt_pc (ts ! i))"
  using wwait_invD(1,2) [OF assms(1), of i] wwait_invD(3,4) [OF assms(1), of "ts ! i"] assms(2) tsum_w_nonneg(13,14) [of i "pcs ts"]
    tsum_w_nonneg(16,17) [of i "wq_items q"]
  by (auto simp: lack_def s_lack_def b_lack_def algebra_simps)

lemma tsum_pcs_update:
  assumes "i < length ts"
  shows "tsum f ((pcs ts)[i := p]) = tsum f (pcs ts) - f (wt_pc (ts ! i)) + f p"
  using assms by (simp add: tsum_update)

lemma tsum_pcs_ge:
  assumes "i < length ts" "\<And>p. 0 \<le> f p"
  shows "f (wt_pc (ts ! i)) \<le> tsum f (pcs ts)"
  using tsum_ge [of i "pcs ts" f] assms by simp

lemma tsum_pcs_but:
  assumes "i < length ts" "\<And>p. f p \<le> g p"
  shows "tsum f (pcs ts) - f (wt_pc (ts ! i)) \<le> tsum g (pcs ts) - g (wt_pc (ts ! i))"
  using tsum_mono_but [of i "pcs ts" f g] assms by simp

lemma run_inv_run:
  assumes inv: "run_inv q ts" "wwait_inv q ts" "ok_inv q ts" "wref_inv q ts" "width_inv q ts" "sus_inv q ts susp"
    and i: "i < length ts"
  shows "wgoes run_inv i ts (wide_exec i q (ts ! i) (wt_pc (ts ! i)))"
proof -
  have lock: "tsum w_lock (pcs ts) = 0 \<or> tsum w_lock (pcs ts) = 1"
    using inv(1) tsum_w_nonneg(1) [of "pcs ts"] by (auto simp: run_inv_def)
  have target: "do_targetq (wq_obj q) \<noteq> None"
    using inv(3) by (simp add: ok_inv_def)
  note nonneg = tsum_w_nonneg(1-6) [of "pcs ts"] got_nonneg(1) [OF inv(2)] got_nonneg(3) [OF inv(2) i]
  note le = tsum_pcs_ge [OF i, of w_lock] tsum_pcs_ge [OF i, of w_alone] tsum_pcs_but [OF i, of w_alone w_lock]
    tsum_pcs_ge [OF i, of w_undo] tsum_pcs_ge [OF i, of w_read] tsum_pcs_ge [OF i, of w_red]
  show ?thesis
    using inv(1) lock nonneg le target sema_le [OF inv(2) i] signalled_waits [OF inv(2) i]
    by (cases "wt_pc (ts ! i)")
      (simp_all add: wide_code run_inv_def readers_def wide_retain_goes [OF inv(4,5)] wide_release_goes [OF inv(4,5) i]
        wide_resume_goes [OF inv(4-6,2) i] wide_suspend_goes [OF inv(4,5)] u_dispatch_trylock_def tsum_pcs_update [OF i]
        tsum_update [OF i] got_sync_def tsum_got_signalled w_compare split: if_splits witem.splits list.splits, auto)
qed

lemma width_inv_run:
  assumes inv: "width_inv q ts" "run_inv q ts" "wwait_inv q ts" "ok_inv q ts" "wref_inv q ts" "sus_inv q ts susp"
    and i: "i < length ts"
  shows "wgoes width_inv i ts (wide_exec i q (ts ! i) (wt_pc (ts ! i)))"
proof -
  note nonneg = tsum_w_nonneg(1-6) [of "pcs ts"] got_nonneg(1) [OF inv(3)]
  note le = tsum_pcs_ge [OF i, of w_lock] tsum_pcs_ge [OF i, of w_ready] tsum_pcs_but [OF i, of w_ready w_lock]
    tsum_pcs_ge [OF i, of w_red]
  have w: "1 + 2 * x \<le> dq_width (wq_obj q) \<Longrightarrow> 2 * x + 2 \<le> dq_width (wq_obj q)" for x
    using inv(1) unfolding width_inv_def by (elim conjE evenE) arith
  show ?thesis
    using inv(1,2) nonneg le w [of "readers q ts + tsum w_undo (pcs ts)"]
    by (cases "wt_pc (ts ! i)")
      (simp_all add: wide_code run_inv_def width_inv_def readers_def wide_retain_goes [OF inv(5,1)] wide_release_goes [OF inv(5,1) i]
        wide_resume_goes [OF inv(5,1,6,3) i] wide_suspend_goes [OF inv(5,1)] u_dispatch_trylock_def tsum_pcs_update [OF i]
        w_compare split: if_splits witem.splits list.splits, auto)
qed

lemma sus_inv_run:
  assumes inv: "sus_inv q ts susp" "wwait_inv q ts" "ok_inv q ts" "wref_inv q ts" "width_inv q ts"
    and i: "i < length ts"
  shows "wgoes (\<lambda>q ts. sus_inv q ts susp) i ts (wide_exec i q (ts ! i) (wt_pc (ts ! i)))"
proof -
  have pc: "w_pc_ok i (do_targetq (wq_obj q)) (wt_pc (ts ! i))"
    using inv(3) i by (simp add: ok_inv_def)
  note nonneg = tsum_w_nonneg(7-9) [of "pcs ts"] got_nonneg(2) [OF inv(2)] got_nonneg(4) [OF inv(2) i]
  have one: "1 \<le> tsum w_slock (pcs ts) \<Longrightarrow> \<not> wq_enqueued q \<and> tsum w_slock (pcs ts) = 1"
    using inv(1) by (auto simp: sus_inv_def of_bool_def split: if_splits)
  note le = tsum_pcs_ge [OF i, of w_slock] tsum_pcs_ge [OF i, of w_bsus] tsum_pcs_ge [OF i, of w_resume]
  show ?thesis
    using inv(1) nonneg le one pc sema_le [OF inv(2) i] signalled_waits [OF inv(2) i]
    by (cases "wt_pc (ts ! i)")
      (simp_all add: wide_code sus_inv_def wide_retain_goes [OF inv(4,5)] wide_release_goes [OF inv(4,5) i]
        wide_resume_goes [OF inv(4,5,1,2) i] wide_suspend_goes [OF inv(4,5)] u_dispatch_trylock_def tsum_pcs_update [OF i]
        DISPATCH_OBJECT_SUSPEND_LOCK_def
        tsum_update [OF i] got_bar_def tsum_got_signalled split: if_splits witem.splits list.splits)
qed

lemma wref_inv_run:
  assumes inv: "wref_inv q ts" "width_inv q ts" "wwait_inv q ts" "ok_inv q ts" "sus_inv q ts susp"
    and i: "i < length ts"
  shows "wgoes wref_inv i ts (wide_exec i q (ts ! i) (wt_pc (ts ! i)))"
proof -
  have slock: "tsum w_slock (pcs ts) + of_bool (wq_enqueued q) \<le> 1"
    using inv(5) by (simp add: sus_inv_def)
  have pc: "w_pc_ok i (do_targetq (wq_obj q)) (wt_pc (ts ! i))"
    using inv(4) i by (simp add: ok_inv_def)
  show ?thesis
    using inv(1) slock pc tsum_w_nonneg(7,10) [of "pcs ts"] tsum_pcs_ge [OF i, of w_slock]
    by (cases "wt_pc (ts ! i)")
      (simp_all add: wide_code wref_inv_def wide_retain_goes [OF inv(1,2)] wide_release_goes [OF inv(1,2) i]
        wide_resume_goes [OF inv(1,2,5,3) i] wide_suspend_goes [OF inv(1,2)] u_dispatch_trylock_def tsum_pcs_update [OF i]
        split: if_splits witem.splits list.splits, auto)
qed

lemma pub_inv_run:
  assumes inv: "pub_inv q ts" "run_inv q ts" "wwait_inv q ts" "wref_inv q ts" "width_inv q ts" "sus_inv q ts susp"
    and i: "i < length ts"
  shows "wgoes pub_inv i ts (wide_exec i q (ts ! i) (wt_pc (ts ! i)))"
  using inv(1) tsum_w_nonneg(11) [of "pcs ts"] tsum_pcs_ge [OF i, of w_unpub]
  by (cases "wt_pc (ts ! i)")
    (simp_all add: wide_code pub_inv_def wide_retain_goes [OF inv(4,5)] wide_release_goes [OF inv(4,5) i]
      wide_resume_goes [OF inv(4,5,6,3) i] wide_suspend_goes [OF inv(4,5)] u_dispatch_trylock_def tsum_pcs_update [OF i]
      split: if_splits witem.splits list.splits)

lemma ok_inv_run:
  assumes inv: "ok_inv q ts" "wwait_inv q ts" "wref_inv q ts" "width_inv q ts" "sus_inv q ts susp"
    and i: "i < length ts"
  shows "wgoes ok_inv i ts (wide_exec i q (ts ! i) (wt_pc (ts ! i)))"
proof -
  have pc: "w_pc_ok i (do_targetq (wq_obj q)) (wt_pc (ts ! i))"
    using inv(1) i by (simp add: ok_inv_def)
  have upd: "(\<forall>j<length ts. w_pc_ok j (do_targetq (wq_obj q)) ((pcs ts)[i := p] ! j)) \<longleftrightarrow> w_pc_ok i (do_targetq (wq_obj q)) p" for p
    using inv(1) i by (auto simp: ok_inv_def nth_list_update)
  show ?thesis
    using inv(1) pc
    by (cases "wt_pc (ts ! i)")
      (simp_all add: wide_code ok_inv_def wide_retain_goes [OF inv(3,4)] wide_release_goes [OF inv(3,4) i]
        wide_resume_goes [OF inv(3,4,5,2) i] wide_suspend_goes [OF inv(3,4)] u_dispatch_trylock_def upd
        split: if_splits witem.splits list.splits)
qed

text \<open>Whoever holds the lock word or counts in it is bound to look at the list.\<close>

lemma running_looks:
  assumes "run_inv q ts" "wwait_inv q ts" "i < length ts"
    "dq_running (wq_obj q) \<noteq> w_lock (wt_pc (ts ! i)) + 2 * (w_red (wt_pc (ts ! i)) + w_read (wt_pc (ts ! i)) + w_undo (wt_pc (ts ! i)))"
  shows "w_slock (wt_pc (ts ! i)) + w_looks (wt_pc (ts ! i)) <
    tsum w_slock (pcs ts) + tsum w_looks (pcs ts) + int (length (wq_root q)) + tsum got_sync ts"
proof (rule ccontr)
  let ?p = "wt_pc (ts ! i)" and ?g = "\<lambda>p. w_slock p + w_looks p"
  assume a: "\<not> ?thesis"
  have c: "w_lock p \<le> ?g p" "w_red p \<le> ?g p" "w_read p \<le> ?g p" "w_undo p \<le> ?g p" for p
    by (cases p; simp)+
  note but = tsum_pcs_but [OF assms(3), of w_lock ?g, OF c(1)] tsum_pcs_but [OF assms(3), of w_red ?g, OF c(2)]
    tsum_pcs_but [OF assms(3), of w_read ?g, OF c(3)] tsum_pcs_but [OF assms(3), of w_undo ?g, OF c(4)]
  have ge: "w_lock ?p \<le> tsum w_lock (pcs ts)" "w_red ?p \<le> tsum w_red (pcs ts)" "w_undo ?p \<le> tsum w_undo (pcs ts)"
    "w_read ?p \<le> tsum w_read (pcs ts)" "w_slock ?p \<le> tsum w_slock (pcs ts)" "w_looks ?p \<le> tsum w_looks (pcs ts)"
    using assms(3) by (simp_all add: tsum_pcs_ge)
  have "tsum got_sync ts = 0 \<and> wq_root q = []"
    using a got_nonneg(1) [OF assms(2)] ge(5,6) by (cases "wq_root q") auto
  moreover have "tsum w_lock (pcs ts) = w_lock ?p" "tsum w_red (pcs ts) = w_red ?p" "tsum w_read (pcs ts) = w_read ?p"
    "tsum w_undo (pcs ts) = w_undo ?p"
    using a but ge got_nonneg(1) [OF assms(2)] by (simp_all add: tsum_add)
  ultimately show False
    using assms(1,4) by (simp add: run_inv_def readers_def)
qed

lemma wake_inv_run:
  assumes inv: "wake_inv q ts" "run_inv q ts" "wwait_inv q ts" "wref_inv q ts" "width_inv q ts" "sus_inv q ts susp"
    and i: "i < length ts"
  shows "wgoes wake_inv i ts (wide_exec i q (ts ! i) (wt_pc (ts ! i)))"
proof -
  define N where "N = susp + tsum w_bsus (pcs ts) + tsum w_resume (pcs ts) + tsum got_bar ts"
  have N: "do_suspend_cnt (wq_obj q) = tsum w_slock (pcs ts) + of_bool (wq_enqueued q) + 2 * N" "0 \<le> N"
      "tsum w_slock (pcs ts) + of_bool (wq_enqueued q) \<le> 1"
    using inv(6) tsum_w_nonneg(8,9) [of "pcs ts"] got_nonneg(2) [OF inv(3)] by (auto simp: sus_inv_def N_def)
  have cnt: "do_suspend_cnt (wq_obj q) \<noteq> 0 \<Longrightarrow> do_suspend_cnt (wq_obj q) < 2 \<Longrightarrow> 1 \<le> tsum w_slock (pcs ts) + of_bool (wq_enqueued q)"
    "do_suspend_cnt (wq_obj q) \<noteq> 2 \<Longrightarrow> \<not> do_suspend_cnt (wq_obj q) < 2 \<Longrightarrow> do_suspend_cnt (wq_obj q) < 4 \<Longrightarrow>
       1 \<le> tsum w_slock (pcs ts) + of_bool (wq_enqueued q)"
    "1 \<le> tsum w_slock (pcs ts) \<Longrightarrow> do_suspend_cnt (wq_obj q) < 3 \<Longrightarrow> do_suspend_cnt (wq_obj q) = 1"
    using N tsum_w_nonneg(7) [of "pcs ts"] by (auto simp: of_bool_def split: if_splits) presburger+
  show ?thesis
    using inv(1) cnt tsum_w_nonneg(7,12) [of "pcs ts"] got_nonneg(1) [OF inv(3)] got_nonneg(3) [OF inv(3) i]
      tsum_pcs_ge [OF i, of w_slock] tsum_pcs_ge [OF i, of w_looks] running_looks [OF inv(2,3) i]
      sema_le [OF inv(3) i] signalled_waits [OF inv(3) i]
    by (cases "wt_pc (ts ! i)")
      (simp_all add: wide_code wake_inv_def lookers_def wide_retain_goes [OF inv(4,5)] wide_release_goes [OF inv(4,5) i]
        wide_resume_goes [OF inv(4,5,6,3) i] wide_suspend_goes [OF inv(4,5)] u_dispatch_trylock_def tsum_pcs_update [OF i]
        tsum_update [OF i] got_sync_def tsum_got_signalled DISPATCH_OBJECT_SUSPENDED_def
        DISPATCH_OBJECT_SUSPEND_INTERVAL_def DISPATCH_OBJECT_SUSPEND_LOCK_def
        split: if_splits witem.splits list.splits, auto)
qed

lemma bar_inv_run:
  assumes inv: "bar_inv q ts" "run_inv q ts" "wwait_inv q ts" "ok_inv q ts" "wref_inv q ts" "width_inv q ts" "sus_inv q ts susp"
    and i: "i < length ts"
  shows "wgoes bar_inv i ts (wide_exec i q (ts ! i) (wt_pc (ts ! i)))"
proof -
  have pc: "w_pc_ok i (do_targetq (wq_obj q)) (wt_pc (ts ! i))"
    using inv(4) i by (simp add: ok_inv_def)
  note nonneg = tsum_w_nonneg(1,2,4,6-9,18,19) [of "pcs ts"] got_nonneg(1) [OF inv(3)] got_nonneg(2) [OF inv(3)]
  note le = tsum_pcs_ge [OF i, of w_alone] tsum_pcs_ge [OF i, of w_past] tsum_pcs_but [OF i, of w_past w_lock] tsum_pcs_ge [OF i, of w_bsus]
    tsum_pcs_ge [OF i, of w_red] tsum_pcs_ge [OF i, of w_listed] got_nonneg(3) [OF inv(3) i] got_nonneg(4) [OF inv(3) i]
  have free: "do_suspend_cnt (wq_obj q) < 2 \<Longrightarrow> tsum w_bsus (pcs ts) + tsum got_bar ts = 0"
    using inv(7) nonneg by (auto simp: sus_inv_def of_bool_def split: if_splits)
  have alone: "0 < tsum w_alone (pcs ts) \<Longrightarrow> listed q ts = 0" "tsum w_lock (pcs ts) \<le> 1"
    using inv(2) nonneg tsum_mono [of "pcs ts" w_listed w_read] by (auto simp: run_inv_def readers_def listed_def w_compare)
  show ?thesis
    using inv(1) nonneg le free alone pc sema_le [OF inv(3) i] signalled_waits [OF inv(3) i]
    by (cases "wt_pc (ts ! i)")
      (simp_all add: wide_code bar_inv_def listed_def wide_retain_goes [OF inv(5,6)] wide_release_goes [OF inv(5,6) i]
        wide_resume_goes [OF inv(5-7,3) i] wide_suspend_goes [OF inv(5,6)] u_dispatch_trylock_def tsum_pcs_update [OF i]
        tsum_update [OF i] got_sync_def got_bar_def tsum_got_signalled w_compare DISPATCH_OBJECT_SUSPENDED_def
        DISPATCH_OBJECT_SUSPEND_INTERVAL_def split: if_splits witem.splits list.splits, auto)
qed

lemma lack_update:
  assumes "i < length ts"
  shows "lack f (ts[i := th]) j = lack f ts j + (if j = i then f th - f (ts ! i) else 0)"
  using assms by (simp add: lack_def)

lemma lack_signalled:
  assumes "j < length ts"
  shows "lack f (signalled (Some j) ts) k =
    lack f ts k + (if k = j then f ((ts ! j)\<lparr>wt_sema := wt_sema (ts ! j) + 1\<rparr>) - f (ts ! j) else 0)"
  using assms by (simp add: lack_def signalled_def)

lemma wait_ok_signalled:
  assumes "j < length ts" "w_swait (wt_pc (ts ! j)) + w_bwait (wt_pc (ts ! j)) = 1" "list_all wait_ok ts"
  shows "list_all wait_ok (signalled (Some j) ts)"
  using assms by (auto simp: list_all_length signalled_def wait_ok_def nth_list_update)

lemma push_ok:
  assumes "w_pc_ok i tq (C_push it a)"
  shows "is_sync j it = (if j = i then sync_after a else 0)" "is_bar j it = (if j = i then bar_after a else 0)"
  using assms by (cases a; cases it; simp)+

lemma barrier_not_sync: "\<not> is_plain it \<Longrightarrow> is_sync j it = 0"
  by (cases it) simp_all

lemma wwait_inv_run:
  assumes inv: "wwait_inv q ts" "ok_inv q ts" "wref_inv q ts" "width_inv q ts" "sus_inv q ts susp"
    and i: "i < length ts"
  shows "wgoes wwait_inv i ts (wide_exec i q (ts ! i) (wt_pc (ts ! i)))"
proof -
  have pc: "w_pc_ok i (do_targetq (wq_obj q)) (wt_pc (ts ! i))"
    using inv(2) i by (simp add: ok_inv_def)
  have set: "list_all wait_ok (ts[i := th']) \<longleftrightarrow> wait_ok th'" for th'
    using inv(1) i by (auto simp: wwait_inv_def list_all_length nth_list_update)
  have inv': "lack s_lack ts j = tsum (is_sync j) (wq_items q) + tsum (hand_sync j) (pcs ts)"
    "lack b_lack ts j = tsum (is_bar j) (wq_items q) + tsum (hand_bar j) (pcs ts)" for j
    using wwait_invD [OF inv(1)] by simp_all
  show ?thesis
    using pc push_ok [of i "do_targetq (wq_obj q)"] sema_le [OF inv(1) i] signalled_waits [OF inv(1) i]
    by (cases "wt_pc (ts ! i)")
      (simp_all add: wide_code wwait_inv_def wide_retain_goes [OF inv(3,4)] wide_release_goes [OF inv(3,4) i]
        wide_resume_goes [OF inv(3,4,5,1) i] wide_suspend_goes [OF inv(3,4)] u_dispatch_trylock_def tsum_pcs_update [OF i]
        lack_update [OF i] lack_signalled s_lack_def b_lack_def set wait_ok_def inv' wait_ok_signalled barrier_not_sync
        split: if_splits witem.splits list.splits)
qed

text \<open>The drain holds the lock, so at most one thread has an item in its hand.\<close>

lemma hand_lock: "w_lock p = 0 \<Longrightarrow> w_hand p = []"
  by (cases p) simp_all

lemma hands_same:
  assumes "i < length ts" "w_hand p = w_hand (wt_pc (ts ! i))"
  shows "concat (map w_hand ((pcs ts)[i := p])) = concat (map w_hand (pcs ts))"
proof -
  have "map w_hand ((pcs ts)[i := p]) = map w_hand (pcs ts)"
    using assms by (auto simp: list_eq_iff_nth_eq nth_list_update)
  then show ?thesis
    by (rule arg_cong)
qed

lemma lock_others:
  assumes "run_inv q ts" "i < length ts" "w_lock (wt_pc (ts ! i)) = 1" "j < length ts" "j \<noteq> i"
  shows "w_lock (wt_pc (ts ! j)) = 0"
proof -
  have "w_lock ((pcs ts)[i := C_idle] ! j) \<le> tsum w_lock ((pcs ts)[i := C_idle])"
    by (rule tsum_ge) (use assms in simp_all)
  then have "w_lock (wt_pc (ts ! j)) \<le> 0"
    using assms by (simp add: tsum_pcs_update run_inv_def)
  then show ?thesis
    using w_counts(1) [of "wt_pc (ts ! j)"] by simp
qed

lemma hands_lock:
  assumes "run_inv q ts" "i < length ts" "w_lock (wt_pc (ts ! i)) = 1"
  shows "concat (map w_hand ((pcs ts)[i := p])) = w_hand p" "concat (map w_hand (pcs ts)) = w_hand (wt_pc (ts ! i))"
proof -
  have other: "w_hand (wt_pc (ts ! j)) = []" if "j < length ts" "j \<noteq> i" for j
    using lock_others [OF assms that] by (rule hand_lock)
  have one: "concat (map w_hand ps) = w_hand (ps ! i)" if "i < length ps" "\<forall>j<length ps. j \<noteq> i \<longrightarrow> w_hand (ps ! j) = []" for ps
  proof -
    have "concat (map w_hand (take i ps)) = []" "concat (map w_hand (drop (Suc i) ps)) = []"
      using that by (auto simp: in_set_conv_nth)
    then show ?thesis
      using id_take_nth_drop [OF that(1)] by (metis append_Nil append_Nil2 concat.simps(2) concat_append list.map(2) map_append)
  qed
  show "concat (map w_hand ((pcs ts)[i := p])) = w_hand p" "concat (map w_hand (pcs ts)) = w_hand (wt_pc (ts ! i))"
    using one [of "(pcs ts)[i := p]"] one [of "pcs ts"] other assms(2) by simp_all
qed

lemma handed_update:
  assumes "i < length ts"
  shows "handed x (ts[i := th]) = handed x ts +
    (if x = Wi_sync i then got_sync th + slow_sync (wt_pc th) - got_sync (ts ! i) - slow_sync (wt_pc (ts ! i))
     else if x = Wi_barrier_sync i then got_bar th + slow_bar (wt_pc th) - got_bar (ts ! i) - slow_bar (wt_pc (ts ! i)) else 0)"
  using assms by (cases x) (auto simp: lack_update)

lemma handed_signalled:
  assumes "j < length ts"
  shows "handed x (signalled (Some j) ts) = handed x ts +
    (if x = Wi_sync j then w_swait (wt_pc (ts ! j)) else if x = Wi_barrier_sync j then w_bwait (wt_pc (ts ! j)) else 0)"
  using assms by (cases x) (auto simp: lack_signalled got_sync_def got_bar_def algebra_simps)

lemma handed_fun: "is_fun x \<Longrightarrow> handed x ts = 0"
  by (cases x) simp_all

lemma wlog_inv_run:
  assumes inv: "wlog_inv q ts" "run_inv q ts" "wwait_inv q ts" "ok_inv q ts" "wref_inv q ts" "width_inv q ts" "sus_inv q ts susp"
    and i: "i < length ts"
  shows "wgoes wlog_inv i ts (wide_exec i q (ts ! i) (wt_pc (ts ! i)))"
proof -
  have pc: "w_pc_ok i (do_targetq (wq_obj q)) (wt_pc (ts ! i))"
    using inv(4) i by (simp add: ok_inv_def)
  have sub: "wq_submitted q = wq_taken q @ concat (map w_hand (pcs ts)) @ wq_items q"
    and fin: "int (count_list (wq_taken q) x) =
      int (count_list (wq_ended q) x) + int (count_list (map Wi_async (wq_root q)) x) + tsum (in_flight x) (pcs ts) + handed x ts" for x
    using inv(1) by (auto simp: wlog_inv_def)
  show ?thesis
    using pc sub hands_lock(2) [OF inv(2) i] sema_le [OF inv(3) i] signalled_waits [OF inv(3) i]
    by (cases "wt_pc (ts ! i)")
      (simp_all add: wide_code wlog_inv_def wide_retain_goes [OF inv(5,6)] wide_release_goes [OF inv(5,6) i]
        wide_resume_goes [OF inv(5-7,3) i] wide_suspend_goes [OF inv(5,6)] u_dispatch_trylock_def tsum_pcs_update [OF i]
        hands_same [OF i] hands_lock(1) [OF inv(2) i] fin handed_update [OF i] handed_signalled got_sync_def got_bar_def
        split: if_splits witem.splits list.splits)
qed

text \<open>Only the holder of the lock takes items, so the item that it calls stays the last one taken.\<close>

lemma called_lock: "w_lock p = 0 \<Longrightarrow> called xs p"
  by (cases p) simp_all

lemma last_inv_run:
  assumes inv: "last_inv q ts" "run_inv q ts" "wwait_inv q ts" "wref_inv q ts" "width_inv q ts" "sus_inv q ts susp"
    and i: "i < length ts"
  shows "wgoes last_inv i ts (wide_exec i q (ts ! i) (wt_pc (ts ! i)))"
proof -
  have same: "(\<forall>j<length ts. called (wq_taken q) ((pcs ts)[i := p] ! j)) \<longleftrightarrow> called (wq_taken q) p" for p
    using inv(1) i by (auto simp: last_inv_def nth_list_update)
  have lock: "(\<forall>j<length ts. called xs ((pcs ts)[i := p] ! j)) \<longleftrightarrow> called xs p" if "w_lock (wt_pc (ts ! i)) = 1" for p xs
    using called_lock [OF lock_others [OF inv(2) i that]] i by (auto simp: nth_list_update)
  show ?thesis
    by (cases "wt_pc (ts ! i)")
      (simp_all add: wide_code last_inv_def wide_retain_goes [OF inv(4,5)] wide_release_goes [OF inv(4,5) i]
        wide_resume_goes [OF inv(4-6,3) i] wide_suspend_goes [OF inv(4,5)] u_dispatch_trylock_def same lock
        split: if_splits witem.splits list.splits)
qed

lemmas wide_ok_parts = run_inv_run width_inv_run sus_inv_run pub_inv_run wake_inv_run wwait_inv_run ok_inv_run wlog_inv_run
  wref_inv_run bar_inv_run last_inv_run

lemma wide_ok_run:
  assumes inv: "wide_ok q ts susp" and i: "i < length ts"
  shows "wgoes (\<lambda>q ts. wide_ok q ts susp) i ts (wide_exec i q (ts ! i) (wt_pc (ts ! i)))"
  using inv i wide_ok_parts [of q ts susp i] unfolding wide_ok_def
  by (cases "wide_exec i q (ts ! i) (wt_pc (ts ! i))") simp_all

text \<open>The only crash is the null pointer of a redirection, and it needs a cached continuation.\<close>

lemma wide_crash_run:
  assumes inv: "wide_ok q ts susp" and i: "i < length ts" and c: "wide_exec i q (ts ! i) (wt_pc (ts ! i)) = W_crashed e"
  shows "e = Null_dereference \<and> wt_cache (ts ! i) \<noteq> 0 \<and> (\<exists>tq f. wt_pc (ts ! i) = C_redirect_alloc tq f)"
proof -
  have p: "run_inv q ts" "width_inv q ts" "sus_inv q ts susp" "wwait_inv q ts" "wref_inv q ts"
    using inv by (auto simp: wide_ok_def)
  show ?thesis
    using c
    by (cases "wt_pc (ts ! i)")
      (simp_all add: wide_code wide_retain_goes [OF p(5,2)] wide_release_goes [OF p(5,2) i] wide_resume_goes [OF p(5,2,3,4) i]
        split: if_splits witem.splits list.splits prod.splits)
qed

section \<open>Calls of clients and of the queues above\<close>

lemma run_inv_begin:
  assumes "run_inv (ws_q s) ts" "wwait_inv (ws_q s) ts" "wref_inv (ws_q s) ts" "width_inv (ws_q s) ts" "i < length ts"
    "wt_pc (ts ! i) = C_idle" "wide_call c s (ts ! i) = Some (q', susp', th)"
  shows "run_inv q' (ts[i := th])"
  using assms(1,6,7) sema_le [OF assms(2,5)]
  by (cases c)
    (auto simp: run_inv_def readers_def tsum_pcs_update [OF assms(5)] tsum_update [OF assms(5)] got_sync_def
      wide_suspend_goes [OF assms(3,4)] split: if_splits list.splits)

lemma width_inv_begin:
  assumes "width_inv (ws_q s) ts" "wref_inv (ws_q s) ts" "i < length ts"
    "wt_pc (ts ! i) = C_idle" "wide_call c s (ts ! i) = Some (q', susp', th)"
  shows "width_inv q' (ts[i := th])"
  using assms(1,4,5)
  by (cases c)
    (auto simp: width_inv_def tsum_pcs_update [OF assms(3)] wide_suspend_goes [OF assms(2,1)] split: if_splits list.splits)

lemma sus_inv_begin:
  assumes "sus_inv (ws_q s) ts (ws_susp s)" "wwait_inv (ws_q s) ts" "wref_inv (ws_q s) ts" "width_inv (ws_q s) ts" "i < length ts"
    "wt_pc (ts ! i) = C_idle" "wide_call c s (ts ! i) = Some (q', susp', th)"
  shows "sus_inv q' (ts[i := th]) susp'"
  using assms(1,6,7) sema_le [OF assms(2,5)]
  by (cases c)
    (auto simp: sus_inv_def tsum_pcs_update [OF assms(5)] tsum_update [OF assms(5)] got_bar_def
      wide_suspend_goes [OF assms(3,4)] split: if_splits list.splits)

lemma pub_inv_begin:
  assumes "pub_inv (ws_q s) ts" "wref_inv (ws_q s) ts" "width_inv (ws_q s) ts" "i < length ts"
    "wt_pc (ts ! i) = C_idle" "wide_call c s (ts ! i) = Some (q', susp', th)"
  shows "pub_inv q' (ts[i := th])"
  using assms(1,5,6)
  by (cases c)
    (auto simp: pub_inv_def tsum_pcs_update [OF assms(4)] wide_suspend_goes [OF assms(2,3)] split: if_splits list.splits)

lemma wake_inv_begin:
  assumes "wake_inv (ws_q s) ts" "wwait_inv (ws_q s) ts" "wref_inv (ws_q s) ts" "width_inv (ws_q s) ts" "i < length ts"
    "wt_pc (ts ! i) = C_idle" "wide_call c s (ts ! i) = Some (q', susp', th)"
  shows "wake_inv q' (ts[i := th])"
  using assms(1,6,7) sema_le [OF assms(2,5)] tsum_w_nonneg(7,12) [of "pcs ts"] got_nonneg(1) [OF assms(2)]
  by (cases c)
    (auto simp: wake_inv_def lookers_def tsum_pcs_update [OF assms(5)] tsum_update [OF assms(5)] got_sync_def
      wide_suspend_goes [OF assms(3,4)] split: if_splits list.splits)

lemma wwait_inv_begin:
  assumes "wwait_inv (ws_q s) ts" "wref_inv (ws_q s) ts" "width_inv (ws_q s) ts" "i < length ts"
    "wt_pc (ts ! i) = C_idle" "wide_call c s (ts ! i) = Some (q', susp', th)"
  shows "wwait_inv q' (ts[i := th])"
proof -
  have set: "list_all wait_ok (ts[i := th']) \<longleftrightarrow> wait_ok th'" for th'
    using assms(1,4) by (auto simp: wwait_inv_def list_all_length nth_list_update)
  show ?thesis
    using assms(1,5,6) sema_le [OF assms(1,4)]
    by (cases c)
      (auto simp: wwait_inv_def tsum_pcs_update [OF assms(4)] lack_update [OF assms(4)] set wait_ok_def s_lack_def b_lack_def
        wide_suspend_goes [OF assms(2,3)] split: if_splits list.splits)
qed

lemma ok_inv_update:
  assumes "ok_inv q ts" "i < length ts"
  shows "(\<forall>j<length ts. w_pc_ok j (do_targetq (wq_obj q)) ((pcs ts)[i := p] ! j)) \<longleftrightarrow> w_pc_ok i (do_targetq (wq_obj q)) p"
  using assms by (auto simp: ok_inv_def nth_list_update)

lemma ok_inv_begin:
  assumes "ok_inv (ws_q s) ts" "wref_inv (ws_q s) ts" "width_inv (ws_q s) ts" "i < length ts"
    "wt_pc (ts ! i) = C_idle" "wide_call c s (ts ! i) = Some (q', susp', th)"
  shows "ok_inv q' (ts[i := th])"
proof -
  have "do_targetq (wq_obj q') = do_targetq (wq_obj (ws_q s))" "w_pc_ok i (do_targetq (wq_obj (ws_q s))) (wt_pc th)"
    using assms(5,6) by (cases c; auto simp: wide_suspend_goes [OF assms(2,3)] split: if_splits list.splits)+
  then show ?thesis
    using assms(1) ok_inv_update [OF assms(1,4)] by (simp add: ok_inv_def)
qed

lemma wlog_inv_begin:
  assumes "wlog_inv (ws_q s) ts" "wwait_inv (ws_q s) ts" "wref_inv (ws_q s) ts" "width_inv (ws_q s) ts" "i < length ts"
    "wt_pc (ts ! i) = C_idle" "wide_call c s (ts ! i) = Some (q', susp', th)"
  shows "wlog_inv q' (ts[i := th])"
proof -
  have sub: "wq_submitted (ws_q s) = wq_taken (ws_q s) @ concat (map w_hand (pcs ts)) @ wq_items (ws_q s)"
    and fin: "int (count_list (wq_taken (ws_q s)) x) = int (count_list (wq_ended (ws_q s)) x) +
      int (count_list (map Wi_async (wq_root (ws_q s))) x) + tsum (in_flight x) (pcs ts) + handed x ts" for x
    using assms(1) by (auto simp: wlog_inv_def)
  show ?thesis
    using assms(6,7) sub
    by (cases c)
      (auto simp: wlog_inv_def tsum_pcs_update [OF assms(5)] hands_same [OF assms(5)] handed_update [OF assms(5)] fin
        got_sync_def got_bar_def wide_suspend_goes [OF assms(3,4)] split: if_splits list.splits)
qed

lemma wref_inv_begin:
  assumes "wref_inv (ws_q s) ts" "width_inv (ws_q s) ts" "i < length ts"
    "wt_pc (ts ! i) = C_idle" "wide_call c s (ts ! i) = Some (q', susp', th)"
  shows "wref_inv q' (ts[i := th])"
  using assms(1,4,5)
  by (cases c)
    (auto simp: wref_inv_def tsum_pcs_update [OF assms(3)] wide_suspend_goes [OF assms(1,2)] split: if_splits list.splits)

lemma bar_inv_begin:
  assumes "bar_inv (ws_q s) ts" "wwait_inv (ws_q s) ts" "wref_inv (ws_q s) ts" "width_inv (ws_q s) ts" "i < length ts"
    "wt_pc (ts ! i) = C_idle" "wide_call c s (ts ! i) = Some (q', susp', th)"
  shows "bar_inv q' (ts[i := th])"
  using assms(1,6,7) sema_le [OF assms(2,5)]
  by (cases c)
    (auto simp: bar_inv_def listed_def tsum_pcs_update [OF assms(5)] tsum_update [OF assms(5)] got_sync_def got_bar_def
      wide_suspend_goes [OF assms(3,4)] split: if_splits list.splits)

lemma last_inv_begin:
  assumes "last_inv (ws_q s) ts" "wref_inv (ws_q s) ts" "width_inv (ws_q s) ts" "i < length ts"
    "wt_pc (ts ! i) = C_idle" "wide_call c s (ts ! i) = Some (q', susp', th)"
  shows "last_inv q' (ts[i := th])"
proof -
  have "wq_taken q' = wq_taken (ws_q s)" "called xs (wt_pc th)" for xs
    using assms(5,6) by (cases c; auto simp: wide_suspend_goes [OF assms(2,3)] split: if_splits list.splits)+
  then show ?thesis
    using assms(1,4) by (auto simp: last_inv_def nth_list_update)
qed

lemma wide_ok_begin:
  assumes "wide_ok (ws_q s) ts (ws_susp s)" "i < length ts" "wt_pc (ts ! i) = C_idle" "wide_call c s (ts ! i) = Some (q', susp', th)"
  shows "wide_ok q' (ts[i := th]) susp'"
  using assms run_inv_begin [OF _ _ _ _ assms(2-4)] width_inv_begin [OF _ _ assms(2-4)] sus_inv_begin [OF _ _ _ _ assms(2-4)]
    pub_inv_begin [OF _ _ _ assms(2-4)] wake_inv_begin [OF _ _ _ _ assms(2-4)] wwait_inv_begin [OF _ _ _ assms(2-4)]
    ok_inv_begin [OF _ _ _ assms(2-4)] wlog_inv_begin [OF _ _ _ _ assms(2-4)] wref_inv_begin [OF _ _ assms(2-4)]
    bar_inv_begin [OF _ _ _ _ assms(2-4)] last_inv_begin [OF _ _ _ assms(2-4)]
  unfolding wide_ok_def by blast

section \<open>Reachable states\<close>

definition wide_inv :: "wsys \<Rightarrow> bool" where
  "wide_inv s = (wide_ok (ws_q s) (ws_threads s) (ws_susp s) \<and> (ws_crashed s = None \<or> ws_crashed s = Some Null_dereference))"

lemma wide_width_even:
  assumes "dispatch_queue_create True serial label = Some dq" "dq_width (dispatch_queue_set_width hw width dq) > 1"
  shows "even (dq_width (dispatch_queue_set_width hw width dq))"
proof -
  have "even (uint (x * 2 :: u32))" for x
    by (simp add: uint_word_ariths(3) dvd_mod)
  then show ?thesis
    using assms by (auto simp: dispatch_queue_create_def u_dispatch_queue_init_def dispatch_queue_set_width_def Let_def split: if_splits)
qed

lemma set_width_fields [simp]:
  "dq_running (dispatch_queue_set_width hw width dq) = dq_running dq"
  "do_suspend_cnt (dispatch_queue_set_width hw width dq) = do_suspend_cnt dq"
  "do_ref_cnt (dispatch_queue_set_width hw width dq) = do_ref_cnt dq"
  "do_targetq (dispatch_queue_set_width hw width dq) = do_targetq dq"
  by (simp_all add: dispatch_queue_set_width_def Let_def)

lemma handed_idle:
  assumes "\<And>th. th \<in> set ts \<Longrightarrow> got_sync th + slow_sync (wt_pc th) = 0 \<and> got_bar th + slow_bar (wt_pc th) = 0"
  shows "handed x ts = 0"
  using assms by (cases x) (auto simp: lack_def)

lemma wide_init_inv:
  assumes "wide_init hw width s"
  shows "wide_inv s"
proof -
  obtain serial label dq where dq: "dispatch_queue_create True serial label = Some dq"
      "wq_obj (ws_q s) = dispatch_queue_set_width hw width dq" "1 < dq_width (dispatch_queue_set_width hw width dq)"
    using assms by (auto simp: wide_init_def)
  have obj: "dq_running (wq_obj (ws_q s)) = 0" "do_suspend_cnt (wq_obj (ws_q s)) = 0" "do_ref_cnt (wq_obj (ws_q s)) = 1"
      "do_targetq (wq_obj (ws_q s)) \<noteq> None"
    using dq(1,2) by (auto simp: dispatch_queue_create_def u_dispatch_queue_init_def u_dispatch_get_root_queue_def
        DISPATCH_QUEUE_PRIORITY_DEFAULT_def)
  have idle: "wt_pc th = C_idle" "wt_sema th = 0" if "th \<in> set (ws_threads s)" for th
    using assms that by (auto simp: wide_init_def list_all_iff)
  have zero: "f C_idle = 0 \<Longrightarrow> tsum f (pcs (ws_threads s)) = 0" for f
    using idle by (auto intro!: tsum_eq_0I)
  have got: "tsum got_sync (ws_threads s) = 0" "tsum got_bar (ws_threads s) = 0"
    using idle by (auto intro!: tsum_eq_0I simp: got_sync_def got_bar_def)
  have lack: "lack s_lack (ws_threads s) j = 0" "lack b_lack (ws_threads s) j = 0" "handed x (ws_threads s) = 0" for j x
    using idle by (auto simp: lack_def s_lack_def b_lack_def got_sync_def got_bar_def split: if_splits intro!: handed_idle)
  show ?thesis
    using assms obj idle wide_width_even [OF dq(1,3)] dq(2)
    by (auto simp: wide_init_def wide_inv_def wide_ok_def run_inv_def readers_def width_inv_def sus_inv_def pub_inv_def wake_inv_def
        wwait_inv_def ok_inv_def wlog_inv_def wref_inv_def bar_inv_def last_inv_def zero got lack wait_ok_def list_all_iff)
qed

lemma wide_step_inv:
  assumes "wide_inv s" "wide_step s t"
  shows "wide_inv t"
  using assms(2)
proof cases
  case (wide_step_run i)
  then have i: "i < length (ws_threads s)" "ws_crashed s = None"
    by (auto simp: wide_run_def split: if_splits)
  have ok: "wide_ok (ws_q s) (ws_threads s) (ws_susp s)"
    using assms(1) by (simp add: wide_inv_def)
  show ?thesis
    using wide_step_run i wide_ok_run [OF ok i(1)] wide_crash_run [OF ok i(1)] ok
    by (cases "wide_exec i (ws_q s) (ws_threads s ! i) (wt_pc (ws_threads s ! i))") (auto simp: wide_run_def wide_inv_def)
next
  case (wide_step_begin c i)
  then show ?thesis
    using assms(1) wide_ok_begin [of s "ws_threads s" i c] by (auto simp: wide_begin_def wide_inv_def split: if_splits)
qed

interpretation wide_queue: invariant_system "wide_init hw width" wide_step wide_inv
  by unfold_locales (auto intro: wide_init_inv wide_step_inv)

section \<open>Properties\<close>

text \<open>The threads that run a client's function, as a barrier or as a reader.\<close>

fun runs_barrier :: "wpc \<Rightarrow> bool" where
  "runs_barrier (C_bar_func _) = True"
| "runs_barrier (C_bar_wait_func _) = True"
| "runs_barrier (C_call _ (Wi_barrier _)) = True"
| "runs_barrier _ = False"

fun runs_reader :: "wpc \<Rightarrow> bool" where
  "runs_reader (C_sync_func _) = True"
| "runs_reader (C_sync_wait_func _) = True"
| "runs_reader (C_redirected_func _) = True"
| "runs_reader _ = False"


lemma runs_barrier_cases:
  assumes "runs_barrier p"
  obtains (slow) f where "p = C_bar_wait_func f" | (fast) f where "p = C_bar_func f" "w_lock p = 1" "w_alone p = 1"
    | (drain) tq f where "p = C_call tq (Wi_barrier f)" "w_lock p = 1" "w_alone p = 1" "w_past p = 1"
  using assms by (cases p rule: runs_barrier.cases) simp_all

lemma runs_reader_counts: "runs_reader p \<Longrightarrow> w_red p + w_read p = 1 \<and> w_lock p = 0"
  by (cases p rule: runs_reader.cases) simp_all

lemma alone_no_readers:
  assumes "run_inv q ts" "wwait_inv q ts" "i < length ts" "w_lock (wt_pc (ts ! i)) = 1" "w_alone (wt_pc (ts ! i)) = 1"
  shows "tsum w_red (pcs ts) = 0" "wq_root q = []" "tsum w_read (pcs ts) = 0" "tsum got_sync ts = 0" "tsum w_lock (pcs ts) = 1"
    "j < length ts \<Longrightarrow> \<not> runs_reader (wt_pc (ts ! j))"
proof -
  have "1 \<le> tsum w_alone (pcs ts)" "1 \<le> tsum w_lock (pcs ts)"
    using tsum_pcs_ge [OF assms(3), of w_lock] tsum_pcs_ge [OF assms(3), of w_alone] assms(4,5) by simp_all
  then have "readers q ts = 0" "tsum w_lock (pcs ts) = 1"
    using assms(1) by (auto simp: run_inv_def)
  then show z: "tsum w_red (pcs ts) = 0" "wq_root q = []" "tsum w_read (pcs ts) = 0" "tsum got_sync ts = 0" "tsum w_lock (pcs ts) = 1"
    using tsum_w_nonneg(2,4) [of "pcs ts"] got_nonneg(1) [OF assms(2)] by (auto simp: readers_def simp flip: length_0_conv)
  show "\<not> runs_reader (wt_pc (ts ! j))" if "j < length ts"
    using tsum_pcs_ge [OF that, of w_red] tsum_pcs_ge [OF that, of w_read] z(1,3) runs_reader_counts [of "wt_pc (ts ! j)"] by auto
qed

text \<open>While the function of a synchronous barrier runs that came through the list.\<close>

lemma slow_barrier:
  assumes "bar_inv q ts" "wwait_inv q ts" "i < length ts" "wt_pc (ts ! i) = C_bar_wait_func f" "j < length ts" "j \<noteq> i"
  shows "w_past (wt_pc (ts ! j)) = 0" "w_bsus (wt_pc (ts ! j)) = 0" "w_red (wt_pc (ts ! j)) = 0" "w_listed (wt_pc (ts ! j)) = 0"
proof -
  have "w_bsus ((pcs ts)[i := C_idle] ! j) \<le> tsum w_bsus ((pcs ts)[i := C_idle])"
    by (rule tsum_ge) (use assms(5) in simp_all)
  then have two: "w_bsus (wt_pc (ts ! j)) + 1 \<le> tsum w_bsus (pcs ts)"
    using assms(3-6) by (simp add: tsum_pcs_update)
  then have "0 < tsum w_bsus (pcs ts)"
    using w_counts(8) [of "wt_pc (ts ! j)"] by linarith
  then have z: "tsum w_bsus (pcs ts) \<le> 1" "tsum w_past (pcs ts) = 0" "listed q ts = 0"
    using assms(1) got_nonneg(2) [OF assms(2)] by (auto simp: bar_inv_def)
  show "w_bsus (wt_pc (ts ! j)) = 0" "w_past (wt_pc (ts ! j)) = 0"
    by (rule antisym; use two z(1,2) tsum_pcs_ge [OF assms(5), of w_past] in simp)+
  show "w_red (wt_pc (ts ! j)) = 0" "w_listed (wt_pc (ts ! j)) = 0"
    by (rule antisym; use z(3) tsum_w_nonneg(2,19) [of "pcs ts"] got_nonneg(1) [OF assms(2)] tsum_pcs_ge [OF assms(5), of w_red]
        tsum_pcs_ge [OF assms(5), of w_listed] in \<open>simp add: listed_def\<close>)+
qed

text \<open>Which functions can run beside a barrier.\<close>

lemma beside_barrier:
  assumes inv: "run_inv q ts" "wwait_inv q ts" "bar_inv q ts" and ij: "i < length ts" "j < length ts" "j \<noteq> i"
    and i: "runs_barrier (wt_pc (ts ! i))" and j: "runs_barrier (wt_pc (ts ! j)) \<or> runs_reader (wt_pc (ts ! j))"
  shows "(\<exists>f g. wt_pc (ts ! i) = C_bar_wait_func f \<and> (wt_pc (ts ! j) = C_bar_func g \<or> wt_pc (ts ! j) = C_sync_func g)) \<or>
    (\<exists>f g. wt_pc (ts ! i) = C_bar_func f \<and> wt_pc (ts ! j) = C_bar_wait_func g)"
  using i
proof (cases rule: runs_barrier_cases)
  case (slow f)
  note z = slow_barrier [OF inv(3,2) ij(1) slow ij(2,3)]
  show ?thesis
    using j slow z by (cases "wt_pc (ts ! j)" rule: runs_barrier.cases) auto
next
  case (fast f)
  have "w_lock (wt_pc (ts ! j)) = 0"
    by (rule lock_others [OF inv(1) ij(1) fast(2) ij(2,3)])
  then have "\<exists>g. wt_pc (ts ! j) = C_bar_wait_func g"
    using j alone_no_readers(6) [OF inv(1,2) ij(1) fast(2,3) ij(2)] by (auto elim: runs_barrier_cases)
  then show ?thesis
    using fast(1) by blast
next
  case (drain tq f)
  have "w_lock (wt_pc (ts ! j)) = 0"
    by (rule lock_others [OF inv(1) ij(1) drain(2) ij(2,3)])
  then obtain g where "wt_pc (ts ! j) = C_bar_wait_func g"
    using j alone_no_readers(6) [OF inv(1,2) ij(1) drain(2,3) ij(2)] by (auto elim: runs_barrier_cases)
  then show ?thesis
    using slow_barrier(1) [OF inv(3,2) ij(2) _ ij(1)] ij(3) drain(4) by auto
qed


lemma wide_reach_parts:
  assumes "reach (wide_init hw width) wide_step s"
  shows "run_inv (ws_q s) (ws_threads s)" "width_inv (ws_q s) (ws_threads s)" "sus_inv (ws_q s) (ws_threads s) (ws_susp s)"
    "pub_inv (ws_q s) (ws_threads s)" "wake_inv (ws_q s) (ws_threads s)" "wwait_inv (ws_q s) (ws_threads s)"
    "ok_inv (ws_q s) (ws_threads s)" "wlog_inv (ws_q s) (ws_threads s)" "wref_inv (ws_q s) (ws_threads s)"
    "bar_inv (ws_q s) (ws_threads s)" "last_inv (ws_q s) (ws_threads s)"
  using wide_queue.reachable_inv [OF assms] by (simp_all add: wide_inv_def wide_ok_def)


text \<open>While the drain runs a barrier, nobody else has an item, and no caller has one that was handed to it.\<close>

lemma drain_in_flight:
  assumes "run_inv q ts" "i < length ts" "w_lock (wt_pc (ts ! i)) = 1" "tsum w_red (pcs ts) = 0"
  shows "tsum (in_flight x) (pcs ts) = in_flight x (wt_pc (ts ! i))"
proof -
  have "in_flight x (wt_pc (ts ! j)) = 0" if "j < length ts" "j \<noteq> i" for j
  proof -
    have "w_lock (wt_pc (ts ! j)) = 0" "w_red (wt_pc (ts ! j)) = 0"
      using lock_others [OF assms(1-3) that] tsum_pcs_ge [OF that(1), of w_red] assms(4) w_counts(2) [of "wt_pc (ts ! j)"] by simp_all
    then show ?thesis
      by (cases "wt_pc (ts ! j)") simp_all
  qed
  then have "tsum (in_flight x) ((pcs ts)[i := C_idle]) = 0"
    using assms(2) by (auto intro!: tsum_eq_0I simp: in_set_conv_nth nth_list_update split: if_splits)
  then show ?thesis
    using assms(2) by (simp add: tsum_pcs_update)
qed

lemma drain_handed:
  assumes inv: "wwait_inv q ts" "bar_inv q ts" and z: "tsum w_read (pcs ts) = 0" "tsum got_sync ts = 0"
    and i: "i < length ts" "w_past (wt_pc (ts ! i)) = 1"
  shows "handed x ts = 0"
proof (rule handed_idle)
  fix th
  assume "th \<in> set ts"
  then obtain j where j: "j < length ts" "th = ts ! j"
    by (auto simp: in_set_conv_nth)
  have b: "tsum w_bsus (pcs ts) = 0" "tsum got_bar ts = 0"
    using inv(2) tsum_pcs_ge [OF i(1), of w_past] i(2) tsum_w_nonneg(8) [of "pcs ts"] got_nonneg(2) [OF inv(1)] by (auto simp: bar_inv_def)
  have "0 \<le> got_sync th" "0 \<le> got_bar th"
    using sema_le(1) [OF inv(1) j(1)] j(2) by (simp_all add: got_sync_def got_bar_def)
  moreover have "slow_sync p \<le> w_read p" "slow_bar p \<le> w_bsus p" for p
    by (cases p; simp)+
  then have "slow_sync (wt_pc th) \<le> 0" "slow_bar (wt_pc th) \<le> 0"
    using tsum_pcs_ge [OF j(1), of w_read] tsum_pcs_ge [OF j(1), of w_bsus] z(1) b(1) j(2) by (auto intro: order_trans)
  then have "slow_sync (wt_pc th) = 0" "slow_bar (wt_pc th) = 0"
    by (auto intro: antisym)
  ultimately show "got_sync th + slow_sync (wt_pc th) = 0 \<and> got_bar th + slow_bar (wt_pc th) = 0"
    using got_nonneg(3,4) [OF inv(1) j(1)] z(2) b(2) j(2) by simp
qed

text \<open>
  C20: A barrier separates what was submitted before it from what was submitted after it.  Whenever
  the drain runs an asynchronous barrier, that barrier is the last item it has taken; the items it has taken before are
  exactly those submitted before the barrier, in order, and the functions of all of them have ended, also those of the
  synchronous callers among them; the items submitted after the barrier are all still on the list, and
  no other function runs.
\<close>

theorem concurrent_barrier_order:
  assumes "reach (wide_init hw width) wide_step s" "i < length (ws_threads s)" "wt_pc (ws_threads s ! i) = C_call tq (Wi_barrier f)"
  shows "(\<exists>pre. wq_taken (ws_q s) = pre @ [Wi_barrier f] \<and> wq_submitted (ws_q s) = pre @ Wi_barrier f # wq_items (ws_q s) \<and>
      (\<forall>x. count_list pre x = count_list (wq_ended (ws_q s)) x)) \<and>
    (\<forall>j < length (ws_threads s). j \<noteq> i \<longrightarrow>
      \<not> runs_barrier (wt_pc (ws_threads s ! j)) \<and> \<not> runs_reader (wt_pc (ws_threads s ! j)))"
proof -
  let ?ts = "ws_threads s" and ?q = "ws_q s"
  note inv = wide_reach_parts [OF assms(1)]
  have runs: "w_lock (wt_pc (?ts ! i)) = 1" "w_alone (wt_pc (?ts ! i)) = 1"
    using assms(3) by simp_all
  note alone = alone_no_readers [OF inv(1,6) assms(2) runs]
  have "tsum (in_flight x) (pcs ?ts) = of_bool (x = Wi_barrier f)" for x
    using drain_in_flight [OF inv(1) assms(2) runs(1) alone(1), of x] assms(3) by simp
  moreover have "handed x ?ts = 0" for x
    by (rule drain_handed [OF inv(6,10) alone(3,4) assms(2)]) (simp add: assms(3))
  ultimately have cnt: "int (count_list (wq_taken ?q) x) = int (count_list (wq_ended ?q) x) + of_bool (x = Wi_barrier f)" for x
    using inv(8) alone(2) by (simp add: wlog_inv_def)
  have "called (wq_taken ?q) (wt_pc (?ts ! i))"
    using inv(11) assms(2) by (simp add: last_inv_def)
  then have t: "wq_taken ?q = butlast (wq_taken ?q) @ [Wi_barrier f]"
    using assms(3) append_butlast_last_id [of "wq_taken ?q"] by simp
  have "count_list (butlast (wq_taken ?q)) x = count_list (wq_ended ?q) x" for x
    using cnt [of x] arg_cong [OF t, of "\<lambda>xs. count_list xs x"] by (auto split: if_splits)
  moreover have "wq_submitted ?q = butlast (wq_taken ?q) @ Wi_barrier f # wq_items ?q"
    using inv(8) hands_lock(2) [OF inv(1) assms(2) runs(1)] assms(3) t by (auto simp: wlog_inv_def)
  moreover have "\<not> runs_barrier (wt_pc (?ts ! j)) \<and> \<not> runs_reader (wt_pc (?ts ! j))" if "j < length ?ts" "j \<noteq> i" for j
    using beside_barrier [OF inv(1,6,10) assms(2) that] assms(3) by auto
  ultimately show ?thesis
    using t by blast
qed

text \<open>Where a thread of a quiet system can be.\<close>

definition wide_quiet :: "wsys \<Rightarrow> bool" where
  "wide_quiet s = (list_all (\<lambda>i. wide_run i s = None) [0..<length (ws_threads s)] \<and> \<not> wq_enqueued (ws_q s) \<and> wq_root (ws_q s) = [])"

lemma wide_stuck:
  assumes "wide_exec i q th p = W_stuck" "w_pc_ok i tq p"
  shows "p = C_idle \<or> (\<exists>f. p = C_sync_wait f \<and> wt_sema th \<le> 0) \<or> (\<exists>f. p = C_bar_wait f \<and> wt_sema th \<le> 0) \<or> \<not> wq_head_set q"
  using assms
  by (cases p)
    (auto simp: wide_code wide_retain_def wide_release_def wide_resume_def u_dispatch_trylock_def
      split: if_splits witem.splits list.splits sum.splits prod.splits)

lemma wide_quiet_pcs:
  assumes "reach (wide_init hw width) wide_step s" "wide_quiet s" "ws_crashed s = None" "i < length (ws_threads s)"
  shows "wt_pc (ws_threads s ! i) = C_idle \<or>
    ((\<exists>f. wt_pc (ws_threads s ! i) = C_sync_wait f) \<or> (\<exists>f. wt_pc (ws_threads s ! i) = C_bar_wait f)) \<and> wt_sema (ws_threads s ! i) = 0"
proof -
  let ?ts = "ws_threads s"
  note inv = wide_reach_parts [OF assms(1)]
  have stuck: "wide_exec j (ws_q s) (?ts ! j) (wt_pc (?ts ! j)) = W_stuck" if "j < length ?ts" for j
    using assms(2,3) that bspec [of "{0..<length ?ts}" "\<lambda>i. wide_run i s = None" j]
    by (cases "wide_exec j (ws_q s) (?ts ! j) (wt_pc (?ts ! j))") (auto simp: wide_quiet_def wide_run_def list_all_iff)
  have ok: "w_pc_ok j (do_targetq (wq_obj (ws_q s))) (wt_pc (?ts ! j))" if "j < length ?ts" for j
    using inv(7) that by (simp add: ok_inv_def)
  have "w_unpub (wt_pc (?ts ! j)) = 0" if "j < length ?ts" for j
    using stuck [OF that] by (cases "wt_pc (?ts ! j)")
      (auto simp: wide_exec_def wide_push_list_def wide_retain_goes [OF inv(9,2)])
  then have "tsum w_unpub (pcs ?ts) = 0"
    by (intro tsum_eq_0I) (auto simp: in_set_conv_nth)
  then have "wq_head_set (ws_q s)"
    using inv(4) by (simp add: pub_inv_def)
  then show ?thesis
    using wide_stuck [OF stuck ok, OF assms(4,4)] sema_le(1) [OF inv(6) assms(4)] by auto
qed

text \<open>
  C10: A concurrent queue loses no work.  Whatever interleaving led to it, in a state in which no thread
  can take a step, the queue is on no list, nothing waits on the root queue and no client has it suspended,
  the list is empty, every function that was submitted has run exactly once, every synchronous
  caller has returned, and the lock word, the suspend count and the reference count are back at
  their initial values; unless the process has died of a null pointer.
\<close>

theorem concurrent_no_lost_work:
  assumes "reach (wide_init hw width) wide_step s" "wide_quiet s" "ws_susp s = 0" "ws_crashed s \<noteq> Some Null_dereference"
  shows "wq_items (ws_q s) = [] \<and> wq_taken (ws_q s) = wq_submitted (ws_q s) \<and>
    (\<forall>x. is_fun x \<longrightarrow> count_list (wq_ended (ws_q s)) x = count_list (wq_submitted (ws_q s)) x) \<and>
    list_all (\<lambda>th. wt_pc th = C_idle) (ws_threads s) \<and>
    dq_running (wq_obj (ws_q s)) = 0 \<and> do_suspend_cnt (wq_obj (ws_q s)) = 0 \<and> do_ref_cnt (wq_obj (ws_q s)) = 1"
proof -
  let ?ts = "ws_threads s" and ?q = "ws_q s"
  note inv = wide_reach_parts [OF assms(1)]
  have crash: "ws_crashed s = None"
    using wide_queue.reachable_inv [OF assms(1)] assms(4) by (auto simp: wide_inv_def)
  note pcs = wide_quiet_pcs [OF assms(1,2) crash]
  have zero: "tsum f (pcs ?ts) = 0" if "f C_idle = 0" "\<And>n. f (C_sync_wait n) = 0" "\<And>n. f (C_bar_wait n) = 0" for f
  proof (rule tsum_eq_0I)
    fix p
    assume "p \<in> set (pcs ?ts)"
    then obtain j where "j < length ?ts" "p = wt_pc (?ts ! j)"
      by (auto simp: in_set_conv_nth)
    then show "f p = 0"
      using pcs [of j] that by auto
  qed
  have sema: "wt_sema th = 0" if "th \<in> set ?ts" for th
    using that pcs sema_le(2) [OF inv(6)] by (fastforce simp: in_set_conv_nth)
  then have got: "tsum got_sync ?ts = 0" "tsum got_bar ?ts = 0"
    by (auto intro!: tsum_eq_0I simp: got_sync_def got_bar_def)
  have cnt: "do_suspend_cnt (wq_obj ?q) = 0"
    using inv(3) assms(2,3) got by (simp add: sus_inv_def zero wide_quiet_def)
  then have items: "wq_items ?q = []"
    using inv(5) assms(2) got by (auto simp: wake_inv_def lookers_def zero wide_quiet_def)
  have lack: "lack s_lack ?ts j = 0" "lack b_lack ?ts j = 0" for j
    using wwait_invD(1,2) [OF inv(6), of j] items by (simp_all add: zero)
  have idle: "wt_pc (?ts ! j) = C_idle" if "j < length ?ts" for j
    using pcs [OF that] lack [of j] that by (auto simp: lack_def s_lack_def b_lack_def)
  have hands: "concat (map w_hand (pcs ?ts)) = []"
    using idle by (auto simp: in_set_conv_nth)
  have "count_list (wq_ended ?q) x = count_list (wq_taken ?q) x" if "is_fun x" for x
  proof -
    have "int (count_list (wq_taken ?q) x) = int (count_list (wq_ended ?q) x) + handed x ?ts"
      using inv(8) assms(2) by (simp add: wlog_inv_def zero wide_quiet_def)
    then show ?thesis
      using handed_fun [OF that, of ?ts] by simp
  qed
  then show ?thesis
    using items cnt idle inv(1,8,9) got hands assms(2)
    by (auto simp: wlog_inv_def wref_inv_def run_inv_def readers_def zero wide_quiet_def list_all_length)
qed

section \<open>Concrete runs\<close>

datatype wide_event =
    Calls nat wide_client
  | Runs nat

primrec wide_play :: "wide_event list \<Rightarrow> wsys \<Rightarrow> wsys option" where
  "wide_play [] s = Some s"
| "wide_play (e # es) s =
     (case (case e of Calls i c \<Rightarrow> wide_begin c i s | Runs i \<Rightarrow> wide_run i s) of None \<Rightarrow> None | Some t \<Rightarrow> wide_play es t)"

lemma wide_play_reach:
  assumes "reach (wide_init hw width) wide_step s" "wide_play es s = Some t"
  shows "reach (wide_init hw width) wide_step t"
  using assms
proof (induction es arbitrary: s)
  case (Cons e es)
  then obtain u where u: "wide_play es u = Some t" "wide_step s u"
    by (auto split: option.splits wide_event.splits intro: wide_step_run wide_step_begin)
  then show ?case
    using Cons.IH [of u] reach_step [OF Cons.prems(1)] by blast
qed simp

text \<open>A queue of width 2 with three threads.\<close>

definition wide_start :: wsys where
  "wide_start =
     \<lparr>ws_q = \<lparr>wq_obj = \<lparr>do_vtable = Queue_vtable, do_next = Listless, do_ref_cnt = 1, do_xref_cnt = 1, do_suspend_cnt = 0,
                do_targetq = Some 3, do_ctxt = 0, do_finalizer = 0, dq_running = 0, dq_width = 4, dq_serialnum = 10,
                dq_label = []\<rparr>,
              wq_items = [], wq_head_set = True, wq_enqueued = False, wq_root = [], wq_submitted = [], wq_taken = [], wq_ended = []\<rparr>,
      ws_threads = replicate 3 \<lparr>wt_pc = C_idle, wt_sema = 0, wt_cache = 0\<rparr>, ws_susp = 0, ws_crashed = None\<rparr>"

definition hw_two :: hw_config where
  "hw_two = \<lparr>cc_max_active = 2, cc_max_logical = 2, cc_max_physical = 2\<rparr>"

lemma wide_start_reach: "reach (wide_init hw_two 2) wide_step wide_start"
proof (rule reach_init)
  have "dispatch_queue_create True 10 None = Some (wq_obj (ws_q wide_start)\<lparr>dq_width := 1\<rparr>)"
    by (simp add: dispatch_queue_create_def u_dispatch_queue_init_def u_dispatch_get_root_queue_def wide_start_def
        DISPATCH_QUEUE_PRIORITY_DEFAULT_def DISPATCH_QUEUE_PRIORITY_LOW_def)
  moreover have "wq_obj (ws_q wide_start) = dispatch_queue_set_width hw_two 2 (wq_obj (ws_q wide_start)\<lparr>dq_width := 1\<rparr>)"
    by (simp add: wide_start_def dispatch_queue_set_width_def hw_two_def DISPATCH_OBJECT_GLOBAL_REFCNT_def)
  ultimately have "\<exists>serial label dq. dispatch_queue_create True serial label = Some dq \<and>
      wq_obj (ws_q wide_start) = dispatch_queue_set_width hw_two 2 dq"
    by blast
  then show "wide_init hw_two 2 wide_start"
    unfolding wide_init_def by (rule conjI) (simp add: wide_start_def DISPATCH_OBJECT_GLOBAL_REFCNT_def list_all_iff)
qed

text \<open>
  Thread 0 submits a barrier and a function, and takes the queue from its target.  The continuation
  of the barrier goes to its cache; when the function behind it is redirected, the cache is not empty.
\<close>

definition null_run :: "wide_event list" where
  "null_run =
     [Calls 0 (Do_barrier_async_f 1)] @ replicate 10 (Runs 0) @ [Calls 0 (Do_async_f 2)] @ replicate 2 (Runs 0) @
     [Calls 0 Do_invoke] @ replicate 15 (Runs 0)"

lemma null_run_crash: "map_option ws_crashed (wide_play null_run wide_start) = Some (Some Null_dereference)"
  by code_simp

text \<open>
  C21: Redirecting with a cached continuation writes through a null pointer.  There is a reachable
  state in which the process has died of it: a thread that has run a barrier has the continuation of
  that barrier in its cache when it redirects the next item.
\<close>

theorem concurrent_redirect_null:
  "\<exists>s. reach (wide_init hw_two 2) wide_step s \<and> ws_crashed s = Some Null_dereference"
  using null_run_crash wide_play_reach [OF wide_start_reach, of null_run] by (auto simp: map_option_eq_Some)

text \<open>
  Thread 2 has found the queue empty and not suspended.  Then thread 0 submits a synchronous
  barrier behind the reader of thread 1 and waits; thread 1 returns and drains the queue, which
  suspends it for the barrier.
\<close>

definition overlap_run :: "wide_event list" where
  "overlap_run =
     [Calls 2 (Do_sync_f 9)] @ replicate 2 (Runs 2) @ [Calls 1 (Do_sync_f 5)] @ replicate 3 (Runs 1) @
     [Calls 0 (Do_barrier_sync_f 7)] @ replicate 12 (Runs 0) @ replicate 5 (Runs 1) @ [Calls 1 Do_invoke] @ replicate 11 (Runs 1) @
     [Runs 0, Runs 2]"

lemma overlap_run_pcs:
  "map_option (\<lambda>s. (wt_pc (ws_threads s ! 0), wt_pc (ws_threads s ! 2))) (wide_play overlap_run wide_start) =
     Some (C_bar_wait_func 7, C_sync_func 9)"
  by code_simp

text \<open>
  A barrier that went through the list runs in its caller, under a suspension instead of the lock; a
  reader that tested the suspend count earlier joins it.
\<close>

theorem concurrent_sync_overlap:
  "\<exists>s f g. reach (wide_init hw_two 2) wide_step s \<and>
     wt_pc (ws_threads s ! 0) = C_bar_wait_func f \<and> wt_pc (ws_threads s ! 2) = C_sync_func g"
  using overlap_run_pcs wide_play_reach [OF wide_start_reach, of overlap_run] by (auto simp: map_option_eq_Some)

section \<open>Witnesses\<close>

text \<open>
  Thread 0 submits a function and a barrier, between them thread 2 calls \<open>dispatch_sync_f\<close> and waits.  Thread 1 drains up to the barrier;
  thread 2 and, for the redirected function, thread 0 run their functions, and thread 1 comes to the barrier.
\<close>

definition order_run :: "wide_event list" where
  "order_run =
     [Calls 0 (Do_async_f 1)] @ replicate 10 (Runs 0) @ [Calls 2 (Do_sync_f 5)] @ replicate 3 (Runs 2) @
     [Calls 0 (Do_barrier_async_f 3)] @ replicate 2 (Runs 0) @ [Calls 1 Do_invoke] @ replicate 25 (Runs 1) @ replicate 3 (Runs 2) @
     [Calls 0 Do_redirected] @ replicate 8 (Runs 0) @ [Calls 1 Do_invoke] @ replicate 7 (Runs 1)"

definition wide_order :: wsys where
  "wide_order = the (wide_play order_run wide_start)"

definition wide_done :: wsys where
  "wide_done = the (wide_play (order_run @ replicate 9 (Runs 1)) wide_start)"

lemma order_runs:
  "map_option (\<lambda>s. (length (ws_threads s), wt_pc (ws_threads s ! 1), wq_taken (ws_q s), dq_width (wq_obj (ws_q s))))
     (wide_play order_run wide_start) = Some (3, C_call (Some 3) (Wi_barrier 3), [Wi_async 1, Wi_sync 2, Wi_barrier 3], 4)"
  by code_simp

lemma done_runs:
  "map_option (\<lambda>s. (wide_quiet s, ws_susp s, ws_crashed s, wq_submitted (ws_q s)))
     (wide_play (order_run @ replicate 9 (Runs 1)) wide_start) = Some (True, 0, None, [Wi_async 1, Wi_sync 2, Wi_barrier 3])"
  by code_simp

lemma wide_order_facts: "reach (wide_init hw_two 2) wide_step wide_order" "length (ws_threads wide_order) = 3"
    "wt_pc (ws_threads wide_order ! 1) = C_call (Some 3) (Wi_barrier 3)" "wq_taken (ws_q wide_order) = [Wi_async 1, Wi_sync 2, Wi_barrier 3]"
    "dq_width (wq_obj (ws_q wide_order)) = 4"
  using order_runs wide_play_reach [OF wide_start_reach, of order_run] by (auto simp: wide_order_def map_option_eq_Some)

lemma wide_done_facts: "reach (wide_init hw_two 2) wide_step wide_done" "wide_quiet wide_done" "ws_susp wide_done = 0"
    "ws_crashed wide_done = None" "wq_submitted (ws_q wide_done) = [Wi_async 1, Wi_sync 2, Wi_barrier 3]"
  using done_runs wide_play_reach [OF wide_start_reach, of "order_run @ replicate 9 (Runs 1)"]
  by (auto simp: wide_done_def map_option_eq_Some)


theorem concurrent_barrier_order_witness:
  "wq_submitted (ws_q wide_order) = [Wi_async 1, Wi_sync 2] @ Wi_barrier 3 # wq_items (ws_q wide_order) \<and>
   count_list (wq_ended (ws_q wide_order)) (Wi_async 1) = 1 \<and> count_list (wq_ended (ws_q wide_order)) (Wi_sync 2) = 1"
proof -
  obtain pre where pre: "wq_taken (ws_q wide_order) = pre @ [Wi_barrier 3]"
    "wq_submitted (ws_q wide_order) = pre @ Wi_barrier 3 # wq_items (ws_q wide_order)"
    "\<And>x. count_list (wq_ended (ws_q wide_order)) x = count_list pre x"
    using concurrent_barrier_order [OF wide_order_facts(1) _ wide_order_facts(3)] wide_order_facts(2) by auto
  then have "pre = [Wi_async 1, Wi_sync 2]"
    using wide_order_facts(4) by simp
  then show ?thesis
    by (simp add: pre(2,3))
qed

theorem concurrent_no_lost_work_witness:
  "wq_items (ws_q wide_done) = [] \<and> count_list (wq_ended (ws_q wide_done)) (Wi_async 1) = 1 \<and>
   dq_running (wq_obj (ws_q wide_done)) = 0"
  using concurrent_no_lost_work [OF wide_done_facts(1-3)] wide_done_facts(4,5) by simp

end
