(* ===== verification/Dispatch_Apply.thy ===== *)
theory Dispatch_Apply
  imports Dispatch_Semaphore
begin

text \<open>
  \<open>dispatch_apply_f\<close> of \<open>libdispatch/src/apply.c\<close>: the choice between the serial loop and the
  parallel continuations, and the machine of a parallel call.  The caller's semaphore is the one of
  \<open>Dispatch_Semaphore\<close> and its invariant is reused here.  The lemmas show that a call computes what
  the loop over the indices computes, that it calls the function once for each index, that it
  completes, and that no continuation outlives the caller's stack frame.
\<close>

section \<open>The code\<close>

text \<open>
  The fields of \<open>struct dispatch_apply_s\<close> that change or steer; \<open>da_func\<close> and \<open>da_ctxt\<close> are the
  function that a run applies, \<open>da_sema\<close> is the one semaphore of the machine below.
\<close>

record dispatch_apply_s =
  da_iterations :: u64
  da_index :: u64
  da_thr_cnt :: u64

text \<open>
  Where a continuation \<open>da_dc[i]\<close> is: not pushed yet, on the queue, in the loop of
  \<open>_dispatch_apply2\<close> with its copy of \<open>da_iterations\<close>, in a call of the function, about to count
  itself out, about to read \<open>da_sema\<close>, in the signal, or through.
\<close>

datatype apply_pc =
    Ap_off
  | Ap_queued
  | Ap_next u64
  | Ap_call u64 u64
  | Ap_dec
  | Ap_sema
  | Ap_signal
  | Ap_signalling
  | Ap_done

fun u_dispatch_apply2 :: "dispatch_apply_s \<Rightarrow> apply_pc \<Rightarrow> (dispatch_apply_s \<times> apply_pc) option" where
  "u_dispatch_apply2 da Ap_queued = Some (da, Ap_next (da_iterations da))"
| "u_dispatch_apply2 da (Ap_next iter) =
     (let da' = da\<lparr>da_index := da_index da + 1\<rparr>; idx = da_index da' - 1 in
      Some (da', if idx < iter then Ap_call iter idx else Ap_dec))"
| "u_dispatch_apply2 da (Ap_call iter idx) = Some (da, Ap_next iter)"
| "u_dispatch_apply2 da Ap_dec =
     (let da' = da\<lparr>da_thr_cnt := da_thr_cnt da - 1\<rparr> in
      Some (da', if da_thr_cnt da' = 0 then Ap_sema else Ap_done))"
| "u_dispatch_apply2 da Ap_sema = Some (da, Ap_signal)"
| "u_dispatch_apply2 da _ = None"

text \<open>The accesses of \<open>_dispatch_apply2\<close> that read or write the caller's \<open>da\<close>.\<close>

fun reads_da :: "apply_pc \<Rightarrow> bool" where
  "reads_da Ap_queued = True"
| "reads_da (Ap_next _) = True"
| "reads_da Ap_dec = True"
| "reads_da Ap_sema = True"
| "reads_da _ = False"

text \<open>
  \<open>_dispatch_apply_serial\<close>: the function \<open>f idx\<close> acts on the world \<open>w\<close>; the loop tests its
  condition after the first call.
\<close>

function apply_serial_loop :: "(u64 \<Rightarrow> 'w \<Rightarrow> 'w) \<Rightarrow> u64 \<Rightarrow> u64 \<Rightarrow> 'w \<Rightarrow> 'w" where
  "apply_serial_loop f iterations idx w =
     (let w' = f idx w; idx' = idx + 1 in
      if idx' < iterations then apply_serial_loop f iterations idx' w' else w')"
  by pat_completeness auto

termination
proof (relation "measure (\<lambda>(f, iterations, idx, w). unat (iterations - 1 - idx))", simp)
  fix f :: "u64 \<Rightarrow> 'w \<Rightarrow> 'w" and n idx :: u64 and w x y
  assume "x = f idx w" "y = idx + 1" "y < n"
  then have "n - 1 - idx \<noteq> 0"
    by auto
  then have "unat (n - 1 - idx - 1) < unat (n - 1 - idx)"
    by (metis measure_unat)
  then show "((f, n, y, x), f, n, idx, w) \<in> measure (\<lambda>(f, iterations, idx, w). unat (iterations - 1 - idx))"
    using \<open>y = idx + 1\<close> by (simp add: algebra_simps)
qed

definition u_dispatch_apply_serial :: "(u64 \<Rightarrow> 'w \<Rightarrow> 'w) \<Rightarrow> u64 \<Rightarrow> 'w \<Rightarrow> 'w" where
  "u_dispatch_apply_serial f iterations w = apply_serial_loop f iterations 0 w"

definition DISPATCH_APPLY_MAX_CPUS :: u64 where
  "DISPATCH_APPLY_MAX_CPUS = 256"

text \<open>
  What \<open>dispatch_apply_f\<close> decides before any function runs: to return, to run the serial loop with
  \<open>dispatch_sync_f\<close>, or to run \<open>thr_cnt\<close> continuations.  On a queue with no target the caller borrows
  the queue and runs the first continuation itself.
\<close>

datatype apply_plan =
    Apply_nothing
  | Apply_serial
  | Apply_parallel u64 bool

definition apply_plan_of :: "u32 \<Rightarrow> u64 \<Rightarrow> bool \<Rightarrow> u64 \<Rightarrow> apply_plan" where
  "apply_plan_of cc_max_active dq_width has_targetq iterations =
     (let thr_cnt = (ucast cc_max_active :: u64);
          thr_cnt = (if thr_cnt > DISPATCH_APPLY_MAX_CPUS then DISPATCH_APPLY_MAX_CPUS else thr_cnt) in
      if iterations = 0 then Apply_nothing
      else
        let thr_cnt = (if iterations < thr_cnt then ucast (ucast iterations :: u32) else thr_cnt) in
        if dq_width \<le> 2 \<or> thr_cnt \<le> 1 then Apply_serial
        else Apply_parallel thr_cnt (\<not> has_targetq))"

text \<open>
  Where the caller is in the parallel part of \<open>dispatch_apply_f\<close>: about to push (and to borrow),
  running the first continuation, about to call or inside \<open>dispatch_semaphore_wait\<close>, or returned,
  with its stack frame, which holds \<open>da\<close> and \<open>da_dc\<close>, gone.
\<close>

datatype apply_caller =
    Ca_push bool
  | Ca_apply2
  | Ca_wait
  | Ca_waiting
  | Ca_returned

section \<open>One call of apply\<close>

text \<open>
  The threads are the caller, the continuations, and threads that have still to finish an earlier
  signal of the caller's thread semaphore.  Their calls of the semaphore are the machine of
  \<open>Dispatch_Semaphore\<close>: its thread 0 is the caller, its thread \<open>Suc i\<close> is continuation \<open>i\<close>.
  \<open>ap_calls\<close> is the log of the calls of the function, in the order in which they ended.
\<close>

record apply_sys =
  ap_da :: dispatch_apply_s
  ap_workers :: "apply_pc list"
  ap_caller :: apply_caller
  ap_sem :: sem_sys
  ap_calls :: "u64 list"
  ap_crashed :: "crash option"

text \<open>A thread continues inside its semaphore call.\<close>

definition sem_continue :: "kernel \<Rightarrow> nat \<Rightarrow> apply_sys \<Rightarrow> apply_sys option" where
  "sem_continue k j s =
     map_option (\<lambda>sem. s\<lparr>ap_sem := sem\<rparr>)
       (sem_effect j (sy_threads (ap_sem s) ! j) (ap_sem s) (sem_exec k (sy_sema (ap_sem s)) (sy_threads (ap_sem s) ! j)))"

definition apply_worker :: "kernel \<Rightarrow> nat \<Rightarrow> apply_sys \<Rightarrow> apply_sys option" where
  "apply_worker k i s =
     (let sem = ap_sem s; pc = ap_workers s ! i in
      case pc of
        Ap_signal \<Rightarrow>
          map_option (\<lambda>sem'. s\<lparr>ap_sem := sem', ap_workers := (ap_workers s)[i := Ap_signalling]\<rparr>)
            (sem_effect (Suc i) Sem_signal (sem\<lparr>sy_signals := sy_signals sem + 1\<rparr>)
              (sem_exec k (sy_sema sem) Sem_signal))
      | Ap_signalling \<Rightarrow>
          if sy_threads sem ! Suc i = Sem_idle then Some (s\<lparr>ap_workers := (ap_workers s)[i := Ap_done]\<rparr>)
          else sem_continue k (Suc i) s
      | _ \<Rightarrow>
          if reads_da pc \<and> ap_caller s = Ca_returned then Some (s\<lparr>ap_crashed := Some Use_after_free\<rparr>)
          else map_option (\<lambda>(da, pc'). s\<lparr>ap_da := da, ap_workers := (ap_workers s)[i := pc'],
                   ap_calls := ap_calls s @ (case pc of Ap_call _ idx \<Rightarrow> [idx] | _ \<Rightarrow> [])\<rparr>)
                 (u_dispatch_apply2 (ap_da s) pc))"

definition apply_call :: "kernel \<Rightarrow> apply_sys \<Rightarrow> apply_sys option" where
  "apply_call k s =
     (let sem = ap_sem s in
      case ap_caller s of
        Ca_push borrow \<Rightarrow>
          Some (s\<lparr>ap_workers := map (\<lambda>_. Ap_queued) (ap_workers s), ap_caller := if borrow then Ca_apply2 else Ca_wait\<rparr>)
      | Ca_apply2 \<Rightarrow> if ap_workers s ! 0 = Ap_done then Some (s\<lparr>ap_caller := Ca_wait\<rparr>) else None
      | Ca_wait \<Rightarrow>
          Some (s\<lparr>ap_sem := sem\<lparr>sy_threads := (sy_threads sem)[0 := Sem_wait DISPATCH_TIME_FOREVER],
                  sy_refs := sy_refs sem - 1\<rparr>, ap_caller := Ca_waiting\<rparr>)
      | Ca_waiting \<Rightarrow>
          if sy_threads sem ! 0 = Sem_idle then Some (s\<lparr>ap_caller := Ca_returned\<rparr>) else sem_continue k 0 s
      | Ca_returned \<Rightarrow> None)"

text \<open>One action of thread \<open>j\<close>; a thread that cannot move gives \<open>None\<close>.\<close>

definition apply_act :: "kernel \<Rightarrow> nat \<Rightarrow> apply_sys \<Rightarrow> apply_sys option" where
  "apply_act k j s =
     (if ap_crashed s \<noteq> None then None
      else if j = 0 then apply_call k s
      else if j \<le> length (ap_workers s) then apply_worker k (j - 1) s
      else if j < length (sy_threads (ap_sem s)) then sem_continue k j s
      else None)"

inductive apply_step :: "apply_sys \<Rightarrow> apply_sys \<Rightarrow> bool" where
  apply_stepI: "apply_act k j s = Some t \<Longrightarrow> apply_step s t"

text \<open>
  The thread semaphore when the call starts: fresh from \<open>dispatch_semaphore_create\<close>, or cached from
  earlier calls, each of whose signals was taken by its wait; the signallers may still be on their
  way out.
\<close>

definition thread_sema :: "nat \<Rightarrow> sem_sys \<Rightarrow> bool" where
  "thread_sema n sem =
     (reach (sem_init 0) sem_step sem \<and> sy_crashed sem = None \<and> sy_passes sem = sy_signals sem \<and>
      sy_refs sem \<ge> 1 \<and> n < length (sy_threads sem) \<and> (\<forall>j\<le>n. sy_threads sem ! j = Sem_idle) \<and>
      tsum waits (sy_threads sem) = 0)"

definition apply_init :: "u64 \<Rightarrow> u64 \<Rightarrow> bool \<Rightarrow> apply_sys \<Rightarrow> bool" where
  "apply_init iterations thr_cnt borrow s =
     (ap_da s = \<lparr>da_iterations = iterations, da_index = 0, da_thr_cnt = thr_cnt\<rparr> \<and>
      ap_workers s = replicate (unat thr_cnt) Ap_off \<and> ap_caller s = Ca_push borrow \<and>
      thread_sema (unat thr_cnt) (ap_sem s) \<and> ap_calls s = [] \<and> ap_crashed s = None)"

text \<open>The worlds in which a call of \<open>dispatch_apply_f\<close> may return.\<close>

definition dispatch_apply_f ::
    "(u64 \<Rightarrow> 'w \<Rightarrow> 'w) \<Rightarrow> u32 \<Rightarrow> u64 \<Rightarrow> bool \<Rightarrow> u64 \<Rightarrow> 'w \<Rightarrow> 'w \<Rightarrow> bool" where
  "dispatch_apply_f f cc_max_active dq_width has_targetq iterations w w' =
     (case apply_plan_of cc_max_active dq_width has_targetq iterations of
        Apply_nothing \<Rightarrow> w' = w
      | Apply_serial \<Rightarrow> w' = u_dispatch_apply_serial f iterations w
      | Apply_parallel thr_cnt borrow \<Rightarrow>
          (\<exists>s. reach (apply_init iterations thr_cnt borrow) apply_step s \<and> ap_caller s = Ca_returned \<and>
               w' = fold f (ap_calls s) w))"

section \<open>The thread semaphore\<close>

text \<open>
  What a thread inside the semaphore changes while a client holds a reference: the semaphore neither
  fails nor is disposed of, and only the thread itself moves.
\<close>

lemma sem_run_frame:
  assumes "sem_effect j p s (sem_exec k (sy_sema s) p) = Some t"
  shows "length (sy_threads t) = length (sy_threads s)" "sy_signals t = sy_signals s"
    "i \<noteq> j \<Longrightarrow> sy_threads t ! i = sy_threads s ! i"
  using assms by (cases "sem_exec k (sy_sema s) p"; auto)+

lemma sem_run_referenced:
  assumes inv: "sem_inv v s" "sem_refs_inv s" and s: "sy_crashed s = None" "j < length (sy_threads s)"
    and ref: "1 \<le> sy_refs s + tsum waits (sy_threads s)"
    and t: "sem_effect j (sy_threads s ! j) s (sem_exec k (sy_sema s) (sy_threads s ! j)) = Some t"
  shows "sy_crashed t = None \<and> sy_refs t + tsum waits (sy_threads t) = sy_refs s + tsum waits (sy_threads s)"
proof -
  define p where "p = sy_threads s ! j"
  note upd = tsum_update [OF s(2), folded p_def]
  note counts = sem_threads_waits [of "sy_threads s"]
  have num: "refs_num (sy_sema s) (sy_refs s) (tsum waits (sy_threads s)) (tsum holds (sy_threads s)) (sy_freed s)"
    and len: "int (length (sy_threads s)) + 2 < DISPATCH_OBJECT_GLOBAL_REFCNT"
    using inv(2) s(1) by (auto simp: sem_refs_inv_def)
  have ge: "holds p \<le> tsum holds (sy_threads s)"
    using s(2) by (simp add: p_def tsum_ge)
  have "p \<noteq> Sem_signal"
    using inv(1) s by (auto simp: sem_inv_def Let_def list_all_length p_def dest!: spec [of _ j])
  then consider "is_wait p" | "p = Sem_idle" | "p = Sem_slow_retain" | "p = Sem_slow_sent \<or> p = Sem_slow_post"
    | "p = Sem_slow_release"
    by (cases p) auto
  then show ?thesis
  proof cases
    case 1
    then have w: "waits p = 1"
      by (simp add: waits_is_wait)
    show ?thesis
    proof (cases "sem_exec k (sy_sema s) p")
      case (Goes d q)
      then have "waits q = waits p"
        using sem_exec_goes_header [OF Goes] 1 by (cases p) auto
      then show ?thesis
        using t Goes s(1) by (auto simp: p_def [symmetric] upd)
    qed (use t sem_exec_wait_ends [OF 1, of k "sy_sema s"] 1 w s(1) in \<open>auto simp: p_def [symmetric] upd\<close>)
  next
    case 3
    then show ?thesis
      using t num ref s(1) counts
      by (auto simp: p_def [symmetric] u_dispatch_retain_def refs_num_def upd Let_def split: if_splits)
  next
    case 5
    then have "\<not> sy_freed s"
      using ge num counts by (auto simp: refs_num_def split: if_splits)
    then show ?thesis
      using 5 t num ref s(1) counts ge len
      by (auto simp: p_def [symmetric] sem_release_def release_count_def refs_num_def upd Let_def split: if_splits)
  qed (use t s(1) in \<open>auto simp: p_def [symmetric] upd\<close>)
qed

lemma sem_run_not_wait:
  assumes "sem_effect j p s (sem_exec k (sy_sema s) p) = Some t" "waits p = 0" "p \<noteq> Sem_signal"
    and "sy_crashed t = None" "j < length (sy_threads s)"
  shows "waits (sy_threads t ! j) = 0 \<and> sy_passes t = sy_passes s"
  using assms by (cases p) (auto simp: u_dispatch_retain_def sem_release_def Let_def
      split: sum.splits if_splits option.splits prod.splits)

text \<open>A wait for ever stays one until it returns 0.\<close>

fun waits_forever :: "sem_pc \<Rightarrow> bool" where
  "waits_forever (Sem_wait timeout) = (timeout = DISPATCH_TIME_FOREVER)"
| "waits_forever (Sem_again timeout) = (timeout = DISPATCH_TIME_FOREVER)"
| "waits_forever (Sem_again_cas timeout _) = (timeout = DISPATCH_TIME_FOREVER)"
| "waits_forever (Sem_switch timeout) = (timeout = DISPATCH_TIME_FOREVER)"
| "waits_forever (Sem_forever timeout) = (timeout = DISPATCH_TIME_FOREVER)"
| "waits_forever _ = False"

lemma sem_run_forever:
  assumes "sem_effect j p s (sem_exec k (sy_sema s) p) = Some t" "waits_forever p"
    and "j < length (sy_threads s)"
  shows "(waits_forever (sy_threads t ! j) \<and> sy_passes t = sy_passes s) \<or>
         (sy_threads t ! j = Sem_idle \<and> sy_passes t = sy_passes s + 1)"
proof -
  have "DISPATCH_TIME_FOREVER \<noteq> DISPATCH_TIME_NOW"
    by (simp add: DISPATCH_TIME_FOREVER_def DISPATCH_TIME_NOW_def)
  then show ?thesis
    using assms by (cases p) (auto simp: Let_def split: if_splits)
qed

definition sema_inv :: "nat \<Rightarrow> int \<Rightarrow> apply_caller \<Rightarrow> sem_sys \<Rightarrow> bool" where
  "sema_inv n s0 c sem =
     (sem_inv 0 sem \<and> sem_refs_inv sem \<and> sy_crashed sem = None \<and> n < length (sy_threads sem) \<and>
      1 \<le> sy_refs sem + tsum waits (sy_threads sem) \<and>
      (\<forall>j. 0 < j \<longrightarrow> j < length (sy_threads sem) \<longrightarrow> waits (sy_threads sem ! j) = 0) \<and>
      (sy_threads sem ! 0 = Sem_idle \<or> c = Ca_waiting \<and> waits_forever (sy_threads sem ! 0)) \<and>
      sy_passes sem = s0 + (if c = Ca_returned \<or> c = Ca_waiting \<and> sy_threads sem ! 0 = Sem_idle then 1 else 0))"

lemma sema_continue:
  assumes "sema_inv n s0 c sem" "j < length (sy_threads sem)"
    and t: "sem_effect j (sy_threads sem ! j) sem (sem_exec k (sy_sema sem) (sy_threads sem ! j)) = Some sem'"
  shows "sema_inv n s0 c sem' \<and> sy_signals sem' = sy_signals sem"
proof -
  note inv = assms(1) [unfolded sema_inv_def]
  have step: "sem_step sem sem'"
    using sem_run [OF _ assms(2) t] inv by simp
  have keeps: "sem_inv 0 sem'" "sem_refs_inv sem'"
    using sem.inv_step [of 0, OF _ step] inv by simp_all
  have ref: "sy_crashed sem' = None" "1 \<le> sy_refs sem' + tsum waits (sy_threads sem')"
    using sem_run_referenced [of 0 sem j k sem'] inv assms(2) t by auto
  note frame = sem_run_frame [OF t]
  show ?thesis
  proof (cases "j = 0")
    case True
    have "sy_threads sem ! 0 \<noteq> Sem_idle"
      using t True by auto
    then show ?thesis
      using sem_run_forever [OF t _ assms(2)] inv True keeps ref frame
      by (auto simp: sema_inv_def)
  next
    case False
    have "sy_threads sem ! j \<noteq> Sem_signal"
      using inv assms(2) by (auto simp: sem_inv_def Let_def list_all_length dest!: spec [of _ j])
    then have slot: "waits (sy_threads sem' ! j) = 0" "sy_passes sem' = sy_passes sem"
      using sem_run_not_wait [OF t _ _ ref(1) assms(2)] inv False assms(2) by auto
    have "waits (sy_threads sem' ! i) = 0" if "0 < i" "i < length (sy_threads sem')" for i
      using slot(1) frame that inv by (cases "i = j") auto
    then show ?thesis
      using inv keeps ref frame slot(2) False unfolding sema_inv_def by simp
  qed
qed

lemma sema_signal:
  assumes "sema_inv n s0 c sem" "0 < j" "j < length (sy_threads sem)" "sy_threads sem ! j = Sem_idle"
    and t: "sem_effect j Sem_signal (sem\<lparr>sy_signals := sy_signals sem + 1\<rparr>) (sem_exec k (sy_sema sem) Sem_signal) = Some sem'"
  shows "sema_inv n s0 c sem' \<and> sy_signals sem' = sy_signals sem + 1"
proof -
  note inv = assms(1) [unfolded sema_inv_def]
  have "\<not> sy_freed sem"
    using inv sem_threads_waits [of "sy_threads sem"]
    by (auto simp: sem_refs_inv_def refs_num_def split: if_splits)
  then have step: "sem_step sem sem'"
    using sem_call_signal [OF _ assms(3,4) _ t] inv by simp
  have keeps: "sem_inv 0 sem'" "sem_refs_inv sem'"
    using sem.inv_step [of 0, OF _ step] inv by simp_all
  obtain q where q: "sy_threads sem' = (sy_threads sem)[j := q]" "waits q = 0" "sy_crashed sem' = sy_crashed sem"
      "sy_refs sem' = sy_refs sem" "sy_passes sem' = sy_passes sem" "sy_signals sem' = sy_signals sem + 1"
    using t by (auto simp: Let_def split: if_splits)
  have "waits (sy_threads sem' ! i) = 0" if "0 < i" "i < length (sy_threads sem')" for i
    using q(1,2) that inv by (cases "i = j") auto
  then show ?thesis
    using inv keeps q(2-) assms(2-4) unfolding sema_inv_def q(1) by (simp add: tsum_update)
qed

lemma sema_wait:
  assumes "sema_inv n s0 Ca_wait sem"
  shows "sema_inv n s0 Ca_waiting (sem\<lparr>sy_threads := (sy_threads sem)[0 := Sem_wait DISPATCH_TIME_FOREVER],
           sy_refs := sy_refs sem - 1\<rparr>)" (is "sema_inv n s0 Ca_waiting ?t")
proof -
  note inv = assms [unfolded sema_inv_def]
  have idle: "sy_threads sem ! 0 = Sem_idle"
    using inv by simp
  have "waits p = 0" if mem: "p \<in> set (sy_threads sem)" for p
  proof -
    obtain j where "j < length (sy_threads sem)" "sy_threads sem ! j = p"
      using mem by (auto simp: in_set_conv_nth)
    then show ?thesis
      using inv idle by (cases "j = 0") auto
  qed
  then have "tsum waits (sy_threads sem) = 0"
    by (rule tsum_eq_0I)
  then have refs: "1 \<le> sy_refs sem"
    using inv by simp
  have len: "0 < length (sy_threads sem)"
    using inv by linarith
  have step: "sem_step sem ?t"
    using sem_call_wait [OF _ len idle refs] inv by simp
  have "sem_inv 0 ?t" "sem_refs_inv ?t"
    using sem.inv_step [of 0, OF _ step] inv by simp_all
  then show ?thesis
    using inv idle len by (auto simp: sema_inv_def tsum_update)
qed

section \<open>The continuations\<close>

text \<open>What the invariant counts: who has not counted itself out, who has left the loop, who is still to signal.\<close>

fun pending :: "apply_pc \<Rightarrow> int" where
  "pending Ap_off = 1"
| "pending Ap_queued = 1"
| "pending (Ap_next _) = 1"
| "pending (Ap_call _ _) = 1"
| "pending Ap_dec = 1"
| "pending _ = 0"

fun left_loop :: "apply_pc \<Rightarrow> int" where
  "left_loop Ap_off = 0"
| "left_loop Ap_queued = 0"
| "left_loop (Ap_next _) = 0"
| "left_loop (Ap_call _ _) = 0"
| "left_loop _ = 1"

fun to_signal :: "apply_pc \<Rightarrow> int" where
  "to_signal Ap_sema = 1"
| "to_signal Ap_signal = 1"
| "to_signal _ = 0"

fun in_call :: "u64 \<Rightarrow> apply_pc \<Rightarrow> int" where
  "in_call x (Ap_call _ idx) = (if idx = x then 1 else 0)"
| "in_call x _ = 0"

fun is_push :: "apply_caller \<Rightarrow> bool" where
  "is_push (Ca_push _) = True"
| "is_push _ = False"

fun copy_ok :: "u64 \<Rightarrow> apply_pc \<Rightarrow> bool" where
  "copy_ok n (Ap_next iter) = (iter = n)"
| "copy_ok n (Ap_call iter _) = (iter = n)"
| "copy_ok n _ = True"

definition worker_ok :: "u64 \<Rightarrow> apply_caller \<Rightarrow> apply_pc \<Rightarrow> bool" where
  "worker_ok n c p = ((p = Ap_off \<longleftrightarrow> is_push c) \<and> copy_ok n p)"

lemma apply_counts [simp]:
  "0 \<le> pending p" "pending p \<le> 1" "0 \<le> left_loop p" "left_loop p \<le> 1" "0 \<le> to_signal p" "to_signal p \<le> 1"
  "0 \<le> in_call x p"
  by (cases p; simp)+

text \<open>
  The shared index \<open>k\<close> has handed out the indices below \<open>n\<close> and \<open>k\<close>, each to one call; a
  continuation leaves the loop only when they are used up.  The one that counts itself out last is
  the one that signals.
\<close>

definition index_inv :: "int \<Rightarrow> int \<Rightarrow> int \<Rightarrow> bool" where
  "index_inv n k L = (k \<le> n + L \<and> (0 < L \<longrightarrow> n \<le> k))"

definition calls_inv :: "int \<Rightarrow> int \<Rightarrow> u64 list \<Rightarrow> apply_pc list \<Rightarrow> bool" where
  "calls_inv n k calls ws =
     (\<forall>x. int (count_list calls x) + tsum (in_call x) ws = (if uint x < min n k then 1 else 0))"

definition signal_inv :: "int \<Rightarrow> int \<Rightarrow> apply_pc list \<Rightarrow> bool" where
  "signal_inv sent thr_cnt ws =
     (thr_cnt = tsum pending ws \<and> tsum to_signal ws + sent = (if thr_cnt = 0 then 1 else 0) \<and> 0 \<le> sent)"

definition apply_inv :: "u64 \<Rightarrow> nat \<Rightarrow> int \<Rightarrow> apply_sys \<Rightarrow> bool" where
  "apply_inv n thr s0 s =
     (let da = ap_da s; ws = ap_workers s; sem = ap_sem s in
      ap_crashed s = None \<and> 0 < thr \<and> length ws = thr \<and> uint n + int thr < 2 ^ 64 \<and> da_iterations da = n \<and>
      list_all (worker_ok n (ap_caller s)) ws \<and>
      index_inv (uint n) (uint (da_index da)) (tsum left_loop ws) \<and>
      calls_inv (uint n) (uint (da_index da)) (ap_calls s) ws \<and>
      signal_inv (sy_signals sem - s0) (uint (da_thr_cnt da)) ws \<and>
      sema_inv thr s0 (ap_caller s) sem \<and>
      (\<forall>i<thr. ws ! i \<noteq> Ap_signalling \<longrightarrow> sy_threads sem ! Suc i = Sem_idle))"

text \<open>Once the caller's wait has passed, every continuation has counted itself out and the signal is sent.\<close>

lemma apply_passed:
  assumes "apply_inv n thr s0 s" "sy_passes (ap_sem s) = s0 + 1"
  shows "da_thr_cnt (ap_da s) = 0" "i < length (ap_workers s) \<Longrightarrow> ap_workers s ! i \<in> {Ap_signalling, Ap_done}"
proof -
  let ?ws = "ap_workers s"
  have sem: "sem_inv 0 (ap_sem s)" "sy_crashed (ap_sem s) = None"
    and sig: "signal_inv (sy_signals (ap_sem s) - s0) (uint (da_thr_cnt (ap_da s))) ?ws"
    using assms(1) by (simp_all add: apply_inv_def sema_inv_def Let_def)
  have "sy_passes (ap_sem s) \<le> sy_signals (ap_sem s)"
    using sem by (auto simp: sem_inv_def sem_num_def Let_def)
  then have z: "uint (da_thr_cnt (ap_da s)) = 0" "tsum to_signal ?ws = 0" "tsum pending ?ws = 0"
    using sig assms(2) tsum_nonneg [of ?ws to_signal] by (auto simp: signal_inv_def split: if_splits)
  show "da_thr_cnt (ap_da s) = 0"
    using z(1) by (metis uint_0_iff)
  assume i: "i < length ?ws"
  show "?ws ! i \<in> {Ap_signalling, Ap_done}"
    using tsum_eq_0D [OF z(2) _ i] tsum_eq_0D [OF z(3) _ i] by (cases "?ws ! i") auto
qed

lemma apply_returned_passed:
  "apply_inv n thr s0 s \<Longrightarrow> ap_caller s = Ca_returned \<Longrightarrow> sy_passes (ap_sem s) = s0 + 1"
  by (simp add: apply_inv_def sema_inv_def Let_def)

text \<open>How the work of a continuation changes the counts.\<close>

lemma word_inc:
  assumes "uint (k :: u64) + 1 < 2 ^ 64"
  shows "uint (k + 1) = uint k + 1"
  using assms by (simp add: uint_word_ariths)

lemma calls_claim:
  assumes "calls_inv (uint n) (uint k) calls ws" "i < length ws" "ws ! i = Ap_next iter" "uint k + 1 < 2 ^ 64" "k < n"
  shows "calls_inv (uint n) (uint (k + 1)) calls (ws[i := Ap_call n k])"
proof -
  have "k < n \<longleftrightarrow> uint k < uint n"
    by (simp add: word_less_def)
  moreover have "uint x = uint k \<longleftrightarrow> x = k" for x
    by (simp add: word_uint_eq_iff)
  ultimately show ?thesis
    using assms unfolding calls_inv_def by (auto simp: tsum_update word_inc)
qed

lemma calls_over:
  assumes "calls_inv n k calls ws" "i < length ws" "ws ! i = Ap_next iter" "n \<le> k" "k \<le> k'"
  shows "calls_inv n k' calls (ws[i := Ap_dec])"
  using assms unfolding calls_inv_def by (auto simp: tsum_update)

lemma calls_end:
  assumes "calls_inv n k calls ws" "i < length ws" "ws ! i = Ap_call iter idx"
  shows "calls_inv n k (calls @ [idx]) (ws[i := Ap_next iter])"
  using assms unfolding calls_inv_def by (auto simp: tsum_update)

lemma calls_same:
  assumes "calls_inv n k calls ws" "i < length ws" "\<And>x. in_call x p = in_call x (ws ! i)"
  shows "calls_inv n k calls (ws[i := p])"
  using assms unfolding calls_inv_def by (simp add: tsum_update)

lemma index_word:
  assumes "index_inv (uint n) (uint k) (tsum left_loop ws)" "uint n + int (length ws) < 2 ^ 64"
    and "i < length ws" "left_loop (ws ! i) = 0"
  shows "uint (k :: u64) + 1 < 2 ^ 64"
proof -
  have "tsum left_loop ws - left_loop (ws ! i) \<le> tsum (\<lambda>_. 1) ws - 1"
    using tsum_mono_but [OF assms(3), of left_loop "\<lambda>_. 1"] by simp
  moreover have "tsum (\<lambda>_. 1) ws = int (length ws)"
    by (induction ws) auto
  ultimately show ?thesis
    using assms by (simp add: index_inv_def)
qed

lemma signal_count_out:
  assumes "signal_inv sent (uint c) ws" "i < length ws" "ws ! i = Ap_dec"
  shows "signal_inv sent (uint (c - 1 :: u64)) (ws[i := if c - 1 = 0 then Ap_sema else Ap_done])"
proof -
  have pos: "1 \<le> uint c"
    using assms(1) tsum_ge [OF assms(2), of pending] assms(3) by (simp add: signal_inv_def)
  then have "uint (c - 1) = uint c - 1"
    using uint_sub_lem [of 1 c] by simp
  moreover have "c - 1 = 0 \<longleftrightarrow> uint c = 1"
    using calculation by (simp add: word_uint_eq_iff)
  ultimately show ?thesis
    using assms pos by (auto simp: signal_inv_def tsum_update)
qed

lemma signal_same:
  assumes "signal_inv sent c ws" "i < length ws" "pending p = pending (ws ! i)" "to_signal p = to_signal (ws ! i)"
  shows "signal_inv sent c (ws[i := p])"
  using assms by (simp add: signal_inv_def tsum_update)

lemma signal_sends:
  assumes "signal_inv sent c ws" "i < length ws" "ws ! i = Ap_signal"
  shows "signal_inv (sent + 1) c (ws[i := Ap_signalling])"
  using assms by (auto simp: signal_inv_def tsum_update)

section \<open>The invariant\<close>

lemma worker_ok_update:
  "list_all (worker_ok n c) ws \<Longrightarrow> i < length ws \<Longrightarrow> ws ! i \<noteq> Ap_off \<Longrightarrow> p \<noteq> Ap_off \<Longrightarrow> copy_ok n p \<Longrightarrow>
   list_all (worker_ok n c) (ws[i := p])"
  by (rule list_all_update) (auto simp: worker_ok_def list_all_length)

lemma apply_inv_apply2:
  assumes inv: "apply_inv n thr s0 s" and i: "i < length (ap_workers s)" "ap_workers s ! i = pc"
    and run: "u_dispatch_apply2 (ap_da s) pc = Some (da, pc')"
  shows "apply_inv n thr s0 (s\<lparr>ap_da := da, ap_workers := (ap_workers s)[i := pc'],
           ap_calls := ap_calls s @ (case pc of Ap_call _ idx \<Rightarrow> [idx] | _ \<Rightarrow> [])\<rparr>)"
proof -
  let ?k = "da_index (ap_da s)" and ?ws = "ap_workers s"
  note d = inv [unfolded apply_inv_def Let_def]
  have slots: "\<forall>i'<thr. ?ws[i := p] ! i' \<noteq> Ap_signalling \<longrightarrow> sy_threads (ap_sem s) ! Suc i' = Sem_idle"
    if "pc \<noteq> Ap_signalling" for p
    using d i that by (auto simp: nth_list_update)
  have ok: "copy_ok n pc"
    using d i by (auto simp: list_all_length worker_ok_def)
  have idx: "index_inv (uint n) (uint ?k) (tsum left_loop (?ws[i := p]))" if "left_loop p = left_loop pc" for p
    using d i that by (simp add: tsum_update)
  have "pc \<noteq> Ap_signalling"
    using run by auto
  show ?thesis
  proof (cases pc)
    case (Ap_next iter)
    then have n: "iter = n" and k: "uint ?k + 1 < 2 ^ 64"
      using ok index_word [of n ?k ?ws i] d i by auto
    have da: "da = ap_da s\<lparr>da_index := ?k + 1\<rparr>" "pc' = (if ?k < n then Ap_call n ?k else Ap_dec)"
      using run Ap_next n by (auto simp: Let_def)
    have less: "?k < n \<longleftrightarrow> uint ?k < uint n"
      by (simp add: word_less_def)
    have "index_inv (uint n) (uint (?k + 1)) (tsum left_loop (?ws[i := pc']))"
      using d i Ap_next tsum_nonneg [of ?ws left_loop] k
      by (auto simp: index_inv_def tsum_update word_inc da(2) less)
    moreover have "calls_inv (uint n) (uint (?k + 1)) (ap_calls s) (?ws[i := pc'])"
      using d i Ap_next n k calls_claim [of n ?k _ ?ws i] calls_over [of "uint n" "uint ?k" _ ?ws i n "uint (?k + 1)"]
      by (auto simp: da(2) less word_inc)
    ultimately show ?thesis
      using d i Ap_next slots [of pc'] signal_same [of _ _ ?ws i pc'] worker_ok_update [of n _ ?ws i pc']
      by (auto simp: apply_inv_def da)
  next
    case (Ap_call iter idx')
    then show ?thesis
      using d i run slots [of pc'] idx [of pc'] signal_same [of _ _ ?ws i pc'] worker_ok_update [of n _ ?ws i pc'] ok
        calls_end [of _ _ _ ?ws i]
      by (auto simp: apply_inv_def Let_def)
  next
    case Ap_dec
    then show ?thesis
      using d i run slots [of pc'] idx [of pc'] signal_count_out [of _ "da_thr_cnt (ap_da s)" ?ws i]
        worker_ok_update [of n _ ?ws i pc'] calls_same [of _ _ _ ?ws i pc']
      by (auto simp: apply_inv_def Let_def split: if_splits)
  qed (use run d i slots [of pc'] idx [of pc'] signal_same [of _ _ ?ws i pc'] worker_ok_update [of n _ ?ws i pc']
      calls_same [of _ _ _ ?ws i pc'] in \<open>auto simp: apply_inv_def Let_def\<close>)
qed

lemma apply_inv_continue:
  assumes inv: "apply_inv n thr s0 s" and j: "j < length (sy_threads (ap_sem s))"
    and owner: "j = 0 \<or> thr < j \<or> ap_workers s ! (j - 1) = Ap_signalling"
    and t: "sem_continue k j s = Some t"
  shows "apply_inv n thr s0 t"
proof -
  obtain sem where run: "sem_effect j (sy_threads (ap_sem s) ! j) (ap_sem s)
      (sem_exec k (sy_sema (ap_sem s)) (sy_threads (ap_sem s) ! j)) = Some sem" and "t = s\<lparr>ap_sem := sem\<rparr>"
    using t by (auto simp: sem_continue_def)
  moreover have "sema_inv thr s0 (ap_caller s) sem" "sy_signals sem = sy_signals (ap_sem s)"
    using sema_continue [OF _ j run, of thr s0 "ap_caller s"] inv by (auto simp: apply_inv_def Let_def)
  moreover have "sy_threads sem ! Suc i = sy_threads (ap_sem s) ! Suc i"
    if "i < thr" "ap_workers s ! i \<noteq> Ap_signalling" for i
    using sem_run_frame(3) [OF run, of "Suc i"] owner that by (cases "Suc i = j") auto
  ultimately show ?thesis
    using inv by (simp add: apply_inv_def Let_def)
qed

lemma apply_inv_signal:
  assumes inv: "apply_inv n thr s0 s" and i: "i < length (ap_workers s)" "ap_workers s ! i = Ap_signal"
    and run: "sem_effect (Suc i) Sem_signal ((ap_sem s)\<lparr>sy_signals := sy_signals (ap_sem s) + 1\<rparr>)
      (sem_exec k (sy_sema (ap_sem s)) Sem_signal) = Some sem"
  shows "apply_inv n thr s0 (s\<lparr>ap_sem := sem, ap_workers := (ap_workers s)[i := Ap_signalling]\<rparr>)"
proof -
  let ?ws = "ap_workers s"
  note d = inv [unfolded apply_inv_def Let_def]
  have "Suc i < length (sy_threads (ap_sem s))" "sy_threads (ap_sem s) ! Suc i = Sem_idle"
    using d i by (auto simp: sema_inv_def)
  then have sem: "sema_inv thr s0 (ap_caller s) sem" "sy_signals sem - s0 = (sy_signals (ap_sem s) - s0) + 1"
    using sema_signal [OF _ _ _ _ run, of thr s0 "ap_caller s"] d by auto
  have slots: "\<forall>i'<thr. ?ws[i := Ap_signalling] ! i' \<noteq> Ap_signalling \<longrightarrow> sy_threads sem ! Suc i' = Sem_idle"
  proof (intro allI impI)
    fix i' assume a: "i' < thr" "?ws[i := Ap_signalling] ! i' \<noteq> Ap_signalling"
    then have "i' \<noteq> i"
      using i by auto
    moreover have "sy_threads sem ! Suc i' = sy_threads (ap_sem s) ! Suc i'" if "i' \<noteq> i"
      using run that by (auto simp: Let_def split: if_splits)
    ultimately show "sy_threads sem ! Suc i' = Sem_idle"
      using d a by auto
  qed
  show ?thesis
    using d i slots signal_sends [of _ _ ?ws i] calls_same [of _ _ _ ?ws i Ap_signalling]
      worker_ok_update [of n _ ?ws i Ap_signalling] sem(1)
    unfolding apply_inv_def Let_def by (simp add: sem(2) tsum_update)
qed

lemma apply_inv_done:
  assumes inv: "apply_inv n thr s0 s" and i: "i < length (ap_workers s)" "ap_workers s ! i = Ap_signalling"
    and "sy_threads (ap_sem s) ! Suc i = Sem_idle"
  shows "apply_inv n thr s0 (s\<lparr>ap_workers := (ap_workers s)[i := Ap_done]\<rparr>)"
  using inv i assms(4) signal_same [of _ _ "ap_workers s" i Ap_done] calls_same [of _ _ _ "ap_workers s" i Ap_done]
    worker_ok_update [of n _ "ap_workers s" i Ap_done]
  by (auto simp: apply_inv_def Let_def tsum_update nth_list_update)

text \<open>No continuation finds the caller's frame gone.\<close>

lemma apply_worker_works:
  assumes inv: "apply_inv n thr s0 s" and i: "i < length (ap_workers s)" and t: "apply_worker k i s = Some t"
    and "ap_workers s ! i \<notin> {Ap_signal, Ap_signalling}"
  shows "\<exists>da pc'. u_dispatch_apply2 (ap_da s) (ap_workers s ! i) = Some (da, pc') \<and>
    t = s\<lparr>ap_da := da, ap_workers := (ap_workers s)[i := pc'],
      ap_calls := ap_calls s @ (case ap_workers s ! i of Ap_call _ idx \<Rightarrow> [idx] | _ \<Rightarrow> [])\<rparr>"
proof -
  have "\<not> (reads_da (ap_workers s ! i) \<and> ap_caller s = Ca_returned)"
    using apply_passed(2) [OF inv apply_returned_passed [OF inv] i] by auto
  then show ?thesis
    using t assms(4) by (cases "ap_workers s ! i") (auto simp: apply_worker_def Let_def)
qed

lemma apply_inv_worker:
  assumes inv: "apply_inv n thr s0 s" and i: "i < length (ap_workers s)" and t: "apply_worker k i s = Some t"
  shows "apply_inv n thr s0 t"
proof -
  have len: "Suc i < length (sy_threads (ap_sem s))"
    using inv i by (auto simp: apply_inv_def sema_inv_def Let_def)
  consider "ap_workers s ! i = Ap_signal" | "ap_workers s ! i = Ap_signalling"
    | "ap_workers s ! i \<notin> {Ap_signal, Ap_signalling}"
    by auto
  then show ?thesis
  proof cases
    case 1
    then show ?thesis
      using t apply_inv_signal [OF inv i] by (auto simp: apply_worker_def Let_def simp del: sem_exec.simps)
  next
    case 2
    then show ?thesis
      using t apply_inv_done [OF inv i] apply_inv_continue [OF inv len, of k t]
      by (auto simp: apply_worker_def Let_def split: if_splits)
  next
    case 3
    show ?thesis
      using apply_worker_works [OF inv i t 3] apply_inv_apply2 [OF inv i refl] by blast
  qed
qed

lemma apply_inv_call:
  assumes inv: "apply_inv n thr s0 s" and t: "apply_call k s = Some t"
  shows "apply_inv n thr s0 t"
proof -
  note d = inv [unfolded apply_inv_def Let_def]
  have sem: "sema_inv thr s0 c (ap_sem s)" if "c \<notin> {Ca_waiting, Ca_returned}" "ap_caller s \<notin> {Ca_waiting, Ca_returned}" for c
    using d that by (simp add: sema_inv_def)
  have ok: "list_all (worker_ok n c) (ap_workers s)" if "is_push c = is_push (ap_caller s)" for c
    using d that by (auto simp: worker_ok_def list_all_iff)
  show ?thesis
  proof (cases "ap_caller s")
    case (Ca_push b)
    then have off: "ap_workers s = replicate thr Ap_off"
      using d by (auto simp: worker_ok_def list_all_iff intro: replicate_eqI)
    have "t = s\<lparr>ap_workers := replicate thr Ap_queued, ap_caller := if b then Ca_apply2 else Ca_wait\<rparr>"
      using t Ca_push by (auto simp: apply_call_def off map_replicate_const)
    then show ?thesis
      using d sem [of "if b then Ca_apply2 else Ca_wait"] Ca_push unfolding apply_inv_def off
      by (auto simp: worker_ok_def list_all_iff calls_inv_def signal_inv_def)
  next
    case Ca_apply2
    then show ?thesis
      using d t sem [of Ca_wait] ok [of Ca_wait] by (auto simp: apply_call_def apply_inv_def Let_def split: if_splits)
  next
    case Ca_wait
    have "0 < length (sy_threads (ap_sem s))"
      using d by (auto simp: sema_inv_def)
    then show ?thesis
      using d t Ca_wait ok [of Ca_waiting] sema_wait [of thr s0 "ap_sem s"]
      by (auto simp: apply_call_def apply_inv_def Let_def)
  next
    case Ca_waiting
    have len: "0 < length (sy_threads (ap_sem s))"
      using d by (auto simp: sema_inv_def)
    show ?thesis
    proof (cases "sy_threads (ap_sem s) ! 0 = Sem_idle")
      case True
      then show ?thesis
        using d t Ca_waiting ok [of Ca_returned]
        by (auto simp: apply_call_def apply_inv_def sema_inv_def Let_def)
    next
      case False
      then show ?thesis
        using t Ca_waiting apply_inv_continue [OF inv len, of k t] by (simp add: apply_call_def Let_def)
    qed
  qed (use t in \<open>simp add: apply_call_def\<close>)
qed

lemma apply_inv_step:
  assumes "apply_inv n thr s0 s" "apply_step s t"
  shows "apply_inv n thr s0 t"
  using assms(2)
proof cases
  case (apply_stepI k j)
  have len: "length (ap_workers s) = thr" "thr < length (sy_threads (ap_sem s))"
    using assms(1) by (auto simp: apply_inv_def sema_inv_def Let_def)
  show ?thesis
    using apply_stepI apply_inv_call [OF assms(1)] apply_inv_worker [OF assms(1), of "j - 1"]
      apply_inv_continue [OF assms(1), of j k t] len
    by (auto simp: apply_act_def split: if_splits)
qed

lemma apply_inv_init:
  assumes "apply_init n thr b s" "0 < thr" "uint n + uint thr < 2 ^ 64"
  shows "apply_inv n (unat thr) (sy_signals (ap_sem s)) s"
proof -
  have sem: "thread_sema (unat thr) (ap_sem s)" and "0 < unat thr"
    using assms by (simp_all add: apply_init_def word_less_nat_alt)
  have idle: "waits (sy_threads (ap_sem s) ! j) = 0" if "j < length (sy_threads (ap_sem s))" for j
    using tsum_eq_0D [OF _ _ that, of waits] sem by (simp add: thread_sema_def)
  have "sema_inv (unat thr) (sy_signals (ap_sem s)) (Ca_push b) (ap_sem s)"
    using sem sem.reachable_inv [of 0 "ap_sem s"] idle by (auto simp: sema_inv_def thread_sema_def)
  then show ?thesis
    using assms \<open>0 < unat thr\<close> sem
    by (auto simp: apply_inv_def apply_init_def Let_def list_all_iff worker_ok_def index_inv_def calls_inv_def
        signal_inv_def thread_sema_def word_less_def)
qed

text \<open>The invariant names the number of signals at the start; it holds for some such number.\<close>

interpretation apply_machine: invariant_system "\<lambda>s. apply_init n thr b s \<and> 0 < thr \<and> uint n + uint thr < 2 ^ 64"
    apply_step "\<lambda>s. \<exists>s0. apply_inv n (unat thr) s0 s"
  for n thr b
  using apply_inv_init apply_inv_step by unfold_locales blast+

section \<open>What a call of apply computes\<close>

lemma apply_serial_loop_fold:
  assumes "unat idx < unat n"
  shows "apply_serial_loop f n idx w = fold f (map word_of_nat [unat idx..<unat n]) w"
  using assms
proof (induction f n idx w rule: apply_serial_loop.induct)
  case (1 f n idx w)
  have "unat (idx + 1) = unat idx + 1"
    using 1(2) unsigned_less [of n, where 'a = nat] by (simp add: unat_word_ariths)
  moreover have "[unat idx..<unat n] = unat idx # [unat idx + 1..<unat n]"
    using 1(2) by (simp add: upt_conv_Cons)
  ultimately show ?case
    using 1 by (auto simp: Let_def word_less_nat_alt simp del: apply_serial_loop.simps
        simp: apply_serial_loop.simps [of f n idx w])
qed

lemma apply_plan_bounds:
  assumes "apply_plan_of cpus width target n = Apply_parallel thr b"
  shows "1 < thr" "thr \<le> 256" "thr \<le> n"
proof -
  have small: "(ucast (ucast n :: u32) :: u64) = n" if "n \<le> 256"
  proof (rule unsigned_word_eqI [where 'a = nat])
    have "unat n < 2 ^ 32"
      using that by (simp add: word_le_nat_alt)
    then show "unat (ucast (ucast n :: u32) :: u64) = unat n"
      by (simp add: unsigned_ucast_eq unsigned_take_bit_eq take_bit_nat_eq_self)
  qed
  show "1 < thr" "thr \<le> 256" "thr \<le> n"
    using assms small
    by (auto simp: apply_plan_of_def Let_def DISPATCH_APPLY_MAX_CPUS_def not_less split: if_splits)
qed

lemma count_indices:
  "count (mset (map word_of_nat [0..<unat n])) (x :: u64) = (if uint x < uint (n :: u64) then 1 else 0)"
proof -
  have nat: "unat (word_of_nat i :: u64) = i" if "i < unat n" for i
    using that unsigned_less [of n, where 'a = nat] by (simp add: unat_of_nat)
  have "distinct (map (word_of_nat :: nat \<Rightarrow> u64) [0..<unat n])"
    using nat by (auto simp: distinct_map intro!: inj_onI) metis
  moreover have "x \<in> set (map word_of_nat [0..<unat n]) \<longleftrightarrow> unat x < unat n"
    using nat by (auto intro!: image_eqI [of x _ "unat x"])
  ultimately show ?thesis
    by (simp add: distinct_count_atmost_1 word_less_def [symmetric] word_less_nat_alt del: set_map)
qed

lemma fold_commuting:
  assumes "mset xs = mset ys" "\<And>x y. x \<in> set xs \<Longrightarrow> y \<in> set xs \<Longrightarrow> f x \<circ> f y = f y \<circ> f x"
  shows "fold f xs = fold f ys"
  using assms by (metis fold_multiset_equiv)

lemma apply_calls_exact:
  assumes "apply_inv n thr s0 s" "sy_passes (ap_sem s) = s0 + 1"
  shows "mset (ap_calls s) = mset (map word_of_nat [0..<unat n])"
proof (rule multiset_eqI)
  fix x :: u64
  let ?ws = "ap_workers s"
  note d = assms(1) [unfolded apply_inv_def Let_def]
  note last = apply_passed(2) [OF assms]
  have "in_call x p = 0" "left_loop p = 1" if "p \<in> set ?ws" for p
    using that last by (fastforce simp: in_set_conv_nth)+
  moreover have "?ws ! 0 \<in> set ?ws" "left_loop (?ws ! 0) \<le> tsum left_loop ?ws"
    using d by (auto intro: tsum_ge)
  ultimately have "tsum (in_call x) ?ws = 0" "0 < tsum left_loop ?ws"
    by (auto intro: tsum_eq_0I)
  then have "int (count_list (ap_calls s) x) = (if uint x < uint n then 1 else 0)"
    using d by (auto simp: calls_inv_def index_inv_def min_def dest!: spec [of _ x])
  moreover have "count (mset (map word_of_nat [0..<unat n])) x = (if uint x < uint n then 1 else 0)"
    by (rule count_indices)
  ultimately show "count (mset (ap_calls s)) x = count (mset (map word_of_nat [0..<unat n])) x"
    unfolding count_mset by (auto split: if_splits)
qed

section \<open>Every run of apply ends\<close>

text \<open>
  What is left to do, as a number that every action makes smaller as long as the kernel does not
  interrupt waits for nothing: indices to hand out, the rest of each continuation, kernel signals
  to take, the rest of the wait and of the signals.
\<close>

fun worker_wt :: "apply_pc \<Rightarrow> int" where
  "worker_wt Ap_off = 17"
| "worker_wt Ap_queued = 16"
| "worker_wt (Ap_next _) = 15"
| "worker_wt (Ap_call _ _) = 16"
| "worker_wt Ap_dec = 14"
| "worker_wt Ap_sema = 13"
| "worker_wt Ap_signal = 12"
| "worker_wt Ap_signalling = 1"
| "worker_wt Ap_done = 0"

fun caller_wt :: "apply_caller \<Rightarrow> int" where
  "caller_wt (Ca_push _) = 8"
| "caller_wt Ca_apply2 = 7"
| "caller_wt Ca_wait = 6"
| "caller_wt Ca_waiting = 1"
| "caller_wt Ca_returned = 0"

fun wait_wt :: "int \<Rightarrow> sem_pc \<Rightarrow> int" where
  "wait_wt sent (Sem_wait _) = 4"
| "wait_wt sent (Sem_again _) = 3"
| "wait_wt sent (Sem_again_cas _ orig) = (if orig = sent then 1 else 4)"
| "wait_wt sent (Sem_switch _) = 2"
| "wait_wt sent (Sem_forever _) = 1"
| "wait_wt sent _ = 0"

fun signal_wt :: "sem_pc \<Rightarrow> int" where
  "signal_wt Sem_slow_retain = 10"
| "signal_wt Sem_slow_sent = 9"
| "signal_wt Sem_slow_post = 5"
| "signal_wt Sem_slow_release = 1"
| "signal_wt _ = 0"

definition sem_left :: "sem_sys \<Rightarrow> int" where
  "sem_left sem = 3 * dsema_sem (sy_sema sem) + wait_wt (dsema_sent_ksignals (sy_sema sem)) (sy_threads sem ! 0) +
     tsum signal_wt (sy_threads sem)"

definition apply_left :: "apply_sys \<Rightarrow> int" where
  "apply_left s =
     4 * (uint (da_iterations (ap_da s)) + int (length (ap_workers s)) - uint (da_index (ap_da s))) +
     tsum worker_wt (ap_workers s) + caller_wt (ap_caller s) + sem_left (ap_sem s)"

lemma apply_weights [simp]: "0 \<le> worker_wt p" "0 \<le> caller_wt c"
  by (cases p; simp) (cases c; simp)

lemma sem_weights [simp]: "0 \<le> wait_wt K q" "0 \<le> signal_wt q"
  by (cases q; simp)+

lemma sem_left_continue:
  assumes inv: "sema_inv n s0 c sem" and j: "j < length (sy_threads sem)"
    and t: "sem_effect j (sy_threads sem ! j) sem (sem_exec Proceed (sy_sema sem) (sy_threads sem ! j)) = Some sem'"
  shows "sem_left sem' < sem_left sem"
proof -
  define p where "p = sy_threads sem ! j"
  note upd = tsum_update [OF j, folded p_def]
  show ?thesis
  proof (cases "j = 0")
    case True
    have "waits_forever p" "DISPATCH_TIME_FOREVER \<noteq> DISPATCH_TIME_NOW"
      using inv t True
      by (auto simp: sema_inv_def p_def DISPATCH_TIME_FOREVER_def DISPATCH_TIME_NOW_def)
    moreover have "sy_threads sem ! 0 = p"
      using True by (simp add: p_def)
    ultimately show ?thesis
      using t True j upd by (cases p) (auto simp: sem_left_def Let_def split: if_splits)
  next
    case False
    have "waits p = 0" "p \<noteq> Sem_signal"
      using inv False j
      by (auto simp: sema_inv_def p_def sem_inv_def Let_def list_all_length dest!: spec [of _ j])
    moreover have "sy_crashed sem' = None"
      using sema_continue [OF inv j t] by (simp add: sema_inv_def)
    moreover have "wait_wt (K + 1) q - 4 < wait_wt K q" for K q
      by (cases q) auto
    ultimately show ?thesis
      using t False j by (cases p) (auto simp: p_def [symmetric] sem_left_def upd u_dispatch_retain_def sem_release_def
          release_count_def u_dispatch_semaphore_dispose_def Let_def
          split: if_splits sum.splits prod.splits option.splits)
  qed
qed

lemma sem_left_signal:
  assumes "j < length (sy_threads sem)" "0 < j" "sy_threads sem ! j = Sem_idle"
    and "sem_effect j Sem_signal (sem\<lparr>sy_signals := sy_signals sem + 1\<rparr>) (sem_exec k (sy_sema sem) Sem_signal) = Some sem'"
  shows "sem_left sem' \<le> sem_left sem + 10"
  using assms by (auto simp: sem_left_def tsum_update Let_def split: if_splits)

lemma apply_left_apply2:
  assumes inv: "apply_inv n thr s0 s" and i: "i < length (ap_workers s)"
    and run: "u_dispatch_apply2 (ap_da s) (ap_workers s ! i) = Some (da, pc')"
  shows "apply_left (s\<lparr>ap_da := da, ap_workers := (ap_workers s)[i := pc'], ap_calls := calls\<rparr>) < apply_left s"
proof -
  let ?k = "da_index (ap_da s)"
  have "uint (?k + 1) = uint ?k + 1" if "left_loop (ap_workers s ! i) = 0"
    using index_word [of n ?k "ap_workers s" i] word_inc [of ?k] inv i that by (auto simp: apply_inv_def Let_def)
  then show ?thesis
    using run i by (cases "ap_workers s ! i") (auto simp: apply_left_def tsum_update Let_def split: if_splits)
qed

lemma apply_left_continue:
  assumes "apply_inv n thr s0 s" "j < length (sy_threads (ap_sem s))" "sem_continue Proceed j s = Some t"
  shows "apply_left t < apply_left s"
  using assms sem_left_continue [of thr s0 "ap_caller s" "ap_sem s" j]
  by (auto simp: sem_continue_def apply_inv_def apply_left_def Let_def)

lemma apply_left_worker:
  assumes inv: "apply_inv n thr s0 s" and i: "i < length (ap_workers s)" and t: "apply_worker Proceed i s = Some t"
  shows "apply_left t < apply_left s"
proof -
  have len: "Suc i < length (sy_threads (ap_sem s))"
    using inv i by (auto simp: apply_inv_def sema_inv_def Let_def)
  consider "ap_workers s ! i = Ap_signal" | "ap_workers s ! i = Ap_signalling"
    | "ap_workers s ! i \<notin> {Ap_signal, Ap_signalling}"
    by auto
  then show ?thesis
  proof cases
    case 1
    moreover have "sy_threads (ap_sem s) ! Suc i = Sem_idle"
      using inv i 1 by (auto simp: apply_inv_def Let_def)
    ultimately show ?thesis
      using t i sem_left_signal [OF len, of Proceed]
      by (auto simp: apply_worker_def apply_left_def tsum_update Let_def simp del: sem_exec.simps)
  next
    case 2
    then show ?thesis
      using t i apply_left_continue [OF inv len]
      by (auto simp: apply_worker_def apply_left_def tsum_update Let_def split: if_splits)
  next
    case 3
    show ?thesis
      using apply_worker_works [OF inv i t 3] apply_left_apply2 [OF inv i] by blast
  qed
qed

lemma apply_left_call:
  assumes inv: "apply_inv n thr s0 s" and t: "apply_call Proceed s = Some t"
  shows "apply_left t < apply_left s"
proof -
  have len: "0 < length (sy_threads (ap_sem s))"
    using inv by (auto simp: apply_inv_def sema_inv_def Let_def)
  show ?thesis
  proof (cases "ap_caller s")
    case (Ca_push b)
    have "worker_wt Ap_queued \<le> worker_wt p" if "p \<in> set (ap_workers s)" for p
      using inv Ca_push that by (auto simp: apply_inv_def Let_def list_all_iff worker_ok_def)
    then have "tsum worker_wt (map (\<lambda>_. Ap_queued) ws) \<le> tsum worker_wt ws" if "set ws \<subseteq> set (ap_workers s)" for ws
      using that by (induction ws) (auto intro: add_mono)
    from this [of "ap_workers s"] show ?thesis
      using t Ca_push by (auto simp: apply_call_def apply_left_def)
  next
    case Ca_wait
    then have "sy_threads (ap_sem s) ! 0 = Sem_idle"
      using inv by (auto simp: apply_inv_def sema_inv_def Let_def)
    then show ?thesis
      using t Ca_wait len by (auto simp: apply_call_def apply_left_def sem_left_def tsum_update Let_def)
  next
    case Ca_waiting
    then show ?thesis
      using t apply_left_continue [OF inv len]
      by (auto simp: apply_call_def apply_left_def Let_def split: if_splits)
  qed (use t in \<open>auto simp: apply_call_def apply_left_def split: if_splits\<close>)
qed

lemma apply_left_decreases:
  assumes "apply_inv n thr s0 s" "apply_act Proceed j s = Some t"
  shows "apply_left t < apply_left s"
  using assms apply_left_call [OF assms(1)] apply_left_worker [OF assms(1), of "j - 1"]
    apply_left_continue [OF assms(1), of j]
  by (auto simp: apply_act_def split: if_splits)

lemma apply_left_nonneg:
  assumes "apply_inv n thr s0 s"
  shows "0 \<le> apply_left s"
proof -
  have "tsum left_loop (ap_workers s) \<le> int (length (ap_workers s))"
    by (simp add: tsum_le_length)
  then have "0 \<le> uint n + int (length (ap_workers s)) - uint (da_index (ap_da s))" "0 \<le> dsema_sem (sy_sema (ap_sem s))"
    using assms by (auto simp: apply_inv_def index_inv_def sema_inv_def sem_inv_def sem_num_def Let_def)
  moreover have "da_iterations (ap_da s) = n"
    using assms by (simp add: apply_inv_def Let_def)
  ultimately show ?thesis
    by (simp add: apply_left_def sem_left_def tsum_nonneg)
qed

text \<open>A thread in the slow path of a signal can always move.\<close>

lemma sem_signal_moves:
  assumes "p \<noteq> Sem_idle" "waits p = 0" "p \<noteq> Sem_signal"
  shows "sem_effect j p s (sem_exec k d p) \<noteq> None"
proof -
  have "sem_exec k d p \<noteq> Blocked"
    using assms by (cases p) (auto simp: u_dispatch_retain_def sem_release_def Let_def
        split: sum.splits option.splits if_splits prod.splits)
  then show ?thesis
    by (cases "sem_exec k d p") auto
qed

lemma apply_stuck_idle:
  assumes inv: "apply_inv n thr s0 s" and stuck: "\<And>j. apply_act Proceed j s = None"
    and j: "0 < j" "j < length (sy_threads (ap_sem s))"
  shows "sy_threads (ap_sem s) ! j = Sem_idle"
proof (rule ccontr)
  assume busy: "sy_threads (ap_sem s) ! j \<noteq> Sem_idle"
  note d = inv [unfolded apply_inv_def Let_def]
  have "waits (sy_threads (ap_sem s) ! j) = 0" "sy_threads (ap_sem s) ! j \<noteq> Sem_signal"
    using d j by (auto simp: sema_inv_def sem_inv_def Let_def list_all_length dest!: spec [of _ j])
  then have "sem_continue Proceed j s \<noteq> None"
    using sem_signal_moves [OF busy] by (simp add: sem_continue_def)
  moreover have "ap_workers s ! (j - 1) = Ap_signalling" if "j \<le> thr"
    using d j busy that by (auto dest!: spec [of _ "j - 1"])
  ultimately show False
    using stuck [of j] j d busy by (auto simp: apply_act_def apply_worker_def Let_def split: if_splits)
qed

lemma apply_stuck_done:
  assumes inv: "apply_inv n thr s0 s" and stuck: "\<And>j. apply_act Proceed j s = None"
    and push: "\<not> is_push (ap_caller s)" and i: "i < length (ap_workers s)"
  shows "ap_workers s ! i = Ap_done"
proof -
  note d = inv [unfolded apply_inv_def Let_def]
  have idle: "sy_threads (ap_sem s) ! Suc i = Sem_idle"
    using apply_stuck_idle [OF inv stuck] d i by (auto simp: sema_inv_def)
  have "ap_workers s ! i \<noteq> Ap_off"
    using d i push by (auto simp: list_all_length worker_ok_def)
  moreover have "apply_worker Proceed i s = None"
    using stuck [of "Suc i"] i d by (auto simp: apply_act_def)
  ultimately show ?thesis
    using idle by (cases "ap_workers s ! i") (auto simp: apply_worker_def Let_def split: if_splits)
qed

text \<open>The caller is not left behind: where nobody can move, it has returned.\<close>

lemma apply_stuck_returned:
  assumes inv: "apply_inv n thr s0 s" and stuck: "\<And>j. apply_act Proceed j s = None"
  shows "ap_caller s = Ca_returned"
proof (rule ccontr)
  assume not: "ap_caller s \<noteq> Ca_returned"
  let ?sem = "ap_sem s" and ?ws = "ap_workers s"
  let ?ts = "sy_threads ?sem"
  note d = inv [unfolded apply_inv_def Let_def]
  have call: "apply_call Proceed s = None"
    using stuck [of 0] d by (simp add: apply_act_def)
  then have push: "\<not> is_push (ap_caller s)"
    by (cases "ap_caller s") (auto simp: apply_call_def)
  note dn = apply_stuck_done [OF inv stuck push]
  have "0 < length ?ws"
    using d by simp
  then have waiting: "ap_caller s = Ca_waiting" "?ts ! 0 \<noteq> Sem_idle"
    using call not push dn [of 0] by (cases "ap_caller s"; auto simp: apply_call_def Let_def split: if_splits)+
  have fw: "waits_forever (?ts ! 0)" and blocked: "sem_continue Proceed 0 s = None"
    using d waiting call by (auto simp: sema_inv_def apply_call_def Let_def)
  have "DISPATCH_TIME_FOREVER \<noteq> DISPATCH_TIME_NOW"
    by (simp add: DISPATCH_TIME_FOREVER_def DISPATCH_TIME_NOW_def)
  then have zero: "?ts ! 0 = Sem_forever DISPATCH_TIME_FOREVER" "dsema_sem (sy_sema ?sem) \<le> 0"
    using fw blocked by (cases "?ts ! 0"; auto simp: sem_continue_def Let_def split: if_splits)+
  obtain us where ts: "?ts = Sem_forever DISPATCH_TIME_FOREVER # us"
    using d zero(1) by (cases ?ts) (auto simp: sema_inv_def)
  have idle: "p = Sem_idle" if "p \<in> set us" for p
    using that apply_stuck_idle [OF inv stuck] unfolding ts by (fastforce simp: in_set_conv_nth)
  then have sums: "tsum f us = 0" if "f Sem_idle = 0" for f
    using that by (metis tsum_eq_0I)
  have "tsum pending ?ws = 0" "tsum to_signal ?ws = 0"
    using dn by (auto intro!: tsum_eq_0I simp: in_set_conv_nth)
  then have "sy_signals ?sem = s0 + 1"
    using d by (auto simp: signal_inv_def)
  moreover have "sy_passes ?sem = s0"
    using d waiting by (simp add: sema_inv_def)
  moreover have "sem_inv 0 ?sem" "sy_crashed ?sem = None"
    using d by (simp_all add: sema_inv_def)
  ultimately show False
    using zero(2) by (auto simp: sem_inv_def sem_num_def Let_def ts sums max_def split: if_splits)
qed

lemma no_descent:
  assumes "\<And>m. (f :: nat \<Rightarrow> int) (Suc m) < f m" "\<And>m. 0 \<le> f m"
  shows False
proof -
  have "f m \<le> f 0 - int m" for m
  proof (induction m)
    case (Suc m)
    then show ?case
      using assms(1) [of m] by simp
  qed simp
  from this [of "Suc (nat (f 0))"] show False
    using assms(2) [of "Suc (nat (f 0))"] assms(2) [of 0] by simp
qed

section \<open>Properties\<close>

lemma apply_reachable_inv:
  assumes "apply_plan_of cpus width target n = Apply_parallel thr b" "uint n + 256 < 2 ^ 64"
    and "reach (apply_init n thr b) apply_step s"
  shows "\<exists>s0. apply_inv n (unat thr) s0 s"
proof -
  have "0 < thr" "uint thr \<le> 256"
    using apply_plan_bounds [OF assms(1)] by (auto simp: word_le_def word_less_def)
  then show ?thesis
    using apply_machine.reachable_inv [of n thr b s] assms(2,3) by simp
qed

text \<open>
  C12: \<open>dispatch_apply_f\<close> computes what a loop over the indices computes.  Whatever the number of
  processors, the width of the queue and the interleaving of the continuations, a world in which
  the call returns is the one of the functions \<open>f 0\<close>, ..., \<open>f (n - 1)\<close> applied one after the other,
  provided that they commute and that the shared index cannot wrap around.
\<close>

theorem apply_equals_loop:
  assumes "dispatch_apply_f f cpus width target n w w'" "uint n + 256 < 2 ^ 64"
    and "\<And>i j. f i \<circ> f j = f j \<circ> f i"
  shows "w' = fold f (map word_of_nat [0..<unat n]) w"
proof (cases "apply_plan_of cpus width target n")
  case Apply_nothing
  then have "n = 0"
    by (auto simp: apply_plan_of_def Let_def split: if_splits)
  then show ?thesis
    using assms(1) Apply_nothing by (simp add: dispatch_apply_f_def)
next
  case Apply_serial
  then have "0 < unat n"
    by (auto simp: apply_plan_of_def Let_def unat_gt_0 split: if_splits)
  then show ?thesis
    using assms(1) Apply_serial apply_serial_loop_fold [of 0 n f w]
    by (simp add: dispatch_apply_f_def u_dispatch_apply_serial_def)
next
  case (Apply_parallel thr b)
  then obtain s where s: "reach (apply_init n thr b) apply_step s" "ap_caller s = Ca_returned"
      "w' = fold f (ap_calls s) w"
    using assms(1) by (auto simp: dispatch_apply_f_def)
  obtain s0 where inv: "apply_inv n (unat thr) s0 s"
    using apply_reachable_inv [OF Apply_parallel assms(2) s(1)] by blast
  show ?thesis
    using fold_commuting [OF apply_calls_exact [OF inv apply_returned_passed [OF inv s(2)]], of f] assms(3) s(3)
    by simp
qed

text \<open>
  C14: A parallel \<open>dispatch_apply_f\<close> completes, calls the function exactly once for each index and
  leaves nobody with its stack frame.  In every reachable state no continuation has touched \<open>da\<close>
  after the caller returned; no run goes on for ever unless the kernel interrupts a wait again and
  again; where no thread can move, the caller has returned; and once it has returned, the calls
  that ended are those of the indices below \<open>n\<close>, each once.
\<close>

theorem apply_completes:
  assumes "apply_plan_of cpus width target n = Apply_parallel thr b" "uint n + 256 < 2 ^ 64"
    and "reach (apply_init n thr b) apply_step s"
  shows "ap_crashed s = None \<and>
         \<not> (\<exists>run. run 0 = s \<and> (\<forall>m. \<exists>j. apply_act Proceed j (run m) = Some (run (Suc m)))) \<and>
         ((\<forall>j. apply_act Proceed j s = None) \<longrightarrow> ap_caller s = Ca_returned) \<and>
         (ap_caller s = Ca_returned \<longrightarrow> mset (ap_calls s) = mset (map word_of_nat [0..<unat n]))"
proof -
  obtain s0 where inv: "apply_inv n (unat thr) s0 s"
    using apply_reachable_inv [OF assms] by blast
  have "\<not> (\<forall>m. \<exists>j. apply_act Proceed j (run m) = Some (run (Suc m)))" if "run 0 = s" for run
  proof
    assume steps: "\<forall>m. \<exists>j. apply_act Proceed j (run m) = Some (run (Suc m))"
    have "apply_inv n (unat thr) s0 (run m)" for m
    proof (induction m)
      case (Suc m)
      then show ?case
        using steps apply_inv_step apply_stepI by blast
    qed (simp add: inv that)
    then show False
      using no_descent [of "\<lambda>m. apply_left (run m)"] steps apply_left_decreases apply_left_nonneg by blast
  qed
  then show ?thesis
    using inv apply_stuck_returned [OF inv] apply_calls_exact [OF inv apply_returned_passed [OF inv]]
    by (auto simp: apply_inv_def Let_def)
qed

section \<open>Witnesses\<close>

text \<open>Two processors and two indices; the caller borrows a root queue and makes both calls.\<close>

definition apply_example :: apply_sys where
  "apply_example =
     \<lparr>ap_da = \<lparr>da_iterations = 2, da_index = 0, da_thr_cnt = 2\<rparr>, ap_workers = [Ap_off, Ap_off],
      ap_caller = Ca_push True, ap_sem = sem_state [Sem_idle, Sem_idle, Sem_idle] 0 1 0, ap_calls = [],
      ap_crashed = None\<rparr>"

fun apply_run :: "nat list \<Rightarrow> apply_sys \<Rightarrow> apply_sys option" where
  "apply_run [] s = Some s"
| "apply_run (j # js) s = (case apply_act Proceed j s of None \<Rightarrow> None | Some t \<Rightarrow> apply_run js t)"

lemma apply_run_reach:
  "reach init apply_step s \<Longrightarrow> apply_run js s = Some t \<Longrightarrow> reach init apply_step t"
  by (induction js s rule: apply_run.induct) (auto split: option.splits intro: reach_step apply_stepI)

lemma apply_example_init: "apply_init 2 2 True apply_example"
proof -
  have "reach (sem_init 0) sem_step (sem_state [Sem_idle, Sem_idle, Sem_idle] 0 1 0)"
    by (rule reach_init)
      (simp add: sem_init_def sem_state_def dispatch_semaphore_create_def DISPATCH_OBJECT_GLOBAL_REFCNT_def)
  moreover have "[Sem_idle, Sem_idle, Sem_idle] ! j = Sem_idle" if "j \<le> 2" for j
    using that by (auto simp: numeral_2_eq_2 le_Suc_eq)
  moreover have "[Ap_off, Ap_off] = replicate 2 Ap_off"
    by (simp add: numeral_2_eq_2)
  ultimately show ?thesis
    by (simp add: apply_init_def apply_example_def thread_sema_def sem_state_def)
qed

definition apply_example_end :: apply_sys where
  "apply_example_end = the (apply_run [0, 1, 1, 1, 1, 1, 1, 1, 2, 2, 2, 2, 2, 2, 0, 0, 0, 0] apply_example)"

lemma apply_example_runs:
  "apply_run [0, 1, 1, 1, 1, 1, 1, 1, 2, 2, 2, 2, 2, 2, 0, 0, 0, 0] apply_example = Some apply_example_end"
  "ap_caller apply_example_end = Ca_returned" "ap_calls apply_example_end = [0, 1]"
  unfolding apply_example_end_def by code_simp+

lemma apply_example_plan: "apply_plan_of 2 4 False 2 = Apply_parallel 2 True"
  by code_simp

lemma apply_example_reach: "reach (apply_init 2 2 True) apply_step apply_example_end"
  by (rule apply_run_reach [OF _ apply_example_runs(1)], rule reach_init, rule apply_example_init)

theorem apply_equals_loop_witness:
  "(5 + 0 + 1 :: int) = fold (\<lambda>(i :: u64) w. w + uint i) (map word_of_nat [0..<unat (2 :: u64)]) 5"
proof (rule apply_equals_loop [where w = "5 :: int" and cpus = 2 and width = 4 and target = False])
  show "dispatch_apply_f (\<lambda>i w. w + uint i) 2 4 False 2 (5 :: int) (5 + 0 + 1)"
    using apply_example_reach apply_example_runs(2,3)
    by (auto simp: dispatch_apply_f_def apply_example_plan intro!: exI [of _ apply_example_end])
qed (auto simp: fun_eq_iff)

theorem apply_completes_witness:
  "mset (ap_calls apply_example_end) = mset (map word_of_nat [0..<unat (2 :: u64)])"
  using apply_completes [OF apply_example_plan _ apply_example_reach] apply_example_runs(2) by simp

end
