(* ===== verification/Dispatch_Group.thy ===== *)
theory Dispatch_Group
  imports Dispatch_Semaphore
begin

text \<open>
  Dispatch groups of \<open>libdispatch/src/semaphore.c\<close> in the POSIX build: enter, leave, wait, notify and
  submitted work, run by any number of threads on one group.  One action is one atomic access of a
  shared field or one system call.
\<close>

section \<open>The code\<close>

definition LONG_MAX :: int where
  "LONG_MAX = 2 ^ 63 - 1"

text \<open>
  A group is a semaphore object; \<open>dsema_value\<close> starts at \<open>LONG_MAX\<close> and is lower by the work that is
  outstanding.  The list of notifications is linked through its nodes, with an atomic tail.
\<close>

record dgroup = dobject +
  dg_value :: int
  dg_orig :: int
  dg_group_waiters :: int
  dg_sem :: int
  dg_notify_head :: "nat option"
  dg_notify_tail :: "nat option"

record dispatch_sema_notify_s =
  dsn_next :: "nat option"
  dsn_queue :: nat
  dsn_work :: nat  \<comment> \<open>\<open>dsn_func\<close> with \<open>dsn_ctxt\<close>\<close>

definition dispatch_group_create :: "nat \<Rightarrow> dgroup" where
  "dispatch_group_create root_q =
     \<lparr>do_vtable = Semaphore_vtable, do_next = Listless, do_ref_cnt = 1, do_xref_cnt = 1,
      do_suspend_cnt = 0, do_targetq = Some root_q, do_ctxt = 0, do_finalizer = 0,
      dg_value = LONG_MAX, dg_orig = LONG_MAX, dg_group_waiters = 0, dg_sem = 0,
      dg_notify_head = None, dg_notify_tail = None\<rparr>"

text \<open>
  Where a thread is.  The flag of \<open>_dispatch_group_wake\<close> says that its caller is the end of a
  continuation of \<open>dispatch_group_async_f\<close>, which releases the group afterwards.
\<close>

datatype group_pc =
    Gr_idle
  | Gr_leave bool
  | Gr_leave_check bool
  | Gr_release
  | Gw_head bool
  | Gw_waiters bool "nat option"
  | Gw_post bool "nat option" int
  | Gw_async bool nat
  | Gw_queue_release bool nat
  | Gw_next bool nat
  | Gw_cas bool nat
  | Gw_free bool nat "nat option"
  | Gw_release bool
  | Gt_wait u64
  | Gt_again u64
  | Gt_inc u64
  | Gt_recheck u64
  | Gt_switch u64
  | Gt_undo u64
  | Gt_undo_cas u64 int
  | Gt_sem u64
  | Gn_queue_retain nat nat
  | Gn_xchg nat nat
  | Gn_link nat nat
  | Gn_retain nat
  | Gn_head nat
  | Gn_check
  | Ga_retain
  | Ga_enter
  | Ga_push

text \<open>
  The process: the group, the memory of the nodes, the references of the queues that the nodes hold,
  the log of \<open>dispatch_async_f\<close> as pairs of a queue and its work, the continuations of
  \<open>dispatch_group_async_f\<close> that wait on their queues, and the enters of clients that no leave has
  matched yet.  \<open>gr_notified\<close> is the log of the notifications in the order in which they joined the
  list.
\<close>

record group_sys =
  gr_dg :: dgroup
  gr_mem :: "nat \<Rightarrow> dispatch_sema_notify_s option"
  gr_queue_refs :: "nat \<Rightarrow> int"
  gr_async :: "(nat \<times> nat) list"
  gr_tasks :: int
  gr_entered :: int
  gr_notified :: "(nat \<times> nat) list"
  gr_threads :: "group_pc list"
  gr_crashed :: "crash option"

datatype group_act =
    Gr_blocked
  | Gr_fails crash
  | Gr_goes group_sys group_pc

abbreviation upd_dg :: "(dgroup \<Rightarrow> dgroup) \<Rightarrow> group_sys \<Rightarrow> group_sys" where
  "upd_dg f s \<equiv> s\<lparr>gr_dg := f (gr_dg s)\<rparr>"

text \<open>The comparison that every part of the code makes: no work is outstanding.\<close>

definition group_empty :: "dgroup \<Rightarrow> bool" where
  "group_empty dg = (dg_value dg = dg_orig dg)"

text \<open>
  \<open>dispatch_group_enter\<close>: the fast path of \<open>dispatch_semaphore_wait\<close>; with \<open>LONG_MAX\<close> units of work
  outstanding the thread would block.
\<close>

definition dispatch_group_enter :: "group_sys \<Rightarrow> group_pc \<Rightarrow> group_act" where
  "dispatch_group_enter s pc =
     (let dg = (gr_dg s)\<lparr>dg_value := dg_value (gr_dg s) - 1\<rparr> in
      if dg_value dg \<ge> 0 then Gr_goes (s\<lparr>gr_dg := dg\<rparr>) pc else Gr_blocked)"

fun dispatch_group_leave :: "group_sys \<Rightarrow> group_pc \<Rightarrow> group_act" where
  "dispatch_group_leave s (Gr_leave rel) =
     Gr_goes (upd_dg (\<lambda>dg. dg\<lparr>dg_value := dg_value dg + 1\<rparr>) s) (Gr_leave_check rel)"
| "dispatch_group_leave s (Gr_leave_check rel) =
     Gr_goes s (if group_empty (gr_dg s) then Gw_head rel else if rel then Gr_release else Gr_idle)"
| "dispatch_group_leave s _ = Gr_blocked"

text \<open>\<open>_dispatch_release\<close> of the group; the last reference is not given up by this code.\<close>

definition group_release :: "group_sys \<Rightarrow> group_pc \<Rightarrow> group_act" where
  "group_release s pc =
     (case release_count (gr_dg s) of
        Inl e \<Rightarrow> Gr_fails e
      | Inr (dg, dispose) \<Rightarrow> if dispose then Gr_fails Use_after_free else Gr_goes (s\<lparr>gr_dg := dg\<rparr>) pc)"

definition group_retain :: "group_sys \<Rightarrow> group_pc \<Rightarrow> group_act" where
  "group_retain s pc =
     (case u_dispatch_retain (gr_dg s) of Inl e \<Rightarrow> Gr_fails e | Inr dg \<Rightarrow> Gr_goes (s\<lparr>gr_dg := dg\<rparr>) pc)"

text \<open>An access of a node of the list.\<close>

definition with_node :: "group_sys \<Rightarrow> nat \<Rightarrow> (dispatch_sema_notify_s \<Rightarrow> group_act) \<Rightarrow> group_act" where
  "with_node s a f = (case gr_mem s a of None \<Rightarrow> Gr_fails Use_after_free | Some dsn \<Rightarrow> f dsn)"

text \<open>
  \<open>_dispatch_group_wake\<close>: it takes the list and the number of waiters, posts the semaphore for each
  waiter, and submits the notifications; the number of waiters goes through a \<open>uint32_t\<close>.
\<close>

abbreviation wake_return :: "bool \<Rightarrow> group_pc" where
  "wake_return rel \<equiv> if rel then Gr_release else Gr_idle"

definition wake_list :: "bool \<Rightarrow> nat option \<Rightarrow> group_pc" where
  "wake_list rel head = (case head of None \<Rightarrow> wake_return rel | Some a \<Rightarrow> Gw_async rel a)"

fun u_dispatch_group_wake :: "group_sys \<Rightarrow> group_pc \<Rightarrow> group_act" where
  "u_dispatch_group_wake s (Gw_head rel) =
     Gr_goes (upd_dg (\<lambda>dg. dg\<lparr>dg_notify_head := None\<rparr>) s) (Gw_waiters rel (dg_notify_head (gr_dg s)))"
| "u_dispatch_group_wake s (Gw_waiters rel head) =
     (let rval = dg_group_waiters (gr_dg s) mod 2 ^ 32 in
      Gr_goes (upd_dg (\<lambda>dg. dg\<lparr>dg_group_waiters := 0\<rparr>) s)
        (if rval \<noteq> 0 then Gw_post rel head rval else wake_list rel head))"
| "u_dispatch_group_wake s (Gw_post rel head rval) =
     Gr_goes (upd_dg (\<lambda>dg. dg\<lparr>dg_sem := dg_sem dg + 1\<rparr>) s)
       (if rval - 1 \<noteq> 0 then Gw_post rel head (rval - 1) else wake_list rel head)"
| "u_dispatch_group_wake s (Gw_async rel a) =
     with_node s a (\<lambda>dsn. Gr_goes (s\<lparr>gr_async := gr_async s @ [(dsn_queue dsn, dsn_work dsn)]\<rparr>) (Gw_queue_release rel a))"
| "u_dispatch_group_wake s (Gw_queue_release rel a) =
     with_node s a (\<lambda>dsn. Gr_goes
       (s\<lparr>gr_queue_refs := (gr_queue_refs s)(dsn_queue dsn := gr_queue_refs s (dsn_queue dsn) - 1)\<rparr>) (Gw_next rel a))"
| "u_dispatch_group_wake s (Gw_next rel a) =
     with_node s a (\<lambda>dsn. Gr_goes s (case dsn_next dsn of None \<Rightarrow> Gw_cas rel a | Some b \<Rightarrow> Gw_free rel a (Some b)))"
| "u_dispatch_group_wake s (Gw_cas rel a) =
     (if dg_notify_tail (gr_dg s) = Some a
      then Gr_goes (upd_dg (\<lambda>dg. dg\<lparr>dg_notify_tail := None\<rparr>) s) (Gw_free rel a None)
      else Gr_goes s (Gw_next rel a))"
| "u_dispatch_group_wake s (Gw_free rel a tmp) =
     with_node s a (\<lambda>_. Gr_goes (s\<lparr>gr_mem := (gr_mem s)(a := None)\<rparr>)
       (case tmp of None \<Rightarrow> Gw_release rel | Some b \<Rightarrow> Gw_async rel b))"
| "u_dispatch_group_wake s (Gw_release rel) = group_release s (wake_return rel)"
| "u_dispatch_group_wake s _ = Gr_blocked"

text \<open>
  \<open>dispatch_group_wait\<close> and \<open>_dispatch_group_wait_slow\<close>; a return, with 0 or with a timeout, makes
  the thread idle.
\<close>

fun dispatch_group_wait :: "group_sys \<Rightarrow> group_pc \<Rightarrow> group_act" where
  "dispatch_group_wait s (Gt_wait timeout) =
     Gr_goes s (if group_empty (gr_dg s) then Gr_idle else if timeout = 0 then Gr_idle else Gt_again timeout)"
| "dispatch_group_wait s _ = Gr_blocked"

fun u_dispatch_group_wait_slow :: "kernel \<Rightarrow> group_sys \<Rightarrow> group_pc \<Rightarrow> group_act" where
  "u_dispatch_group_wait_slow k s (Gt_again timeout) =
     Gr_goes s (if group_empty (gr_dg s) then Gw_head False else Gt_inc timeout)"
| "u_dispatch_group_wait_slow k s (Gt_inc timeout) =
     Gr_goes (upd_dg (\<lambda>dg. dg\<lparr>dg_group_waiters := dg_group_waiters dg + 1\<rparr>) s) (Gt_recheck timeout)"
| "u_dispatch_group_wait_slow k s (Gt_recheck timeout) =
     Gr_goes s (if group_empty (gr_dg s) then Gw_head False else Gt_switch timeout)"
| "u_dispatch_group_wait_slow k s (Gt_switch timeout) =
     (if timeout = DISPATCH_TIME_NOW then Gr_goes s (Gt_undo timeout)
      else if timeout = DISPATCH_TIME_FOREVER then Gr_goes s (Gt_sem timeout)
      else
        (case k of
           Interrupted \<Rightarrow> Gr_goes s (Gt_switch timeout)
         | Timed_out \<Rightarrow> Gr_goes s (Gt_undo timeout)
         | Proceed \<Rightarrow>
             if dg_sem (gr_dg s) > 0
             then Gr_goes (upd_dg (\<lambda>dg. dg\<lparr>dg_sem := dg_sem dg - 1\<rparr>) s) (Gt_again timeout)
             else Gr_blocked))"
| "u_dispatch_group_wait_slow k s (Gt_undo timeout) =
     (let orig = dg_group_waiters (gr_dg s) in
      Gr_goes s (if orig \<noteq> 0 then Gt_undo_cas timeout orig else Gt_sem timeout))"
| "u_dispatch_group_wait_slow k s (Gt_undo_cas timeout orig) =
     (if dg_group_waiters (gr_dg s) = orig
      then Gr_goes (upd_dg (\<lambda>dg. dg\<lparr>dg_group_waiters := orig - 1\<rparr>) s) Gr_idle
      else Gr_goes s (Gt_undo timeout))"
| "u_dispatch_group_wait_slow k s (Gt_sem timeout) =
     (if k = Proceed then
        (if dg_sem (gr_dg s) > 0
         then Gr_goes (upd_dg (\<lambda>dg. dg\<lparr>dg_sem := dg_sem dg - 1\<rparr>) s) (Gt_again timeout)
         else Gr_blocked)
      else Gr_goes s (Gt_sem timeout))"
| "u_dispatch_group_wait_slow k s _ = Gr_blocked"

text \<open>\<open>dispatch_group_notify_f\<close>, after the node is allocated and filled in.\<close>

fun dispatch_group_notify_f :: "group_sys \<Rightarrow> group_pc \<Rightarrow> group_act" where
  "dispatch_group_notify_f s (Gn_queue_retain dq a) =
     Gr_goes (s\<lparr>gr_queue_refs := (gr_queue_refs s)(dq := gr_queue_refs s dq + 1)\<rparr>) (Gn_xchg dq a)"
| "dispatch_group_notify_f s (Gn_xchg dq a) =
     with_node s a (\<lambda>dsn. Gr_goes
       (s\<lparr>gr_dg := (gr_dg s)\<lparr>dg_notify_tail := Some a\<rparr>, gr_notified := gr_notified s @ [(dsn_queue dsn, dsn_work dsn)]\<rparr>)
       (case dg_notify_tail (gr_dg s) of Some prev \<Rightarrow> Gn_link prev a | None \<Rightarrow> Gn_retain a))"
| "dispatch_group_notify_f s (Gn_link prev a) =
     with_node s prev (\<lambda>dsn. Gr_goes (s\<lparr>gr_mem := (gr_mem s)(prev \<mapsto> dsn\<lparr>dsn_next := Some a\<rparr>)\<rparr>) Gr_idle)"
| "dispatch_group_notify_f s (Gn_retain a) = group_retain s (Gn_head a)"
| "dispatch_group_notify_f s (Gn_head a) =
     Gr_goes (upd_dg (\<lambda>dg. dg\<lparr>dg_notify_head := Some a\<rparr>) s) Gn_check"
| "dispatch_group_notify_f s Gn_check =
     Gr_goes s (if group_empty (gr_dg s) then Gw_head False else Gr_idle)"
| "dispatch_group_notify_f s _ = Gr_blocked"

text \<open>\<open>dispatch_group_async_f\<close>: the continuation it pushes runs the work, leaves and releases the group.\<close>

fun dispatch_group_async_f :: "group_sys \<Rightarrow> group_pc \<Rightarrow> group_act" where
  "dispatch_group_async_f s Ga_retain = group_retain s Ga_enter"
| "dispatch_group_async_f s Ga_enter = dispatch_group_enter s Ga_push"
| "dispatch_group_async_f s Ga_push = Gr_goes (s\<lparr>gr_tasks := gr_tasks s + 1\<rparr>) Gr_idle"
| "dispatch_group_async_f s _ = Gr_blocked"

text \<open>One action of a thread that is inside a call.\<close>

definition group_exec :: "kernel \<Rightarrow> group_sys \<Rightarrow> group_pc \<Rightarrow> group_act" where
  "group_exec k s pc =
     (case pc of
        Gr_idle \<Rightarrow> Gr_blocked
      | Gr_leave _ \<Rightarrow> dispatch_group_leave s pc
      | Gr_leave_check _ \<Rightarrow> dispatch_group_leave s pc
      | Gr_release \<Rightarrow> group_release s Gr_idle
      | Gt_wait _ \<Rightarrow> dispatch_group_wait s pc
      | Gt_again _ \<Rightarrow> u_dispatch_group_wait_slow k s pc
      | Gt_inc _ \<Rightarrow> u_dispatch_group_wait_slow k s pc
      | Gt_recheck _ \<Rightarrow> u_dispatch_group_wait_slow k s pc
      | Gt_switch _ \<Rightarrow> u_dispatch_group_wait_slow k s pc
      | Gt_undo _ \<Rightarrow> u_dispatch_group_wait_slow k s pc
      | Gt_undo_cas _ _ \<Rightarrow> u_dispatch_group_wait_slow k s pc
      | Gt_sem _ \<Rightarrow> u_dispatch_group_wait_slow k s pc
      | Gn_queue_retain _ _ \<Rightarrow> dispatch_group_notify_f s pc
      | Gn_xchg _ _ \<Rightarrow> dispatch_group_notify_f s pc
      | Gn_link _ _ \<Rightarrow> dispatch_group_notify_f s pc
      | Gn_retain _ \<Rightarrow> dispatch_group_notify_f s pc
      | Gn_head _ \<Rightarrow> dispatch_group_notify_f s pc
      | Gn_check \<Rightarrow> dispatch_group_notify_f s pc
      | Ga_retain \<Rightarrow> dispatch_group_async_f s pc
      | Ga_enter \<Rightarrow> dispatch_group_async_f s pc
      | Ga_push \<Rightarrow> dispatch_group_async_f s pc
      | _ \<Rightarrow> u_dispatch_group_wake s pc)"

section \<open>Threads on one group\<close>

text \<open>
  What a thread that is in no call may do: a client enters, leaves what was entered, waits, asks for
  a notification or submits work; a queue runs a continuation that was submitted.  A client keeps
  its own reference of the group.  Clients stay within the widths of the counters: fewer than
  \<open>LONG_MAX\<close> units of work, fewer than \<open>2 ^ 32\<close> counted waiters, and no reference count that reaches
  the value of a global object.
\<close>

datatype group_client =
    Do_enter
  | Do_leave
  | Do_wait u64
  | Do_notify nat nat nat
  | Do_async
  | Do_pop

fun submits :: "group_pc \<Rightarrow> int" where
  "submits Ga_retain = 1"
| "submits Ga_enter = 1"
| "submits Ga_push = 1"
| "submits _ = 0"

definition group_room :: "group_sys \<Rightarrow> bool" where
  "group_room s =
     (let n = int (length (gr_threads s)); m = gr_tasks s + tsum submits (gr_threads s) in
      m + 2 * n + 4 < DISPATCH_OBJECT_GLOBAL_REFCNT \<and> gr_entered s + m + n < LONG_MAX)"

fun group_call :: "group_client \<Rightarrow> group_sys \<Rightarrow> group_act" where
  "group_call Do_enter s =
     (if group_room s then dispatch_group_enter (s\<lparr>gr_entered := gr_entered s + 1\<rparr>) Gr_idle else Gr_blocked)"
| "group_call Do_leave s =
     (if gr_entered s \<ge> 1 then Gr_goes (s\<lparr>gr_entered := gr_entered s - 1\<rparr>) (Gr_leave False) else Gr_blocked)"
| "group_call (Do_wait timeout) s = Gr_goes s (Gt_wait timeout)"
| "group_call (Do_notify dq w a) s =
     (if gr_mem s a = None
      then Gr_goes (s\<lparr>gr_mem := (gr_mem s)(a \<mapsto> \<lparr>dsn_next = None, dsn_queue = dq, dsn_work = w\<rparr>)\<rparr>) (Gn_queue_retain dq a)
      else Gr_blocked)"
| "group_call Do_async s = (if group_room s then Gr_goes s Ga_retain else Gr_blocked)"
| "group_call Do_pop s =
     (if gr_tasks s \<ge> 1 then Gr_goes (s\<lparr>gr_tasks := gr_tasks s - 1\<rparr>) (Gr_leave True) else Gr_blocked)"

text \<open>What an action of thread \<open>i\<close> makes of the process.\<close>

fun group_effect :: "nat \<Rightarrow> group_sys \<Rightarrow> group_act \<Rightarrow> group_sys option" where
  "group_effect i s Gr_blocked = None"
| "group_effect i s (Gr_fails e) = Some (s\<lparr>gr_crashed := Some e\<rparr>)"
| "group_effect i s (Gr_goes t pc) = Some (t\<lparr>gr_threads := (gr_threads s)[i := pc]\<rparr>)"

definition group_run :: "kernel \<Rightarrow> nat \<Rightarrow> group_sys \<Rightarrow> group_sys option" where
  "group_run k i s =
     (if gr_crashed s = None \<and> i < length (gr_threads s) then group_effect i s (group_exec k s (gr_threads s ! i)) else None)"

definition group_begin :: "group_client \<Rightarrow> nat \<Rightarrow> group_sys \<Rightarrow> group_sys option" where
  "group_begin c i s =
     (if gr_crashed s = None \<and> i < length (gr_threads s) \<and> gr_threads s ! i = Gr_idle
      then group_effect i s (group_call c s) else None)"

inductive group_step :: "group_sys \<Rightarrow> group_sys \<Rightarrow> bool" where
  group_step_run: "group_run k i s = Some t \<Longrightarrow> dg_group_waiters (gr_dg t) < 2 ^ 32 \<Longrightarrow> group_step s t"
| group_step_begin: "group_begin c i s = Some t \<Longrightarrow> group_step s t"

definition group_init :: "group_sys \<Rightarrow> bool" where
  "group_init s =
     (gr_dg s = dispatch_group_create 0 \<and> gr_mem s = Map.empty \<and> gr_queue_refs s = (\<lambda>_. 0) \<and> gr_async s = [] \<and>
      gr_tasks s = 0 \<and> gr_entered s = 0 \<and> gr_notified s = [] \<and> set (gr_threads s) \<subseteq> {Gr_idle} \<and>
      2 * int (length (gr_threads s)) + 4 < DISPATCH_OBJECT_GLOBAL_REFCNT \<and> gr_crashed s = None)"

end
