(* ===== verification/Dispatch_Group_Proofs.thy ===== *)
theory Dispatch_Group_Proofs
  imports Dispatch_Group
begin

text \<open>
  What holds of a group in every interleaving: the counts of work, waiters and references, the shape
  of the list of notifications with its owner, and the logs; from these, that a group that runs
  empty leaves nobody behind and that its list is memory safe.  Two concrete runs show behaviour
  that the interface does not promise.
\<close>

section \<open>The counts\<close>

text \<open>What the invariants count of a thread.\<close>

fun inside :: "group_pc \<Rightarrow> int" where  \<comment> \<open>its unit of work is entered and neither pushed nor left\<close>
  "inside Ga_push = 1"
| "inside (Gr_leave _) = 1"
| "inside _ = 0"

fun leaving :: "group_pc \<Rightarrow> int" where
  "leaving (Gr_leave _) = 1"
| "leaving _ = 0"

fun sleeps :: "group_pc \<Rightarrow> int" where  \<comment> \<open>has counted itself as a waiter\<close>
  "sleeps (Gt_recheck _) = 1"
| "sleeps (Gt_switch _) = 1"
| "sleeps (Gt_undo _) = 1"
| "sleeps (Gt_undo_cas _ _) = 1"
| "sleeps (Gt_sem _) = 1"
| "sleeps _ = 0"

fun unposted :: "group_pc \<Rightarrow> int" where  \<comment> \<open>the posts that it still has to make\<close>
  "unposted (Gw_post _ _ rval) = rval"
| "unposted _ = 0"

fun sees_waiters :: "group_pc \<Rightarrow> int" where  \<comment> \<open>is going to look at the waiters if the group is empty\<close>
  "sees_waiters (Gr_leave_check _) = 1"
| "sees_waiters (Gt_recheck _) = 1"
| "sees_waiters (Gw_head _) = 1"
| "sees_waiters (Gw_waiters _ _) = 1"
| "sees_waiters _ = 0"

fun sees_head :: "group_pc \<Rightarrow> int" where  \<comment> \<open>is going to look at the list if the group is empty\<close>
  "sees_head (Gr_leave_check _) = 1"
| "sees_head (Gw_head _) = 1"
| "sees_head Gn_check = 1"
| "sees_head _ = 0"

fun rel_flag :: "group_pc \<Rightarrow> int" where  \<comment> \<open>the reference of a continuation\<close>
  "rel_flag (Gr_leave rel) = of_bool rel"
| "rel_flag (Gr_leave_check rel) = of_bool rel"
| "rel_flag Gr_release = 1"
| "rel_flag (Gw_head rel) = of_bool rel"
| "rel_flag (Gw_waiters rel _) = of_bool rel"
| "rel_flag (Gw_post rel _ _) = of_bool rel"
| "rel_flag (Gw_async rel _) = of_bool rel"
| "rel_flag (Gw_queue_release rel _) = of_bool rel"
| "rel_flag (Gw_next rel _) = of_bool rel"
| "rel_flag (Gw_cas rel _) = of_bool rel"
| "rel_flag (Gw_free rel _ _) = of_bool rel"
| "rel_flag (Gw_release rel) = of_bool rel"
| "rel_flag Ga_enter = 1"
| "rel_flag Ga_push = 1"
| "rel_flag _ = 0"

fun list_ref :: "group_pc \<Rightarrow> int" where  \<comment> \<open>the reference of the list of notifications\<close>
  "list_ref (Gn_head _) = 1"
| "list_ref (Gw_waiters _ head) = of_bool (head \<noteq> None)"
| "list_ref (Gw_post _ head _) = of_bool (head \<noteq> None)"
| "list_ref (Gw_async _ _) = 1"
| "list_ref (Gw_queue_release _ _) = 1"
| "list_ref (Gw_next _ _) = 1"
| "list_ref (Gw_cas _ _) = 1"
| "list_ref (Gw_free _ _ _) = 1"
| "list_ref (Gw_release _) = 1"
| "list_ref _ = 0"

fun group_pc_ok :: "group_pc \<Rightarrow> bool" where
  "group_pc_ok (Gw_post _ _ rval) = (0 < rval)"
| "group_pc_ok (Gt_undo_cas _ orig) = (orig \<noteq> 0)"
| "group_pc_ok _ = True"

lemma group_counts [simp]:
  "0 \<le> inside p" "0 \<le> leaving p" "leaving p \<le> 1" "0 \<le> sleeps p" "0 \<le> sees_waiters p" "0 \<le> sees_head p" "0 \<le> rel_flag p"
  "0 \<le> list_ref p" "0 \<le> submits p" "rel_flag p + list_ref p \<le> submits p + 2" "inside p \<le> submits p + leaving p"
  by (cases p; simp)+

text \<open>The value counts the outstanding work.\<close>

definition work_inv :: "group_sys \<Rightarrow> bool" where
  "work_inv s =
     (let dg = gr_dg s; ts = gr_threads s in
      dg_orig dg = LONG_MAX \<and> 0 \<le> gr_entered s \<and> 0 \<le> gr_tasks s \<and>
      dg_value dg = LONG_MAX - gr_entered s - gr_tasks s - tsum inside ts \<and>
      gr_entered s + gr_tasks s + tsum submits ts + tsum leaving ts \<le> LONG_MAX)"

text \<open>
  Every thread that counted itself as a waiter is matched by the counter, by a post that is still
  to come or by a post that can be taken; and while the group is empty and waiters are counted,
  some thread is on its way to wake them.
\<close>

definition wait_inv :: "group_sys \<Rightarrow> bool" where
  "wait_inv s =
     (let dg = gr_dg s; ts = gr_threads s in
      list_all group_pc_ok ts \<and> 0 \<le> dg_group_waiters dg \<and> dg_group_waiters dg < 2 ^ 32 \<and> 0 \<le> dg_sem dg \<and>
      tsum sleeps ts \<le> dg_group_waiters dg + tsum unposted ts + dg_sem dg \<and>
      (group_empty dg \<longrightarrow> 0 < dg_group_waiters dg \<longrightarrow> 0 < tsum sees_waiters ts))"

definition head_inv :: "group_sys \<Rightarrow> bool" where
  "head_inv s = (group_empty (gr_dg s) \<longrightarrow> dg_notify_head (gr_dg s) \<noteq> None \<longrightarrow> 0 < tsum sees_head (gr_threads s))"

text \<open>The references: the clients' one, one for each continuation, one for a list that is not done with.\<close>

definition ref_inv :: "group_sys \<Rightarrow> bool" where
  "ref_inv s =
     (let dg = gr_dg s; ts = gr_threads s in
      do_ref_cnt dg = 1 + gr_tasks s + tsum rel_flag ts + tsum list_ref ts + of_bool (dg_notify_head dg \<noteq> None) \<and>
      0 \<le> gr_tasks s \<and> gr_tasks s + tsum submits ts + 2 * int (length ts) + 3 < DISPATCH_OBJECT_GLOBAL_REFCNT)"

text \<open>
  A property of what an action leads to: of the new state and of the thread's new place.
\<close>

fun goes :: "(group_sys \<Rightarrow> group_pc \<Rightarrow> bool) \<Rightarrow> group_act \<Rightarrow> bool" where
  "goes P (Gr_goes t q) = P t q"
| "goes P _ = True"

lemma goes_if [simp]: "goes P (if b then x else y) = (if b then goes P x else goes P y)"
  by simp

lemma goes_with_node [simp]:
  "goes P (with_node s a f) = (\<forall>dsn. gr_mem s a = Some dsn \<longrightarrow> goes P (f dsn))"
  by (auto simp: with_node_def split: option.splits)

lemma goesD: "goes P act \<Longrightarrow> act = Gr_goes t q \<Longrightarrow> P t q"
  by simp

abbreviation stepped :: "(group_sys \<Rightarrow> bool) \<Rightarrow> nat \<Rightarrow> group_sys \<Rightarrow> group_act \<Rightarrow> bool" where
  "stepped P i s \<equiv> goes (\<lambda>t q. P (t\<lparr>gr_threads := (gr_threads s)[i := q]\<rparr>))"

lemma ref_below:
  assumes "ref_inv s"
  shows "do_ref_cnt (gr_dg s) + 1 < DISPATCH_OBJECT_GLOBAL_REFCNT"
proof -
  let ?ts = "gr_threads s"
  have "tsum rel_flag ?ts + tsum list_ref ?ts \<le> tsum (\<lambda>p. submits p + 2) ?ts"
    unfolding tsum_add [symmetric] by (rule tsum_mono) simp
  moreover have "tsum (\<lambda>_. 2) ts = 2 * int (length ts)" for ts :: "group_pc list"
    by (induction ts) auto
  ultimately show ?thesis
    using assms by (auto simp: ref_inv_def Let_def tsum_add)
qed

text \<open>Retaining never fails, nor does releasing a reference that the thread holds.\<close>

lemma group_retain_goes:
  assumes "ref_inv s"
  shows "group_retain s q = Gr_goes (upd_dg (\<lambda>dg. dg\<lparr>do_ref_cnt := do_ref_cnt dg + 1\<rparr>) s) q"
proof -
  have "0 < do_ref_cnt (gr_dg s)"
    using assms tsum_nonneg [of "gr_threads s" rel_flag] tsum_nonneg [of "gr_threads s" list_ref]
    by (simp add: ref_inv_def Let_def)
  then show ?thesis
    using ref_below [OF assms] by (simp add: group_retain_def u_dispatch_retain_def)
qed

lemma group_release_goes:
  assumes "ref_inv s" "i < length (gr_threads s)" "0 < rel_flag (gr_threads s ! i) + list_ref (gr_threads s ! i)"
  shows "group_release s q = Gr_goes (upd_dg (\<lambda>dg. dg\<lparr>do_ref_cnt := do_ref_cnt dg - 1\<rparr>) s) q"
proof -
  have "1 < do_ref_cnt (gr_dg s)"
    using assms(1,3) tsum_ge [OF assms(2), of rel_flag] tsum_ge [OF assms(2), of list_ref]
    by (simp add: ref_inv_def Let_def)
  then show ?thesis
    using ref_below [OF assms(1)] by (simp add: group_release_def release_count_def)
qed

text \<open>The counts after an action of a thread.\<close>

lemma work_inv_run:
  assumes inv: "work_inv s" "ref_inv s" and i: "i < length (gr_threads s)"
  shows "stepped work_inv i s (group_exec k s (gr_threads s ! i))"
  using inv(1)
  by (cases "gr_threads s ! i"; cases k)
    (simp_all add: work_inv_def group_exec_def dispatch_group_enter_def wake_list_def Let_def tsum_update [OF i]
        group_retain_goes [OF inv(2)] group_release_goes [OF inv(2) i] split: option.splits)

lemma ref_inv_run:
  assumes inv: "ref_inv s" and i: "i < length (gr_threads s)"
    and "\<And>a. gr_threads s ! i = Gn_head a \<Longrightarrow> dg_notify_head (gr_dg s) = None"
  shows "stepped ref_inv i s (group_exec k s (gr_threads s ! i))"
  using inv assms(3)
  by (cases "gr_threads s ! i"; cases k)
    (simp_all add: ref_inv_def group_exec_def dispatch_group_enter_def wake_list_def Let_def tsum_update [OF i]
        group_retain_goes [OF inv] group_release_goes [OF inv i] split: option.splits)

lemma group_empty_simps [simp]:
  "group_empty (dg\<lparr>dg_group_waiters := w\<rparr>) = group_empty dg" "group_empty (dg\<lparr>dg_sem := n\<rparr>) = group_empty dg"
  "group_empty (dg\<lparr>dg_notify_head := h\<rparr>) = group_empty dg" "group_empty (dg\<lparr>dg_notify_tail := h\<rparr>) = group_empty dg"
  "group_empty (dg\<lparr>do_ref_cnt := r\<rparr>) = group_empty dg"
  by (simp_all add: group_empty_def)

lemma group_enter_not_empty:
  assumes "work_inv s" "dg_value dg = dg_value (gr_dg s) - 1" "dg_orig dg = dg_orig (gr_dg s)"
  shows "\<not> group_empty dg"
  using assms tsum_nonneg [of "gr_threads s" inside] by (simp add: work_inv_def group_empty_def Let_def)

lemma head_inv_run:
  assumes inv: "head_inv s" "work_inv s" "ref_inv s" and i: "i < length (gr_threads s)"
  shows "stepped head_inv i s (group_exec k s (gr_threads s ! i))"
  using inv(1) tsum_nonneg [of "gr_threads s" sees_head] tsum_ge [OF i, of sees_head]
  by (cases "gr_threads s ! i"; cases k)
    (simp_all add: head_inv_def group_exec_def dispatch_group_enter_def wake_list_def Let_def tsum_update [OF i]
        group_retain_goes [OF inv(3)] group_release_goes [OF inv(3) i] group_enter_not_empty [OF inv(2)]
      split: option.splits)

lemma wait_inv_run:
  assumes inv: "wait_inv s" "work_inv s" "ref_inv s" and i: "i < length (gr_threads s)"
  shows "stepped (\<lambda>t. dg_group_waiters (gr_dg t) < 2 ^ 32 \<longrightarrow> wait_inv t) i s (group_exec k s (gr_threads s ! i))"
proof -
  let ?ts = "gr_threads s"
  have "0 \<le> unposted p" if "p \<in> set ?ts" for p
    using inv(1) that by (cases p) (auto simp: wait_inv_def Let_def list_all_iff)
  then have nn: "0 \<le> tsum unposted ?ts"
    by (rule tsum_nonneg)
  have ok: "group_pc_ok (?ts ! i)"
    using inv(1) i by (simp add: wait_inv_def Let_def list_all_length)
  show ?thesis
    using inv(1) nn ok tsum_nonneg [of ?ts sees_waiters] tsum_ge [OF i, of sees_waiters] tsum_ge [OF i, of sleeps]
    by (cases "?ts ! i"; cases k)
      (simp_all add: wait_inv_def group_exec_def dispatch_group_enter_def wake_list_def Let_def tsum_update [OF i]
          group_retain_goes [OF inv(3)] group_release_goes [OF inv(3) i] group_enter_not_empty [OF inv(2)]
          list_all_update split: option.splits)
qed

section \<open>The list of notifications\<close>

text \<open>
  \<open>chain\<close> are the nodes from the first one that is not done with to the tail, in the order of their
  exchanges of the tail.  Its first node has one owner: the notifier that found the list empty, the
  head pointer, or the waker that took it.  A node outside the chain is private: its notifier has
  not published it yet, or a waker is about to free it.
\<close>

fun owns :: "nat \<Rightarrow> group_pc \<Rightarrow> int" where
  "owns a (Gn_retain b) = of_bool (b = a)"
| "owns a (Gn_head b) = of_bool (b = a)"
| "owns a (Gw_waiters _ head) = of_bool (head = Some a)"
| "owns a (Gw_post _ head _) = of_bool (head = Some a)"
| "owns a (Gw_async _ b) = of_bool (b = a)"
| "owns a (Gw_queue_release _ b) = of_bool (b = a)"
| "owns a (Gw_next _ b) = of_bool (b = a)"
| "owns a (Gw_cas _ b) = of_bool (b = a)"
| "owns a (Gw_free _ _ tmp) = of_bool (tmp = Some a)"
| "owns a _ = 0"

fun keeps :: "nat \<Rightarrow> group_pc \<Rightarrow> int" where  \<comment> \<open>has the node to itself\<close>
  "keeps a (Gn_queue_retain _ b) = of_bool (b = a)"
| "keeps a (Gn_xchg _ b) = of_bool (b = a)"
| "keeps a (Gw_free _ b _) = of_bool (b = a)"
| "keeps a _ = 0"

fun links :: "nat \<Rightarrow> nat \<Rightarrow> group_pc \<Rightarrow> int" where  \<comment> \<open>is about to link the second node to the first\<close>
  "links p a (Gn_link prev b) = of_bool (prev = p \<and> b = a)"
| "links p a _ = 0"

fun submitted :: "group_pc \<Rightarrow> int" where  \<comment> \<open>has submitted the first node\<close>
  "submitted (Gw_queue_release _ _) = 1"
| "submitted (Gw_next _ _) = 1"
| "submitted (Gw_cas _ _) = 1"
| "submitted _ = 0"

fun unreferenced :: "group_pc \<Rightarrow> int" where  \<comment> \<open>has released the queue of the first node\<close>
  "unreferenced (Gw_next _ _) = 1"
| "unreferenced (Gw_cas _ _) = 1"
| "unreferenced _ = 0"

fun queue_ref :: "nat \<Rightarrow> group_pc \<Rightarrow> int" where  \<comment> \<open>holds a reference of the queue for its private node\<close>
  "queue_ref q (Gn_xchg dq _) = of_bool (dq = q)"
| "queue_ref q _ = 0"

type_synonym node_mem = "nat \<Rightarrow> dispatch_sema_notify_s option"

definition next_of :: "node_mem \<Rightarrow> nat \<Rightarrow> nat option" where
  "next_of mem a = (case mem a of None \<Rightarrow> None | Some dsn \<Rightarrow> dsn_next dsn)"

definition node_label :: "node_mem \<Rightarrow> nat \<Rightarrow> nat \<times> nat" where
  "node_label mem a = (case mem a of None \<Rightarrow> (0, 0) | Some dsn \<Rightarrow> (dsn_queue dsn, dsn_work dsn))"

fun private_ok :: "node_mem \<Rightarrow> group_pc \<Rightarrow> bool" where
  "private_ok mem (Gn_queue_retain dq a) = (fst (node_label mem a) = dq \<and> next_of mem a = None)"
| "private_ok mem (Gn_xchg dq a) = (fst (node_label mem a) = dq \<and> next_of mem a = None)"
| "private_ok mem _ = True"

definition adjacent :: "nat list \<Rightarrow> (nat \<times> nat) set" where
  "adjacent c = set (zip c (tl c))"

definition chain_inv :: "nat list \<Rightarrow> group_sys \<Rightarrow> bool" where
  "chain_inv c s =
     (let dg = gr_dg s; mem = gr_mem s; ts = gr_threads s in
      distinct c \<and> dg_notify_tail dg = (if c = [] then None else Some (last c)) \<and>
      (\<forall>a. tsum (owns a) ts + of_bool (dg_notify_head dg = Some a) = of_bool (c \<noteq> [] \<and> hd c = a)) \<and>
      (\<forall>a. tsum (keeps a) ts + of_bool (a \<in> set c) = of_bool (mem a \<noteq> None)) \<and>
      (\<forall>p a. tsum (links p a) ts = of_bool ((p, a) \<in> adjacent c \<and> next_of mem p = None)) \<and>
      (\<forall>p a. p \<in> set c \<longrightarrow> next_of mem p = Some a \<longrightarrow> (p, a) \<in> adjacent c) \<and>
      list_all (private_ok mem) ts)"

text \<open>The logs: what is submitted and what still stands in the chain is what was asked for, in order.\<close>

definition log_inv :: "nat list \<Rightarrow> group_sys \<Rightarrow> bool" where
  "log_inv c s =
     (let mem = gr_mem s; ts = gr_threads s in
      gr_async s @ map (node_label mem) (drop (nat (tsum submitted ts)) c) = gr_notified s \<and>
      (\<forall>q. gr_queue_refs s q =
         tsum (queue_ref q) ts + tsum (\<lambda>a. of_bool (fst (node_label mem a) = q)) (drop (nat (tsum unreferenced ts)) c)))"

lemma chain_counts [simp]: "0 \<le> owns a p" "0 \<le> keeps a p" "0 \<le> links a b p" "0 \<le> submitted p" "0 \<le> unreferenced p"
  "unreferenced p \<le> submitted p"
  by (cases p; simp)+

lemma adjacent_simps:
  "adjacent [] = {}" "adjacent [x] = {}" "c \<noteq> [] \<Longrightarrow> adjacent (x # c) = insert (x, hd c) (adjacent c)"
  by (auto simp: adjacent_def neq_Nil_conv)

lemma adjacent_snoc: "c \<noteq> [] \<Longrightarrow> adjacent (c @ [x]) = insert (last c, x) (adjacent c)"
  by (induction c rule: induct_list012) (auto simp: adjacent_simps)

lemma adjacent_in: "(p, a) \<in> adjacent c \<Longrightarrow> p \<in> set c \<and> a \<in> set c"
  by (cases c) (auto simp: adjacent_def dest: set_zip_leftD set_zip_rightD)

lemma adjacent_unique: "distinct c \<Longrightarrow> (p, a) \<in> adjacent c \<Longrightarrow> (p, b) \<in> adjacent c \<Longrightarrow> a = b"
proof (induction c)
  case (Cons x c)
  then show ?case
    by (cases "c = []") (auto simp: adjacent_simps dest: adjacent_in)
qed (simp add: adjacent_simps)

lemma adjacent_last: "distinct c \<Longrightarrow> c \<noteq> [] \<Longrightarrow> (last c, a) \<notin> adjacent c"
proof (induction c)
  case (Cons x c)
  then show ?case
    by (cases "c = []") (auto simp: adjacent_simps)
qed simp

lemma chain_invD:
  assumes "chain_inv c s"
  shows "distinct c" "dg_notify_tail (gr_dg s) = (if c = [] then None else Some (last c))"
    "tsum (owns a) (gr_threads s) + of_bool (dg_notify_head (gr_dg s) = Some a) = of_bool (c \<noteq> [] \<and> hd c = a)"
    "tsum (keeps a) (gr_threads s) + of_bool (a \<in> set c) = of_bool (gr_mem s a \<noteq> None)"
    "tsum (links p a) (gr_threads s) = of_bool ((p, a) \<in> adjacent c \<and> next_of (gr_mem s) p = None)"
    "p \<in> set c \<Longrightarrow> next_of (gr_mem s) p = Some a \<Longrightarrow> (p, a) \<in> adjacent c"
    "list_all (private_ok (gr_mem s)) (gr_threads s)"
  using assms by (simp_all add: chain_inv_def Let_def)

lemma chain_invI:
  assumes "distinct c" "dg_notify_tail (gr_dg s) = (if c = [] then None else Some (last c))"
    "\<And>a. tsum (owns a) (gr_threads s) + of_bool (dg_notify_head (gr_dg s) = Some a) = of_bool (c \<noteq> [] \<and> hd c = a)"
    "\<And>a. tsum (keeps a) (gr_threads s) + of_bool (a \<in> set c) = of_bool (gr_mem s a \<noteq> None)"
    "\<And>p a. tsum (links p a) (gr_threads s) = of_bool ((p, a) \<in> adjacent c \<and> next_of (gr_mem s) p = None)"
    "\<And>p a. p \<in> set c \<Longrightarrow> next_of (gr_mem s) p = Some a \<Longrightarrow> (p, a) \<in> adjacent c"
    "list_all (private_ok (gr_mem s)) (gr_threads s)"
  shows "chain_inv c s"
  using assms by (simp add: chain_inv_def Let_def)

text \<open>Who may touch a node: the owner of the first node, and a notifier that links, find it alive.\<close>

lemma chain_owner:
  assumes "chain_inv c s" "i < length (gr_threads s)" "0 < owns a (gr_threads s ! i)"
  shows "c \<noteq> [] \<and> hd c = a \<and> dg_notify_head (gr_dg s) \<noteq> Some b \<and> gr_mem s a \<noteq> None"
proof -
  have own: "tsum (owns a) (gr_threads s) + of_bool (dg_notify_head (gr_dg s) = Some a) = of_bool (c \<noteq> [] \<and> hd c = a)"
    and own': "tsum (owns b) (gr_threads s) + of_bool (dg_notify_head (gr_dg s) = Some b) = of_bool (c \<noteq> [] \<and> hd c = b)"
    and node: "tsum (keeps a) (gr_threads s) + of_bool (a \<in> set c) = of_bool (gr_mem s a \<noteq> None)"
    using assms(1) by (simp_all add: chain_inv_def Let_def)
  have a: "c \<noteq> []" "hd c = a" "dg_notify_head (gr_dg s) \<noteq> Some a"
    using own tsum_ge [OF assms(2), of "owns a"] assms(3) by (auto simp: of_bool_def split: if_splits)
  then show ?thesis
    using own' node tsum_nonneg [of "gr_threads s" "owns b"] tsum_nonneg [of "gr_threads s" "keeps a"]
    by (cases "a = b") (auto simp: of_bool_def split: if_splits)
qed

lemma chain_linker:
  assumes "chain_inv c s" "i < length (gr_threads s)" "gr_threads s ! i = Gn_link p a"
  shows "(p, a) \<in> adjacent c \<and> next_of (gr_mem s) p = None \<and> gr_mem s p \<noteq> None"
proof -
  have link: "tsum (links p a) (gr_threads s) = of_bool ((p, a) \<in> adjacent c \<and> next_of (gr_mem s) p = None)"
    and node: "tsum (keeps p) (gr_threads s) + of_bool (p \<in> set c) = of_bool (gr_mem s p \<noteq> None)"
    using assms(1) by (simp_all add: chain_inv_def Let_def)
  have "(p, a) \<in> adjacent c" "next_of (gr_mem s) p = None"
    using link tsum_ge [OF assms(2), of "links p a"] assms(3) by (auto simp: of_bool_def split: if_splits)
  then show ?thesis
    using node adjacent_in [of p a c] tsum_nonneg [of "gr_threads s" "keeps p"] by (auto simp: of_bool_def split: if_splits)
qed

lemma chain_keeper:
  assumes "chain_inv c s" "i < length (gr_threads s)" "0 < keeps a (gr_threads s ! i)"
  shows "gr_mem s a \<noteq> None \<and> a \<notin> set c"
proof -
  have "tsum (keeps a) (gr_threads s) + of_bool (a \<in> set c) = of_bool (gr_mem s a \<noteq> None)"
    using assms(1) by (simp add: chain_inv_def Let_def)
  then show ?thesis
    using tsum_ge [OF assms(2), of "keeps a"] assms(3) by (auto simp: of_bool_def split: if_splits)
qed

text \<open>Actions that touch neither the list nor the memory.\<close>

lemma chain_inv_same:
  assumes inv: "chain_inv c s" and i: "i < length (gr_threads s)"
    and "\<And>a. owns a q = owns a (gr_threads s ! i)" "\<And>a. keeps a q = keeps a (gr_threads s ! i)"
    and "\<And>p a. links p a q = links p a (gr_threads s ! i)" "private_ok (gr_mem s) q"
    and "gr_mem t = gr_mem s" "dg_notify_head (gr_dg t) = dg_notify_head (gr_dg s)"
    and "dg_notify_tail (gr_dg t) = dg_notify_tail (gr_dg s)"
  shows "chain_inv c (t\<lparr>gr_threads := (gr_threads s)[i := q]\<rparr>)"
  using inv assms(3-) by (simp add: chain_inv_def Let_def tsum_update [OF i] list_all_update)

lemma log_inv_same:
  assumes inv: "log_inv c s" and i: "i < length (gr_threads s)"
    and "submitted q = submitted (gr_threads s ! i)" "unreferenced q = unreferenced (gr_threads s ! i)"
    and "\<And>x. queue_ref x q = queue_ref x (gr_threads s ! i)"
    and "gr_mem t = gr_mem s" "gr_async t = gr_async s" "gr_notified t = gr_notified s"
    and "gr_queue_refs t = gr_queue_refs s"
  shows "log_inv c (t\<lparr>gr_threads := (gr_threads s)[i := q]\<rparr>)"
  using inv assms(3-) by (simp add: log_inv_def Let_def tsum_update [OF i])

text \<open>The owner of the first node is the only thread that has submitted it.\<close>

lemma submitted_owns:
  assumes "chain_inv c s" "p \<in> set (gr_threads s)"
  shows "submitted p \<le> owns (hd c) p" "unreferenced p \<le> owns (hd c) p"
proof -
  obtain i where "i < length (gr_threads s)" "gr_threads s ! i = p"
    using assms(2) by (auto simp: in_set_conv_nth)
  then have hd: "hd c = a" if "owns a p = 1" for a
    using chain_owner [OF assms(1), of i a] that by simp
  show "submitted p \<le> owns (hd c) p" "unreferenced p \<le> owns (hd c) p"
    by (cases p; simp; simp add: hd [symmetric])+
qed

lemma submitted_count:
  assumes inv: "chain_inv c s" and i: "i < length (gr_threads s)" "owns a (gr_threads s ! i) = 1"
  shows "tsum submitted (gr_threads s) = submitted (gr_threads s ! i)"
    "tsum unreferenced (gr_threads s) = unreferenced (gr_threads s ! i)"
proof -
  let ?ts = "gr_threads s"
  have hd: "c \<noteq> []" "hd c = a"
    using chain_owner [OF inv i(1), of a] i(2) by auto
  then have own: "tsum (owns a) ?ts \<le> 1"
    using chain_invD(3) [OF inv, of a] by (auto simp: of_bool_def split: if_splits)
  have alone: "tsum f ?ts = f (?ts ! i)"
    if le: "\<And>p. p \<in> set ?ts \<Longrightarrow> f p \<le> owns a p" and nn: "\<And>p. 0 \<le> f p" for f
  proof -
    let ?g = "\<lambda>p. if p \<in> set ?ts then f p else 0"
    have "tsum ?g ?ts = tsum f ?ts"
      unfolding tsum_def by (rule arg_cong [of _ _ sum_list], rule map_cong) simp_all
    moreover have "?g (?ts ! i) = f (?ts ! i)"
      using i(1) by simp
    ultimately have "tsum f ?ts - f (?ts ! i) \<le> tsum (owns a) ?ts - owns a (?ts ! i)"
      using tsum_mono_but [OF i(1), of ?g "owns a"] le by simp
    then show ?thesis
      using own i tsum_ge [OF i(1), of f] nn by simp
  qed
  show "tsum submitted ?ts = submitted (?ts ! i)" "tsum unreferenced ?ts = unreferenced (?ts ! i)"
    using alone submitted_owns [OF inv] hd(2) by auto
qed

lemma submitted_none:
  assumes inv: "chain_inv c s" and "c = [] \<or> dg_notify_head (gr_dg s) \<noteq> None"
  shows "tsum submitted (gr_threads s) = 0" "tsum unreferenced (gr_threads s) = 0"
proof -
  let ?ts = "gr_threads s"
  have own: "tsum (owns a) ?ts + of_bool (dg_notify_head (gr_dg s) = Some a) = of_bool (c \<noteq> [] \<and> hd c = a)" for a
    using inv by (simp add: chain_inv_def Let_def)
  have "tsum (owns (hd c)) ?ts \<le> 0"
    using assms(2)
  proof
    assume "dg_notify_head (gr_dg s) \<noteq> None"
    then obtain a where a: "dg_notify_head (gr_dg s) = Some a"
      by auto
    then have "hd c = a" "c \<noteq> []"
      using own [of a] tsum_nonneg [of ?ts "owns a"] by (auto simp: of_bool_def split: if_splits)
    then show ?thesis
      using own [of a] a by simp
  qed (use own [of "hd c"] in \<open>auto simp: of_bool_def split: if_splits\<close>)
  moreover have "tsum submitted ?ts \<le> tsum (owns (hd c)) ?ts" "tsum unreferenced ?ts \<le> tsum (owns (hd c)) ?ts"
    using submitted_owns [OF inv] by (auto intro: tsum_mono)
  ultimately show "tsum submitted ?ts = 0" "tsum unreferenced ?ts = 0"
    using tsum_nonneg [of ?ts submitted] tsum_nonneg [of ?ts unreferenced] by simp_all
qed

lemma submitted_bound:
  assumes inv: "chain_inv c s"
  shows "tsum unreferenced (gr_threads s) \<le> tsum submitted (gr_threads s)" "tsum submitted (gr_threads s) \<le> of_bool (c \<noteq> [])"
    "0 \<le> tsum unreferenced (gr_threads s)"
proof -
  let ?ts = "gr_threads s"
  have "tsum (owns (hd c)) ?ts + of_bool (dg_notify_head (gr_dg s) = Some (hd c)) = of_bool (c \<noteq> [])"
    using inv by (simp add: chain_inv_def Let_def)
  moreover have "tsum submitted ?ts \<le> tsum (owns (hd c)) ?ts"
    using submitted_owns [OF inv] by (auto intro: tsum_mono)
  ultimately show "tsum submitted ?ts \<le> of_bool (c \<noteq> [])"
    by (auto simp: of_bool_def split: if_splits)
qed (auto intro: tsum_mono tsum_nonneg)

text \<open>What a change of a node's link or of a private node means for the labels.\<close>

lemma node_simps [simp]:
  "node_label (mem(p \<mapsto> dsn\<lparr>dsn_next := n\<rparr>)) a = (if a = p then (dsn_queue dsn, dsn_work dsn) else node_label mem a)"
  "node_label (mem(p := None)) a = (if a = p then (0, 0) else node_label mem a)"
  "next_of (mem(p \<mapsto> dsn)) a = (if a = p then dsn_next dsn else next_of mem a)"
  "next_of (mem(p := None)) a = (if a = p then None else next_of mem a)"
  by (auto simp: node_label_def next_of_def)

lemma private_ok_other:
  assumes "list_all (private_ok mem) ts"
    and "\<And>p a. p \<in> set ts \<Longrightarrow> keeps a p = 1 \<Longrightarrow>
      node_label mem' a = node_label mem a \<and> next_of mem' a = next_of mem a"
  shows "list_all (private_ok mem') ts"
  unfolding list_all_iff
proof
  fix p assume p: "p \<in> set ts"
  then have "private_ok mem p"
    using assms(1) by (simp add: list_all_iff)
  then show "private_ok mem' p"
    using assms(2) [OF p] by (cases p) simp_all
qed

lemma chain_keepers:
  assumes "chain_inv c s" "p \<in> set (gr_threads s)" "keeps a p = 1"
  shows "gr_mem s a \<noteq> None \<and> a \<notin> set c"
proof -
  obtain i where "i < length (gr_threads s)" "gr_threads s ! i = p"
    using assms(2) by (auto simp: in_set_conv_nth)
  then show ?thesis
    using chain_keeper [OF assms(1), of i a] assms(3) by simp
qed

text \<open>The actions on the list.\<close>

lemma chain_xchg:
  assumes inv: "chain_inv c s" and i: "i < length (gr_threads s)" "gr_threads s ! i = Gn_xchg dq a"
  shows "chain_inv (c @ [a]) (s\<lparr>gr_dg := (gr_dg s)\<lparr>dg_notify_tail := Some a\<rparr>, gr_notified := n,
    gr_threads := (gr_threads s)[i := if c = [] then Gn_retain a else Gn_link (last c) a]\<rparr>)"
proof -
  note d = chain_invD [OF inv]
  note upd = tsum_update [OF i(1)]
  have priv: "gr_mem s a \<noteq> None" "a \<notin> set c"
    using chain_keeper [OF inv i(1), of a] i(2) by simp_all
  have ok: "next_of (gr_mem s) a = None"
    using d(7) i by (auto simp: list_all_length dest!: spec [of _ i])
  have last: "next_of (gr_mem s) (last c) = None" if "c \<noteq> []"
    using that d(6) [of "last c"] adjacent_last [OF d(1) that] by (cases "next_of (gr_mem s) (last c)") auto
  have adj: "(a, x) \<notin> adjacent c" "(x, a) \<notin> adjacent c" for x
    using adjacent_in [of _ _ c] priv(2) by blast+
  show ?thesis
  proof (rule chain_invI, goal_cases)
    case (3 x)
    show ?case
      using d(3) [of x] i(2) by (cases c) (auto simp: upd)
  next
    case (4 x)
    show ?case
      using d(4) [of x] i(2) priv by (auto simp: upd of_bool_def)
  next
    case (5 x y)
    show ?case
      using d(5) [of x y] i(2) last adj
      by (cases "c = []") (auto simp: upd adjacent_snoc adjacent_simps of_bool_def)
  next
    case (6 x y)
    then show ?case
      using d(6) [of x y] ok by (cases "c = []") (auto simp: adjacent_snoc)
  next
    case 7
    show ?case
      using d(7) by (simp add: list_all_update)
  qed (use d(1) priv in auto)
qed

lemma chain_link:
  assumes inv: "chain_inv c s" and i: "i < length (gr_threads s)" "gr_threads s ! i = Gn_link p a"
    and p: "gr_mem s p = Some dsn"
  shows "chain_inv c (s\<lparr>gr_mem := (gr_mem s)(p \<mapsto> dsn\<lparr>dsn_next := Some a\<rparr>), gr_threads := (gr_threads s)[i := Gr_idle]\<rparr>)"
proof -
  note d = chain_invD [OF inv]
  note upd = tsum_update [OF i(1)]
  have adj: "(p, a) \<in> adjacent c" "next_of (gr_mem s) p = None"
    using chain_linker [OF inv i] by auto
  have uniq: "(p, b) \<in> adjacent c \<longleftrightarrow> a = b" for b
    using adjacent_unique [OF d(1) adj(1)] adj(1) by blast
  show ?thesis
  proof (rule chain_invI, goal_cases)
    case (5 x y)
    have "tsum (links x y) ((gr_threads s)[i := Gr_idle]) = tsum (links x y) (gr_threads s) - of_bool (p = x \<and> a = y)"
      by (simp add: upd i(2))
    then show ?case
      using d(5) [of x y] adj(2) by (cases "x = p") (simp_all add: uniq)
  next
    case (6 x y)
    then show ?case
      using d(6) [of x y] adj by (cases "x = p") auto
  next
    case 7
    have "node_label ((gr_mem s)(p \<mapsto> dsn\<lparr>dsn_next := Some a\<rparr>)) b = node_label (gr_mem s) b \<and>
        next_of ((gr_mem s)(p \<mapsto> dsn\<lparr>dsn_next := Some a\<rparr>)) b = next_of (gr_mem s) b"
      if "pc \<in> set (gr_threads s)" "keeps b pc = 1" for pc b
      using chain_keepers [OF inv that] adjacent_in [OF adj(1)] by auto
    then show ?case
      using private_ok_other [OF d(7)] by (simp add: list_all_update)
  qed (use d(1-4) i(2) p in \<open>auto simp: upd\<close>)
qed

lemma chain_set_head:
  assumes inv: "chain_inv c s" and i: "i < length (gr_threads s)" "gr_threads s ! i = Gn_head a"
  shows "chain_inv c (s\<lparr>gr_dg := (gr_dg s)\<lparr>dg_notify_head := Some a\<rparr>, gr_threads := (gr_threads s)[i := Gn_check]\<rparr>)"
proof -
  note d = chain_invD [OF inv]
  have none: "dg_notify_head (gr_dg s) \<noteq> Some x" for x
    using chain_owner [OF inv i(1), of a x] i(2) by simp
  show ?thesis
  proof (rule chain_invI, goal_cases)
    case (3 x)
    show ?case
      using d(3) [of x] i(2) none [of x] by (auto simp: tsum_update [OF i(1)] of_bool_def)
  qed (use d i(2) in \<open>simp_all add: tsum_update [OF i(1)] list_all_update\<close>)
qed

lemma chain_take_head:
  assumes inv: "chain_inv c s" and i: "i < length (gr_threads s)" "gr_threads s ! i = Gw_head rel"
  shows "chain_inv c (s\<lparr>gr_dg := (gr_dg s)\<lparr>dg_notify_head := None\<rparr>,
    gr_threads := (gr_threads s)[i := Gw_waiters rel (dg_notify_head (gr_dg s))]\<rparr>)"
proof -
  note d = chain_invD [OF inv]
  show ?thesis
  proof (rule chain_invI, goal_cases)
    case (3 x)
    show ?case
      using d(3) [of x] i(2) by (auto simp: tsum_update [OF i(1)])
  qed (use d i(2) in \<open>simp_all add: tsum_update [OF i(1)] list_all_update\<close>)
qed

lemma chain_drop:
  assumes inv: "chain_inv c s" and i: "i < length (gr_threads s)" "gr_threads s ! i = Gw_next rel a"
    and nxt: "gr_mem s a = Some dsn" "dsn_next dsn = Some b"
  shows "chain_inv (tl c) (s\<lparr>gr_threads := (gr_threads s)[i := Gw_free rel a (Some b)]\<rparr>) \<and> c = a # tl c \<and> tl c \<noteq> []"
proof -
  note d = chain_invD [OF inv]
  note upd = tsum_update [OF i(1)]
  obtain c' where c: "c = a # c'"
    using chain_owner [OF inv i(1), of a] i(2) by (cases c) auto
  have next_a: "next_of (gr_mem s) a = Some b"
    using nxt by (simp add: next_of_def)
  then have adj: "(a, b) \<in> adjacent c"
    using d(6) [of a b] c by simp
  then have ne: "c' \<noteq> []"
    using c by (auto simp: adjacent_simps)
  have notin: "(a, x) \<notin> adjacent c'" for x
    using d(1) c adjacent_in [of a x c'] by auto
  then have b: "hd c' = b"
    using adj ne by (auto simp: c adjacent_simps)
  have "chain_inv c' (s\<lparr>gr_threads := (gr_threads s)[i := Gw_free rel a (Some b)]\<rparr>)"
  proof (rule chain_invI, goal_cases)
    case (2)
    show ?case
      using d(2) ne by (simp add: c)
  next
    case (3 x)
    show ?case
      using d(3) [of x] i(2) ne b by (auto simp: upd c of_bool_def)
  next
    case (4 x)
    show ?case
      using d(4) [of x] d(1) i(2) by (auto simp: upd c of_bool_def)
  next
    case (5 x y)
    show ?case
      using d(5) [of x y] i(2) ne next_a notin by (auto simp: upd c adjacent_simps of_bool_def)
  next
    case (6 x y)
    then show ?case
      using d(6) [of x y] d(1) ne by (auto simp: c adjacent_simps)
  qed (use d(1,7) i(2) in \<open>simp_all add: c list_all_update\<close>)
  then show ?thesis
    using c ne by simp
qed

lemma chain_cas:
  assumes inv: "chain_inv c s" and i: "i < length (gr_threads s)" "gr_threads s ! i = Gw_cas rel a"
    and tail: "dg_notify_tail (gr_dg s) = Some a"
  shows "chain_inv [] (s\<lparr>gr_dg := (gr_dg s)\<lparr>dg_notify_tail := None\<rparr>, gr_threads := (gr_threads s)[i := Gw_free rel a None]\<rparr>) \<and>
    c = [a]"
proof -
  note d = chain_invD [OF inv]
  note upd = tsum_update [OF i(1)]
  obtain c' where c: "c = a # c'"
    using chain_owner [OF inv i(1), of a] i(2) by (cases c) auto
  then have c1: "c = [a]"
    using d(1,2) tail by (cases "c' = []") (auto split: if_splits)
  have "chain_inv [] (s\<lparr>gr_dg := (gr_dg s)\<lparr>dg_notify_tail := None\<rparr>, gr_threads := (gr_threads s)[i := Gw_free rel a None]\<rparr>)"
  proof (rule chain_invI, goal_cases)
    case (3 x)
    show ?case
      using d(3) [of x] i(2) by (auto simp: upd c1 of_bool_def split: if_splits)
  next
    case (4 x)
    show ?case
      using d(4) [of x] i(2) by (auto simp: upd c1 of_bool_def)
  next
    case (5 x y)
    show ?case
      using d(5) [of x y] i(2) by (auto simp: upd c1 adjacent_simps)
  qed (use d(1,7) i(2) in \<open>simp_all add: c1 list_all_update\<close>)
  then show ?thesis
    using c1 by simp
qed

lemma chain_free:
  assumes inv: "chain_inv c s" and i: "i < length (gr_threads s)" "gr_threads s ! i = Gw_free rel a tmp"
    and q: "\<And>x. owns x q = of_bool (tmp = Some x)" "\<And>x. keeps x q = 0" "\<And>x y. links x y q = 0" "\<And>m. private_ok m q"
  shows "chain_inv c (s\<lparr>gr_mem := (gr_mem s)(a := None), gr_threads := (gr_threads s)[i := q]\<rparr>)"
proof -
  let ?mem = "(gr_mem s)(a := None)"
  note d = chain_invD [OF inv]
  note upd = tsum_update [OF i(1)]
  have a: "gr_mem s a \<noteq> None" "a \<notin> set c"
    using chain_keeper [OF inv i(1), of a] i(2) by simp_all
  show ?thesis
  proof (rule chain_invI, goal_cases)
    case (3 x)
    show ?case
      using d(3) [of x] i(2) by (simp add: upd q)
  next
    case (4 x)
    show ?case
      using d(4) [of x] i(2) a by (auto simp: upd q of_bool_def split: if_splits)
  next
    case (5 x y)
    show ?case
      using d(5) [of x y] i(2) a adjacent_in [of x y c] by (auto simp: upd q of_bool_def)
  next
    case (6 x y)
    then show ?case
      using d(6) [of x y] by (auto split: if_splits)
  next
    case 7
    have "private_ok ?mem (gr_threads s ! j)" if j: "j < length (gr_threads s)" "j \<noteq> i" for j
    proof -
      have "tsum (keeps a) ((gr_threads s)[i := Gr_idle]) = 0"
        using d(4) [of a] i(2) a by (simp add: upd)
      then have "keeps a (gr_threads s ! j) = 0"
        using tsum_eq_0D [of "keeps a" "(gr_threads s)[i := Gr_idle]" j] j by simp
      moreover have "private_ok (gr_mem s) (gr_threads s ! j)"
        using d(7) j(1) by (simp add: list_all_length)
      ultimately show ?thesis
        by (cases "gr_threads s ! j") auto
    qed
    then show ?case
      using q(4) i(1) by (auto simp: list_all_length nth_list_update)
  qed (use d(1,2) in simp_all)
qed

lemma chain_alloc:
  assumes inv: "chain_inv c s" and i: "i < length (gr_threads s)" "gr_threads s ! i = Gr_idle"
    and a: "gr_mem s a = None"
  shows "chain_inv c (s\<lparr>gr_mem := (gr_mem s)(a \<mapsto> \<lparr>dsn_next = None, dsn_queue = dq, dsn_work = w\<rparr>),
    gr_threads := (gr_threads s)[i := Gn_queue_retain dq a]\<rparr>)"
proof -
  let ?mem = "(gr_mem s)(a \<mapsto> \<lparr>dsn_next = None, dsn_queue = dq, dsn_work = w\<rparr>)"
  note d = chain_invD [OF inv]
  note upd = tsum_update [OF i(1)]
  have notin: "a \<notin> set c"
    using d(4) [of a] a tsum_nonneg [of "gr_threads s" "keeps a"] by (auto simp: of_bool_def split: if_splits)
  show ?thesis
  proof (rule chain_invI, goal_cases)
    case (4 x)
    show ?case
      using d(4) [of x] i(2) a by (auto simp: upd of_bool_def)
  next
    case (5 x y)
    show ?case
      using d(5) [of x y] i(2) notin adjacent_in [of x y c] by (auto simp: upd of_bool_def)
  next
    case (6 x y)
    then show ?case
      using d(6) [of x y] by (auto split: if_splits)
  next
    case 7
    have "node_label ?mem b = node_label (gr_mem s) b \<and> next_of ?mem b = next_of (gr_mem s) b"
      if "pc \<in> set (gr_threads s)" "keeps b pc = 1" for pc b
      using chain_keepers [OF inv that] a by (auto simp: node_label_def)
    then have "list_all (private_ok ?mem) (gr_threads s)"
      using private_ok_other [OF d(7)] by blast
    then show ?case
      by (simp add: list_all_update node_label_def)
  qed (use d(1-3) i(2) in \<open>simp_all add: upd\<close>)
qed

text \<open>The same actions and the logs.\<close>

lemma label_next: "mem p = Some dsn \<Longrightarrow> node_label (mem(p \<mapsto> dsn\<lparr>dsn_next := n\<rparr>)) = node_label mem"
  by (auto simp: node_label_def)

lemma map_label_other:
  "a \<notin> set c \<Longrightarrow> map (node_label (mem(a := x))) (drop k c) = map (node_label mem) (drop k c)"
  by (auto simp: node_label_def dest: in_set_dropD)

lemma tsum_label_other:
  "a \<notin> set c \<Longrightarrow> tsum (\<lambda>b. of_bool (fst (node_label (mem(a := x)) b) = q)) (drop k c) =
    tsum (\<lambda>b. of_bool (fst (node_label mem b) = q)) (drop k c)"
  unfolding tsum_def by (rule arg_cong [of _ _ sum_list], rule map_cong) (auto simp: node_label_def dest: in_set_dropD)

lemma log_xchg:
  assumes inv: "chain_inv c s" "log_inv c s" and i: "i < length (gr_threads s)" "gr_threads s ! i = Gn_xchg dq a"
    and a: "gr_mem s a = Some dsn"
  shows "log_inv (c @ [a]) (s\<lparr>gr_dg := dg, gr_notified := gr_notified s @ [(dsn_queue dsn, dsn_work dsn)],
    gr_threads := (gr_threads s)[i := if c = [] then Gn_retain a else Gn_link (last c) a]\<rparr>)"
proof -
  let ?q = "if c = [] then Gn_retain a else Gn_link (last c) a"
  have same: "submitted ?q = 0" "unreferenced ?q = 0" "queue_ref x ?q = 0" for x
    by simp_all
  have label: "node_label (gr_mem s) a = (dsn_queue dsn, dsn_work dsn)" "dsn_queue dsn = dq"
    using chain_invD(7) [OF inv(1)] i a by (auto simp: list_all_length node_label_def dest!: spec [of _ i])
  have "drop (nat n) (c @ [a]) = drop (nat n) c @ [a]" if "n \<le> of_bool (c \<noteq> [])" for n :: int
  proof -
    have "nat n \<le> length c"
      using that by (cases c) auto
    then show ?thesis
      by simp
  qed
  then have "drop (nat (tsum submitted (gr_threads s))) (c @ [a]) = drop (nat (tsum submitted (gr_threads s))) c @ [a]"
    "drop (nat (tsum unreferenced (gr_threads s))) (c @ [a]) = drop (nat (tsum unreferenced (gr_threads s))) c @ [a]"
    using submitted_bound [OF inv(1)] by (meson order_trans)+
  then show ?thesis
    using inv(2) i(2) label by (auto simp: log_inv_def Let_def tsum_update [OF i(1)] same simp del: drop_append)
qed

lemma log_link:
  assumes "log_inv c s" and i: "i < length (gr_threads s)" "gr_threads s ! i = Gn_link p a" and "gr_mem s p = Some dsn"
  shows "log_inv c (s\<lparr>gr_mem := (gr_mem s)(p \<mapsto> dsn\<lparr>dsn_next := Some a\<rparr>), gr_threads := (gr_threads s)[i := Gr_idle]\<rparr>)"
  using assms(1) i(2) by (simp add: log_inv_def Let_def tsum_update [OF i(1)] label_next [of "gr_mem s", OF assms(4)] del: node_simps)

lemma log_queue_retain:
  assumes "log_inv c s" and i: "i < length (gr_threads s)" "gr_threads s ! i = Gn_queue_retain dq a"
  shows "log_inv c (s\<lparr>gr_queue_refs := (gr_queue_refs s)(dq := gr_queue_refs s dq + 1),
    gr_threads := (gr_threads s)[i := Gn_xchg dq a]\<rparr>)"
  using assms(1) i(2) by (simp add: log_inv_def Let_def tsum_update [OF i(1)])

lemma log_async:
  assumes inv: "chain_inv c s" "log_inv c s" and i: "i < length (gr_threads s)" "gr_threads s ! i = Gw_async rel a"
    and a: "gr_mem s a = Some dsn"
  shows "log_inv c (s\<lparr>gr_async := gr_async s @ [(dsn_queue dsn, dsn_work dsn)],
    gr_threads := (gr_threads s)[i := Gw_queue_release rel a]\<rparr>)"
proof -
  obtain c' where c: "c = a # c'"
    using chain_owner [OF inv(1) i(1), of a] i(2) by (cases c) auto
  show ?thesis
    using inv(2) i(2) submitted_count [OF inv(1) i(1), of a] a
    by (simp add: log_inv_def Let_def tsum_update [OF i(1)] c node_label_def)
qed

lemma log_queue_release:
  assumes inv: "chain_inv c s" "log_inv c s" and i: "i < length (gr_threads s)" "gr_threads s ! i = Gw_queue_release rel a"
    and a: "gr_mem s a = Some dsn"
  shows "log_inv c (s\<lparr>gr_queue_refs := (gr_queue_refs s)(dsn_queue dsn := gr_queue_refs s (dsn_queue dsn) - 1),
    gr_threads := (gr_threads s)[i := Gw_next rel a]\<rparr>)"
proof -
  obtain c' where c: "c = a # c'"
    using chain_owner [OF inv(1) i(1), of a] i(2) by (cases c) auto
  have "node_label (gr_mem s) a = (dsn_queue dsn, dsn_work dsn)"
    using a by (simp add: node_label_def)
  then show ?thesis
    using inv(2) i(2) submitted_count [OF inv(1) i(1), of a]
    by (simp add: log_inv_def Let_def tsum_update [OF i(1)] c)
qed

lemma log_drop:
  assumes inv: "chain_inv c s" "log_inv c s" and i: "i < length (gr_threads s)"
    and p: "gr_threads s ! i = Gw_next rel a \<or> gr_threads s ! i = Gw_cas rel a"
    and q: "submitted q = 0" "unreferenced q = 0" "\<And>x. queue_ref x q = 0"
  shows "log_inv (tl c) (s\<lparr>gr_dg := dg, gr_threads := (gr_threads s)[i := q]\<rparr>)"
proof -
  obtain c' where c: "c = a # c'"
    using chain_owner [OF inv(1) i, of a] p by (cases c) auto
  show ?thesis
    using inv(2) p submitted_count [OF inv(1) i, of a]
    by (auto simp: log_inv_def Let_def tsum_update [OF i] c q)
qed

lemma log_mem:
  assumes inv: "log_inv c s" and i: "i < length (gr_threads s)" and a: "a \<notin> set c"
    and q: "submitted q = submitted (gr_threads s ! i)" "unreferenced q = unreferenced (gr_threads s ! i)"
      "\<And>x. queue_ref x q = queue_ref x (gr_threads s ! i)"
  shows "log_inv c (s\<lparr>gr_mem := (gr_mem s)(a := x), gr_threads := (gr_threads s)[i := q]\<rparr>)"
  using inv by (simp add: log_inv_def Let_def tsum_update [OF i] q map_label_other [OF a] tsum_label_other [OF a]
      del: node_simps fun_upd_apply)

section \<open>The invariant\<close>

definition list_inv :: "group_sys \<Rightarrow> bool" where
  "list_inv s = (\<exists>c. chain_inv c s \<and> log_inv c s)"

lemma list_inv_same:
  assumes "list_inv s" "i < length (gr_threads s)"
    and "\<And>a. owns a q = owns a (gr_threads s ! i)" "\<And>a. keeps a q = keeps a (gr_threads s ! i)"
    and "\<And>p a. links p a q = links p a (gr_threads s ! i)" "private_ok (gr_mem s) q"
    and "submitted q = submitted (gr_threads s ! i)" "unreferenced q = unreferenced (gr_threads s ! i)"
    and "\<And>x. queue_ref x q = queue_ref x (gr_threads s ! i)"
    and "gr_mem t = gr_mem s" "dg_notify_head (gr_dg t) = dg_notify_head (gr_dg s)"
    and "dg_notify_tail (gr_dg t) = dg_notify_tail (gr_dg s)"
    and "gr_async t = gr_async s" "gr_notified t = gr_notified s" "gr_queue_refs t = gr_queue_refs s"
  shows "list_inv (t\<lparr>gr_threads := (gr_threads s)[i := q]\<rparr>)"
proof -
  obtain c where "chain_inv c s" "log_inv c s"
    using assms(1) by (auto simp: list_inv_def)
  then show ?thesis
    using assms(2-) chain_inv_same [of c s i q t] log_inv_same [of c s i q t]
    unfolding list_inv_def by (intro exI [of _ c] conjI) simp_all
qed

lemma list_inv_run:
  assumes inv: "list_inv s" "ref_inv s" and i: "i < length (gr_threads s)"
  shows "stepped list_inv i s (group_exec k s (gr_threads s ! i))"
proof -
  obtain c where c: "chain_inv c s" "log_inv c s"
    using inv(1) by (auto simp: list_inv_def)
  note same = list_inv_same [OF inv(1) i]
  note [simp] = group_exec_def list_inv_def
  show ?thesis
  proof (cases "gr_threads s ! i")
    case (Gw_head rel)
    then show ?thesis
      using chain_take_head [OF c(1) i, of rel]
        log_inv_same [OF c(2) i, of "Gw_waiters rel h" "upd_dg (dg_notify_head_update (\<lambda>_. None)) s" for h]
      by (auto intro!: exI [of _ c])
  next
    case (Gw_async rel a)
    then show ?thesis
      using chain_inv_same [OF c(1) i, of "Gw_queue_release rel a" "s\<lparr>gr_async := x\<rparr>" for x] log_async [OF c i]
      by (auto intro!: exI [of _ c])
  next
    case (Gw_queue_release rel a)
    then show ?thesis
      using chain_inv_same [OF c(1) i, of "Gw_next rel a" "s\<lparr>gr_queue_refs := x\<rparr>" for x] log_queue_release [OF c i]
      by (auto intro!: exI [of _ c])
  next
    case (Gw_next rel a)
    then show ?thesis
      using same [of "Gw_cas rel a" s] chain_drop [OF c(1) i, of rel a]
        log_drop [OF c i, of rel a "Gw_free rel a b" "gr_dg s" for b]
      by (auto split: option.splits intro!: exI [of _ "tl c"])
  next
    case (Gw_cas rel a)
    then show ?thesis
      using same [of "Gw_next rel a" s] chain_cas [OF c(1) i, of rel a]
        log_drop [OF c i, of rel a "Gw_free rel a None" "dg_notify_tail_update (\<lambda>_. None) (gr_dg s)"]
      by (auto intro!: exI [of _ "[]"])
  next
    case (Gw_free rel a tmp)
    then show ?thesis
      using chain_free [OF c(1) i, of rel a tmp] log_mem [OF c(2) i, of a q None for q] chain_keeper [OF c(1) i, of a]
      by (auto split: option.splits intro!: exI [of _ c])
  next
    case (Gn_queue_retain dq a)
    then show ?thesis
      using chain_inv_same [OF c(1) i, of "Gn_xchg dq a" "s\<lparr>gr_queue_refs := x\<rparr>" for x] log_queue_retain [OF c(2) i]
        chain_invD(7) [OF c(1)] i
      by (auto simp: list_all_length intro!: exI [of _ c] dest!: spec [of _ i])
  next
    case (Gn_xchg dq a)
    then show ?thesis
      using chain_xchg [OF c(1) i, of dq a] log_xchg [OF c i, of dq a] chain_invD(2) [OF c(1)]
      by (auto intro!: exI [of _ "c @ [a]"])
  next
    case (Gn_link p a)
    then show ?thesis
      using chain_link [OF c(1) i, of p a] log_link [OF c(2) i, of p a] by (auto intro!: exI [of _ c])
  next
    case (Gn_head a)
    then show ?thesis
      using chain_set_head [OF c(1) i, of a]
        log_inv_same [OF c(2) i, of Gn_check "upd_dg (dg_notify_head_update (\<lambda>_. Some a)) s"]
      by (auto intro!: exI [of _ c])
  qed (cases k; simp add: dispatch_group_enter_def wake_list_def Let_def same
      group_retain_goes [OF inv(2)] group_release_goes [OF inv(2) i] del: list_inv_def split: option.splits)+
qed

text \<open>No action of a thread fails: nodes are alive when they are accessed, references are there.\<close>

lemma group_exec_safe:
  assumes inv: "list_inv s" "ref_inv s" and i: "i < length (gr_threads s)"
  shows "group_exec k s (gr_threads s ! i) \<noteq> Gr_fails e"
proof -
  obtain c where c: "chain_inv c s"
    using inv(1) by (auto simp: list_inv_def)
  have node: "with_node s a f \<noteq> Gr_fails e"
    if "0 < owns a (gr_threads s ! i) + keeps a (gr_threads s ! i) \<or> (\<exists>b. gr_threads s ! i = Gn_link a b)"
      "\<And>dsn. f dsn \<noteq> Gr_fails e" for a f
  proof -
    have "gr_mem s a \<noteq> None"
      using that(1) chain_owner [OF c i, of a] chain_keeper [OF c i, of a] chain_linker [OF c i, of a]
      by (cases "0 < owns a (gr_threads s ! i)"; cases "0 < keeps a (gr_threads s ! i)") auto
    then show ?thesis
      using that(2) by (auto simp: with_node_def)
  qed
  show ?thesis
    by (cases "gr_threads s ! i"; cases k)
      (simp_all add: group_exec_def dispatch_group_enter_def Let_def node
        group_retain_goes [OF inv(2)] group_release_goes [OF inv(2) i])
qed

lemma group_exec_crashed: "ref_inv s \<Longrightarrow> i < length (gr_threads s) \<Longrightarrow>
    goes (\<lambda>t q. gr_crashed t = gr_crashed s) (group_exec k s (gr_threads s ! i))"
  by (cases "gr_threads s ! i"; cases k)
    (simp_all add: group_exec_def dispatch_group_enter_def Let_def group_retain_goes group_release_goes)

text \<open>The calls of the clients.\<close>

lemma work_inv_call:
  assumes "work_inv s" "i < length (gr_threads s)" "gr_threads s ! i = Gr_idle"
  shows "stepped work_inv i s (group_call c s)"
proof -
  have "tsum leaving (gr_threads s) \<le> int (length (gr_threads s))"
    by (simp add: tsum_le_length)
  then show ?thesis
    using assms by (cases c) (auto simp: work_inv_def group_room_def dispatch_group_enter_def Let_def tsum_update)
qed

lemma wait_inv_call:
  assumes "wait_inv s" "work_inv s" "i < length (gr_threads s)" "gr_threads s ! i = Gr_idle"
  shows "stepped wait_inv i s (group_call c s)"
  using assms(1,3,4) group_enter_not_empty [OF assms(2)]
  by (cases c) (auto simp: wait_inv_def dispatch_group_enter_def Let_def tsum_update list_all_update)

lemma head_inv_call:
  assumes "head_inv s" "work_inv s" "i < length (gr_threads s)" "gr_threads s ! i = Gr_idle"
  shows "stepped head_inv i s (group_call c s)"
  using assms(1,3,4) group_enter_not_empty [OF assms(2)]
  by (cases c) (auto simp: head_inv_def dispatch_group_enter_def Let_def tsum_update)

lemma ref_inv_call:
  assumes "ref_inv s" "i < length (gr_threads s)" "gr_threads s ! i = Gr_idle"
  shows "stepped ref_inv i s (group_call c s)"
  using assms by (cases c) (auto simp: ref_inv_def group_room_def dispatch_group_enter_def Let_def tsum_update)

lemma list_inv_call:
  assumes inv: "list_inv s" and i: "i < length (gr_threads s)" "gr_threads s ! i = Gr_idle"
  shows "stepped list_inv i s (group_call c s)"
proof (cases c)
  case (Do_notify dq w a)
  obtain ch where ch: "chain_inv ch s" "log_inv ch s"
    using inv by (auto simp: list_inv_def)
  have "a \<notin> set ch" if "gr_mem s a = None"
    using chain_invD(4) [OF ch(1), of a] that tsum_nonneg [of "gr_threads s" "keeps a"]
    by (auto simp: of_bool_def split: if_splits)
  then show ?thesis
    using Do_notify chain_alloc [OF ch(1) i, of a dq w]
      log_mem [OF ch(2) i(1), of a "Gn_queue_retain dq a" "Some \<lparr>dsn_next = None, dsn_queue = dq, dsn_work = w\<rparr>"] i(2)
    by (auto simp: list_inv_def intro!: exI [of _ ch])
qed (use list_inv_same [OF inv i(1)] i(2) in \<open>simp_all add: dispatch_group_enter_def Let_def\<close>)

definition group_inv :: "group_sys \<Rightarrow> bool" where
  "group_inv s = (gr_crashed s = None \<and> work_inv s \<and> wait_inv s \<and> head_inv s \<and> ref_inv s \<and> list_inv s)"

lemma group_call_crashed: "goes (\<lambda>t q. gr_crashed t = gr_crashed s) (group_call c s)"
  by (cases c) (auto simp: dispatch_group_enter_def Let_def)

lemma group_call_safe: "group_call c s \<noteq> Gr_fails e"
  by (cases c) (auto simp: dispatch_group_enter_def Let_def)

lemma group_inv_step:
  assumes inv: "group_inv s" and step: "group_step s t"
  shows "group_inv t"
  using step
proof cases
  case (group_step_run k i)
  have i: "i < length (gr_threads s)"
    using group_step_run by (auto simp: group_run_def split: if_splits)
  let ?act = "group_exec k s (gr_threads s ! i)"
  note parts = inv [unfolded group_inv_def]
  have head: "dg_notify_head (gr_dg s) = None" if "gr_threads s ! i = Gn_head a" for a
    using parts chain_owner [OF _ i, of _ a] that by (cases "dg_notify_head (gr_dg s)") (auto simp: list_inv_def)
  obtain u q where act: "?act = Gr_goes u q" "t = u\<lparr>gr_threads := (gr_threads s)[i := q]\<rparr>"
    using group_step_run(1) group_exec_safe [of s i k] parts i by (cases ?act) (auto simp: group_run_def split: if_splits)
  show ?thesis
    using goesD [OF work_inv_run act(1)] goesD [OF wait_inv_run act(1)] goesD [OF head_inv_run act(1)]
      goesD [OF ref_inv_run act(1)] goesD [OF list_inv_run act(1)] goesD [OF group_exec_crashed act(1)]
      parts head i group_step_run(2)
    unfolding group_inv_def act(2) by simp
next
  case (group_step_begin c i)
  then have i: "i < length (gr_threads s)" "gr_threads s ! i = Gr_idle"
    by (auto simp: group_begin_def split: if_splits)
  note parts = inv [unfolded group_inv_def]
  obtain u q where act: "group_call c s = Gr_goes u q" "t = u\<lparr>gr_threads := (gr_threads s)[i := q]\<rparr>"
    using group_step_begin group_call_safe [of c s]
    by (cases "group_call c s") (auto simp: group_begin_def split: if_splits)
  show ?thesis
    using goesD [OF work_inv_call act(1)] goesD [OF wait_inv_call act(1)] goesD [OF head_inv_call act(1)]
      goesD [OF ref_inv_call act(1)] goesD [OF list_inv_call act(1)] goesD [OF group_call_crashed act(1)]
      parts i
    unfolding group_inv_def act(2) by simp
qed

lemma group_inv_init:
  assumes "group_init s"
  shows "group_inv s"
proof -
  have idle: "p = Gr_idle" if "p \<in> set (gr_threads s)" for p
    using assms that by (auto simp: group_init_def)
  then have sums: "tsum f (gr_threads s) = 0" if "f Gr_idle = 0" for f
    using that by (metis tsum_eq_0I)
  have "chain_inv [] s" "log_inv [] s"
    using assms idle by (auto simp: chain_inv_def log_inv_def group_init_def dispatch_group_create_def sums adjacent_simps
        list_all_iff Let_def)
  moreover have "list_all group_pc_ok (gr_threads s)"
    unfolding list_all_iff using idle by (metis group_pc_ok.simps(3))
  ultimately show ?thesis
    using assms by (auto simp: group_inv_def group_init_def dispatch_group_create_def work_inv_def wait_inv_def head_inv_def
        ref_inv_def list_inv_def sums LONG_MAX_def Let_def)
qed

interpretation group: invariant_system group_init group_step group_inv
  using group_inv_init group_inv_step by unfold_locales blast+

section \<open>Properties\<close>

text \<open>No thread that is inside a call can take a step, interrupts and timeouts aside.\<close>

definition group_quiet :: "group_sys \<Rightarrow> bool" where
  "group_quiet s = list_all (\<lambda>i. Option.is_none (group_run Proceed i s)) [0..<length (gr_threads s)]"

lemma group_quiet_pcs:
  assumes inv: "group_inv s" and quiet: "group_quiet s" and p: "p \<in> set (gr_threads s)"
  shows "p = Gr_idle \<or> (\<exists>timeout. p = Gt_switch timeout \<or> p = Gt_sem timeout) \<and> dg_sem (gr_dg s) \<le> 0"
proof -
  obtain i where i: "i < length (gr_threads s)" "gr_threads s ! i = p"
    using p by (auto simp: in_set_conv_nth)
  note parts = inv [unfolded group_inv_def]
  have act: "group_exec Proceed s p = Gr_blocked"
  proof -
    have "group_effect i s (group_exec Proceed s p) = None"
      using quiet i parts by (auto simp: group_quiet_def group_run_def list_all_iff Option.is_none_def split: option.splits)
    then show ?thesis
      by (cases "group_exec Proceed s p") auto
  qed
  have "p = Ga_enter \<Longrightarrow> 0 \<le> dg_value (gr_dg s) - 1"
  proof -
    assume "p = Ga_enter"
    then have "tsum inside ((gr_threads s)[i := Ga_push]) = tsum inside (gr_threads s) + 1"
      "tsum submits ((gr_threads s)[i := Ga_push]) = tsum submits (gr_threads s)"
      "tsum leaving ((gr_threads s)[i := Ga_push]) = tsum leaving (gr_threads s)"
      using i by (simp_all add: tsum_update)
    moreover have "tsum inside ts \<le> tsum submits ts + tsum leaving ts" for ts
      unfolding tsum_add [symmetric] by (rule tsum_mono) simp
    ultimately have "tsum inside (gr_threads s) + 1 \<le> tsum submits (gr_threads s) + tsum leaving (gr_threads s)"
      by metis
    then show ?thesis
      using parts by (simp add: work_inv_def Let_def)
  qed
  then show ?thesis
    using act group_retain_goes [of s] group_release_goes [of s i] parts i
    by (cases p) (auto simp: group_exec_def with_node_def dispatch_group_enter_def Let_def split: option.splits if_splits)
qed

text \<open>
  C13: A group that runs empty leaves nobody behind.  Whatever interleaving of enters, leaves, waits,
  notifications and submitted work led to it, in a state in which all work is left and no thread can
  take a step, every thread has returned from its call, every notification was submitted to its
  queue exactly once and in the order of the requests, and every node of the list, every reference
  of a queue and every reference of the group is given back.
\<close>

theorem group_leaves_nobody:
  assumes "reach group_init group_step s" "group_quiet s" "gr_entered s = 0" "gr_tasks s = 0"
  shows "set (gr_threads s) \<subseteq> {Gr_idle} \<and> gr_async s = gr_notified s \<and> gr_mem s = Map.empty \<and>
         gr_queue_refs s = (\<lambda>_. 0) \<and> do_ref_cnt (gr_dg s) = 1"
proof -
  let ?ts = "gr_threads s" and ?dg = "gr_dg s"
  have inv: "group_inv s"
    using group.reachable_inv [OF assms(1)] .
  note parts = inv [unfolded group_inv_def] and pcs = group_quiet_pcs [OF inv assms(2)]
  have sums: "tsum f ?ts = 0" if "f Gr_idle = 0" "\<And>t. f (Gt_switch t) = 0" "\<And>t. f (Gt_sem t) = 0" for f
    using pcs that by (metis tsum_eq_0I)
  have empty: "group_empty ?dg"
    using parts sums assms(3,4) by (simp add: work_inv_def group_empty_def Let_def)
  have head: "dg_notify_head ?dg = None" and "dg_group_waiters ?dg = 0"
    using parts empty sums by (auto simp: head_inv_def wait_inv_def Let_def)
  then have sleep: "tsum sleeps ?ts \<le> dg_sem ?dg"
    using parts sums by (simp add: wait_inv_def Let_def)
  have idle: "p = Gr_idle" if p: "p \<in> set ?ts" for p
  proof (rule ccontr)
    assume "p \<noteq> Gr_idle"
    then have "1 \<le> sleeps p" "dg_sem ?dg \<le> 0"
      using pcs [OF p] by auto
    moreover obtain i where "i < length ?ts" "?ts ! i = p"
      using p by (auto simp: in_set_conv_nth)
    ultimately show False
      using tsum_ge [of i ?ts sleeps] sleep by simp
  qed
  then have all: "tsum f ?ts = 0" if "f Gr_idle = 0" for f
    using that by (metis tsum_eq_0I)
  obtain c where c: "chain_inv c s" "log_inv c s"
    using parts by (auto simp: list_inv_def)
  have "c = []"
    using chain_invD(3) [OF c(1), of "hd c"] head all by (auto simp: of_bool_def split: if_splits)
  moreover have "gr_mem s a = None" for a
    using chain_invD(4) [OF c(1), of a] all calculation by (auto simp: of_bool_def split: if_splits)
  ultimately show ?thesis
    using idle c(2) parts head all assms(4) by (auto simp: log_inv_def ref_inv_def Let_def fun_eq_iff)
qed

text \<open>
  C15: The notification list is memory safe and submits in order.  In every reachable state no thread
  has accessed a freed node or released the last reference of the group, the value is lower than
  \<open>LONG_MAX\<close> by exactly the work that is outstanding, and what was submitted so far is a prefix of
  the notifications in the order in which they were asked for.
\<close>

theorem group_notifies_in_order:
  assumes "reach group_init group_step s"
  shows "gr_crashed s = None \<and> 1 \<le> do_ref_cnt (gr_dg s) \<and>
         LONG_MAX - dg_value (gr_dg s) = gr_entered s + gr_tasks s + tsum inside (gr_threads s) \<and>
         take (length (gr_async s)) (gr_notified s) = gr_async s"
proof -
  have parts: "gr_crashed s = None" "work_inv s" "ref_inv s" "list_inv s"
    using group.reachable_inv [OF assms] by (auto simp: group_inv_def)
  have "1 \<le> do_ref_cnt (gr_dg s)"
    using parts(3) tsum_nonneg [of "gr_threads s" rel_flag] tsum_nonneg [of "gr_threads s" list_ref]
    by (simp add: ref_inv_def Let_def)
  moreover have "take (length (gr_async s)) (gr_notified s) = gr_async s"
    using parts(4) by (auto simp: list_inv_def log_inv_def Let_def dest: sym)
  ultimately show ?thesis
    using parts(1,2) by (simp add: work_inv_def Let_def)
qed

section \<open>A notification that comes too early\<close>

text \<open>
  Concrete runs: actions of clients and of threads in a given order.
\<close>

datatype group_event =
    Calls nat group_client
  | Runs nat

fun group_play :: "group_event list \<Rightarrow> group_sys \<Rightarrow> group_sys option" where
  "group_play [] s = Some s"
| "group_play (Calls i c # es) s = (case group_begin c i s of None \<Rightarrow> None | Some t \<Rightarrow> group_play es t)"
| "group_play (Runs i # es) s =
     (case group_run Proceed i s of
        None \<Rightarrow> None
      | Some t \<Rightarrow> if dg_group_waiters (gr_dg t) < 2 ^ 32 then group_play es t else None)"

lemma group_play_reach:
  "reach init group_step s \<Longrightarrow> group_play es s = Some t \<Longrightarrow> reach init group_step t"
  by (induction es s rule: group_play.induct)
    (auto split: option.splits if_splits intro: reach_step group_step_begin group_step_run [simplified])

definition group_start :: group_sys where
  "group_start =
     \<lparr>gr_dg = dispatch_group_create 0, gr_mem = Map.empty, gr_queue_refs = (\<lambda>_. 0), gr_async = [], gr_tasks = 0,
      gr_entered = 0, gr_notified = [], gr_threads = [Gr_idle, Gr_idle], gr_crashed = None\<rparr>"

lemma group_start_reach: "reach group_init group_step group_start"
  by (rule reach_init) (simp add: group_init_def group_start_def DISPATCH_OBJECT_GLOBAL_REFCNT_def)

text \<open>
  Thread 1 asks for a notification while thread 0 has work outstanding; thread 0 leaves and submits
  it.  Before thread 0 has gone on to the next node, thread 1 enters again and asks for a second
  notification, which joins the list that thread 0 is working on.
\<close>

definition early_run :: "group_event list" where
  "early_run =
     [Calls 0 Do_enter, Calls 1 (Do_notify 1 10 0), Runs 1, Runs 1, Runs 1, Runs 1, Runs 1,
      Calls 0 Do_leave, Runs 0, Runs 0, Runs 0, Runs 0, Runs 0, Runs 0,
      Calls 1 Do_enter, Calls 1 (Do_notify 1 20 1), Runs 1, Runs 1, Runs 1, Runs 0, Runs 0, Runs 0]"

text \<open>
  The second notification is submitted although the work that was entered before it was asked for
  is outstanding: the group is not empty.
\<close>

theorem group_notifies_early:
  "\<exists>s. reach group_init group_step s \<and> group_play early_run group_start = Some s \<and>
       gr_async s = [(1, 10), (1, 20)] \<and> gr_entered s = 1 \<and> \<not> group_empty (gr_dg s)"
proof -
  have "map_option (\<lambda>s. (gr_async s, gr_entered s, group_empty (gr_dg s))) (group_play early_run group_start) =
      Some ([(1, 10), (1, 20)], 1, False)"
    by code_simp
  then show ?thesis
    using group_play_reach [OF group_start_reach] by (auto simp: map_option_eq_Some)
qed

text \<open>
  A waiter that counts itself in and then finds the group empty wakes itself along with the others
  and does not take its own post: with every thread back from its call the semaphore keeps it, and
  the next wait on the group goes once around its loop for nothing.
\<close>

definition surplus_run :: "group_event list" where
  "surplus_run =
     [Calls 0 Do_enter, Calls 1 (Do_wait DISPATCH_TIME_FOREVER), Runs 1, Runs 1, Calls 0 Do_leave, Runs 0] @
     replicate 5 (Runs 1) @ replicate 3 (Runs 0)"

theorem group_surplus_post:
  "\<exists>s. reach group_init group_step s \<and> group_play surplus_run group_start = Some s \<and>
       gr_threads s = [Gr_idle, Gr_idle] \<and> group_empty (gr_dg s) \<and> dg_sem (gr_dg s) = 1"
proof -
  have "map_option (\<lambda>s. (gr_threads s, group_empty (gr_dg s), dg_sem (gr_dg s))) (group_play surplus_run group_start) =
      Some ([Gr_idle, Gr_idle], True, 1)"
    by code_simp
  then show ?thesis
    using group_play_reach [OF group_start_reach] by (auto simp: map_option_eq_Some)
qed

section \<open>Witnesses\<close>

text \<open>
  Thread 1 asks for a notification and waits for ever; thread 0 leaves, wakes it and submits the
  notification.
\<close>

definition done_run :: "group_event list" where
  "done_run =
     [Calls 0 Do_enter, Calls 1 (Do_notify 1 10 0)] @ replicate 5 (Runs 1) @
     [Calls 1 (Do_wait DISPATCH_TIME_FOREVER)] @ replicate 5 (Runs 1) @
     [Calls 0 Do_leave] @ replicate 11 (Runs 0) @ replicate 4 (Runs 1)"

definition group_done :: group_sys where
  "group_done = the (group_play done_run group_start)"

lemma group_done_runs:
  "map_option (\<lambda>s. (group_quiet s, gr_entered s, gr_tasks s, gr_notified s)) (group_play done_run group_start) =
     Some (True, 0, 0, [(1, 10)])"
  by code_simp

lemma group_done_reach: "reach group_init group_step group_done"
  using group_done_runs group_play_reach [OF group_start_reach, of done_run] by (auto simp: group_done_def map_option_eq_Some)

lemma group_done_quiet: "group_quiet group_done" "gr_entered group_done = 0" "gr_tasks group_done = 0"
    "gr_notified group_done = [(1, 10)]"
  using group_done_runs by (auto simp: group_done_def map_option_eq_Some)

theorem group_leaves_nobody_witness:
  "gr_async group_done = [(1, 10)] \<and> gr_mem group_done = Map.empty \<and> do_ref_cnt (gr_dg group_done) = 1"
  using group_leaves_nobody [OF group_done_reach group_done_quiet(1-3)] group_done_quiet(4) by simp

theorem group_notifies_in_order_witness:
  "gr_crashed group_done = None \<and> take (length (gr_async group_done)) [(1, 10)] = gr_async group_done"
  using group_notifies_in_order [OF group_done_reach] group_done_quiet(4) by simp

end
