(* ===== verification/Blocks_Runtime.thy ===== *)
theory Blocks_Runtime
  imports Dispatch_Prelude
begin

text \<open>
  The Blocks runtime of \<open>libblocksruntime/runtime.c\<close>: copying and releasing blocks, the \<open>__block\<close> variables they
  share, and the reference counts that live in the low 16 bits of the flags.  Memory is a list of cells, an address
  an index into it, a null pointer \<open>None\<close>.  The helper functions that the compiler makes for a block are the list of
  calls of \<open>_Block_object_assign\<close> they consist of, one per imported variable.
\<close>

section \<open>Data\<close>

definition BLOCK_REFCOUNT_MASK :: u32 where "BLOCK_REFCOUNT_MASK = 0xffff"

definition BLOCK_NEEDS_FREE :: u32 where "BLOCK_NEEDS_FREE = 0x1000000"

definition BLOCK_HAS_COPY_DISPOSE :: u32 where "BLOCK_HAS_COPY_DISPOSE = 0x2000000"

definition BLOCK_HAS_CTOR :: u32 where "BLOCK_HAS_CTOR = 0x4000000"

definition BLOCK_IS_GC :: u32 where "BLOCK_IS_GC = 0x8000000"

definition BLOCK_IS_GLOBAL :: u32 where "BLOCK_IS_GLOBAL = 0x10000000"

definition WANTS_ONE :: u32 where "WANTS_ONE = 0x10000"

definition BLOCK_FIELD_IS_OBJECT :: u32 where "BLOCK_FIELD_IS_OBJECT = 3"

definition BLOCK_FIELD_IS_BLOCK :: u32 where "BLOCK_FIELD_IS_BLOCK = 7"

definition BLOCK_FIELD_IS_BYREF :: u32 where "BLOCK_FIELD_IS_BYREF = 8"

definition BLOCK_FIELD_IS_WEAK :: u32 where "BLOCK_FIELD_IS_WEAK = 16"

definition BLOCK_BYREF_CALLER :: u32 where "BLOCK_BYREF_CALLER = 128"

lemmas block_flags = BLOCK_REFCOUNT_MASK_def BLOCK_NEEDS_FREE_def BLOCK_HAS_COPY_DISPOSE_def BLOCK_HAS_CTOR_def
  BLOCK_IS_GC_def BLOCK_IS_GLOBAL_def WANTS_ONE_def BLOCK_FIELD_IS_OBJECT_def BLOCK_FIELD_IS_BLOCK_def
  BLOCK_FIELD_IS_BYREF_def BLOCK_FIELD_IS_WEAK_def BLOCK_BYREF_CALLER_def

datatype isa =
    NSConcreteStackBlock
  | NSConcreteMallocBlock
  | NSConcreteAutoBlock
  | NSConcreteFinalizingBlock
  | NSConcreteGlobalBlock
  | NSConcreteWeakBlockVariable
  | No_isa

type_synonym ptr = "nat option"

text \<open>
  A block with its imported variables that need help, each with the flags its helpers pass; a \<open>__block\<close> variable
  with the value it holds.  The helpers of a \<open>__block\<close> variable pass \<open>BLOCK_BYREF_CALLER\<close>, for which assigning copies
  the pointer and disposing does nothing.
\<close>

record block_layout =
  isa :: isa
  bflags :: u32
  bsize :: nat
  vars :: "(u32 \<times> ptr) list"

record block_byref =
  ref_isa :: isa
  forwarding :: nat
  ref_flags :: u32
  ref_size :: nat
  held :: ptr

datatype cell =
    Block block_layout
  | Byref block_byref
  | Freed

record bmem =
  cells :: "cell list"
  isGC :: bool
  heap_limit :: nat
  retained :: "ptr list"
  released :: "ptr list"
  refcounted :: "(nat \<times> bool) list"

datatype berror =
    Dangling
  | Null_pointer
  | No_fuel

type_synonym 'a bresult = "berror + 'a"

definition block_at :: "bmem \<Rightarrow> nat \<Rightarrow> block_layout bresult" where
  "block_at m a =
     (if a < length (cells m) then (case cells m ! a of Block b \<Rightarrow> Inr b | _ \<Rightarrow> Inl Dangling) else Inl Dangling)"

definition byref_at :: "bmem \<Rightarrow> nat \<Rightarrow> block_byref bresult" where
  "byref_at m a =
     (if a < length (cells m) then (case cells m ! a of Byref b \<Rightarrow> Inr b | _ \<Rightarrow> Inl Dangling) else Inl Dangling)"

definition set_cell :: "nat \<Rightarrow> cell \<Rightarrow> bmem \<Rightarrow> bmem" where
  "set_cell a c m = m\<lparr>cells := (cells m)[a := c]\<rparr>"

text \<open>\<open>malloc\<close> fails when the memory has \<open>heap_limit\<close> cells.\<close>

definition alloc_cell :: "cell \<Rightarrow> bmem \<Rightarrow> (bmem \<times> nat) option" where
  "alloc_cell c m =
     (if length (cells m) < heap_limit m then Some (m\<lparr>cells := cells m @ [c]\<rparr>, length (cells m)) else None)"

fun bind_r :: "'a bresult \<Rightarrow> ('a \<Rightarrow> 'b bresult) \<Rightarrow> 'b bresult" where
  "bind_r (Inl e) f = Inl e"
| "bind_r (Inr x) f = f x"

section \<open>Reference counts\<close>

text \<open>The compare-and-swap loops: the new flags and the value returned.\<close>

definition latching_incr_int :: "u32 \<Rightarrow> u32 \<times> u32" where
  "latching_incr_int old_value =
     (if old_value AND BLOCK_REFCOUNT_MASK = BLOCK_REFCOUNT_MASK then (old_value, BLOCK_REFCOUNT_MASK)
      else (old_value + 1, old_value + 1))"

definition latching_decr_int :: "u32 \<Rightarrow> u32 \<times> u32" where
  "latching_decr_int old_value =
     (if old_value AND BLOCK_REFCOUNT_MASK = BLOCK_REFCOUNT_MASK then (old_value, BLOCK_REFCOUNT_MASK)
      else if old_value AND BLOCK_REFCOUNT_MASK = 0 then (old_value, 0)
      else (old_value - 1, old_value - 1))"

section \<open>Copying\<close>

text \<open>\<open>_Block_byref_assign_copy\<close>: the value to store into the new block.\<close>

definition u_Block_byref_assign_copy :: "bmem \<Rightarrow> nat \<Rightarrow> u32 \<Rightarrow> (bmem \<times> ptr) bresult" where
  "u_Block_byref_assign_copy m arg flags =
     bind_r (byref_at m arg) (\<lambda>src.
     bind_r (byref_at m (forwarding src)) (\<lambda>fwd.
       if ref_flags fwd AND BLOCK_IS_GC \<noteq> 0 then Inr (m, Some (forwarding src))
       else if ref_flags fwd AND BLOCK_REFCOUNT_MASK = 0 then
         (let isWeak = (flags AND (BLOCK_FIELD_IS_BYREF OR BLOCK_FIELD_IS_WEAK) = BLOCK_FIELD_IS_BYREF OR BLOCK_FIELD_IS_WEAK);
              initial = (if isGC m then BLOCK_IS_GC else BLOCK_NEEDS_FREE OR 2);
              new = length (cells m);
              copy = src\<lparr>ref_flags := ref_flags src OR initial, forwarding := new,
                         ref_isa := (if isWeak then NSConcreteWeakBlockVariable else No_isa)\<rparr>
          in case alloc_cell (Byref copy) m of
               None \<Rightarrow> Inl Null_pointer
             | Some (m1, _) \<Rightarrow> Inr (set_cell arg (Byref (src\<lparr>forwarding := new\<rparr>)) m1, Some new))
       else if ref_flags fwd AND BLOCK_NEEDS_FREE = BLOCK_NEEDS_FREE then
         Inr (set_cell (forwarding src) (Byref (fwd\<lparr>ref_flags := fst (latching_incr_int (ref_flags fwd))\<rparr>)) m,
              Some (forwarding src))
       else Inr (m, Some (forwarding src))))"

text \<open>
  \<open>_Block_object_assign\<close>, which the helper of a block that is copied calls for each imported variable; \<open>copy\<close> is
  \<open>_Block_copy_internal\<close> for the blocks among them.
\<close>

type_synonym copier = "bmem \<Rightarrow> ptr \<Rightarrow> u32 \<Rightarrow> (bmem \<times> ptr) bresult"

definition u_Block_object_assign :: "copier \<Rightarrow> copier" where
  "u_Block_object_assign copy m object flags =
     (if flags AND BLOCK_BYREF_CALLER = BLOCK_BYREF_CALLER then Inr (m, object)
      else if flags AND BLOCK_FIELD_IS_BYREF = BLOCK_FIELD_IS_BYREF then
        (case object of None \<Rightarrow> Inl Null_pointer | Some a \<Rightarrow> u_Block_byref_assign_copy m a flags)
      else if flags AND BLOCK_FIELD_IS_BLOCK = BLOCK_FIELD_IS_BLOCK then copy m object flags
      else if flags AND BLOCK_FIELD_IS_OBJECT = BLOCK_FIELD_IS_OBJECT then
        Inr (m\<lparr>retained := retained m @ (if isGC m then [] else [object])\<rparr>, object)
      else Inr (m, object))"

fun copy_helper :: "copier \<Rightarrow> bmem \<Rightarrow> (u32 \<times> ptr) list \<Rightarrow> (bmem \<times> (u32 \<times> ptr) list) bresult" where
  "copy_helper assign m [] = Inr (m, [])"
| "copy_helper assign m ((flags, v) # vs) =
     bind_r (assign m v flags) (\<lambda>(m1, v').
     bind_r (copy_helper assign m1 vs) (\<lambda>(m2, vs'). Inr (m2, (flags, v') # vs')))"

text \<open>\<open>_Block_copy_internal\<close>; \<open>fuel\<close> bounds how deep blocks on the stack import each other.\<close>

fun u_Block_copy_internal :: "nat \<Rightarrow> copier" where
  "u_Block_copy_internal fuel m None flags = Inr (m, None)"
| "u_Block_copy_internal 0 m (Some a) flags = Inl No_fuel"
| "u_Block_copy_internal (Suc fuel) m (Some a) flags =
     bind_r (block_at m a) (\<lambda>aBlock.
       let wantsOne = (WANTS_ONE AND flags = WANTS_ONE) in
       if bflags aBlock AND BLOCK_NEEDS_FREE \<noteq> 0 then
         Inr (set_cell a (Block (aBlock\<lparr>bflags := fst (latching_incr_int (bflags aBlock))\<rparr>)) m, Some a)
       else if bflags aBlock AND BLOCK_IS_GC \<noteq> 0 then
         (if wantsOne then
            (let (new, r) = latching_incr_int (bflags aBlock);
                 m1 = set_cell a (Block (aBlock\<lparr>bflags := new\<rparr>)) m in
             Inr (if r AND BLOCK_REFCOUNT_MASK = 1 then m1\<lparr>refcounted := refcounted m1 @ [(a, True)]\<rparr> else m1, Some a))
          else Inr (m, Some a))
       else if bflags aBlock AND BLOCK_IS_GLOBAL \<noteq> 0 then Inr (m, Some a)
       else
         (let hasCTOR = (bflags aBlock AND BLOCK_HAS_CTOR \<noteq> 0);
              cls = (if \<not> isGC m then NSConcreteMallocBlock
                     else if hasCTOR then NSConcreteFinalizingBlock else NSConcreteAutoBlock);
              flags' = (if \<not> isGC m then (bflags aBlock AND NOT BLOCK_REFCOUNT_MASK) OR (BLOCK_NEEDS_FREE OR 1)
                        else (bflags aBlock AND NOT (BLOCK_NEEDS_FREE OR BLOCK_REFCOUNT_MASK)) OR
                             (if wantsOne then BLOCK_IS_GC OR 1 else BLOCK_IS_GC));
              result = aBlock\<lparr>isa := cls, bflags := flags'\<rparr>
          in case alloc_cell (Block result) m of
               None \<Rightarrow> Inr (m, None)
             | Some (m1, new) \<Rightarrow>
                 if flags' AND BLOCK_HAS_COPY_DISPOSE \<noteq> 0
                 then bind_r (copy_helper (u_Block_object_assign (u_Block_copy_internal fuel)) m1 (vars aBlock)) (\<lambda>(m2, vs).
                        Inr (set_cell new (Block (result\<lparr>vars := vs\<rparr>)) m2, Some new))
                 else Inr (m1, Some new)))"

definition u_Block_copy :: "nat \<Rightarrow> bmem \<Rightarrow> ptr \<Rightarrow> (bmem \<times> ptr) bresult" where
  "u_Block_copy fuel m arg = u_Block_copy_internal fuel m arg WANTS_ONE"

definition u_Block_copy_collectable :: "nat \<Rightarrow> bmem \<Rightarrow> ptr \<Rightarrow> (bmem \<times> ptr) bresult" where
  "u_Block_copy_collectable fuel m aBlock = u_Block_copy_internal fuel m aBlock 0"

definition Block_size :: "bmem \<Rightarrow> nat \<Rightarrow> nat bresult" where
  "Block_size m arg = bind_r (block_at m arg) (\<lambda>b. Inr (bsize b))"

section \<open>Releasing\<close>

text \<open>\<open>free\<close>, or nothing under garbage collection.\<close>

definition u_Block_deallocator :: "nat \<Rightarrow> bmem \<Rightarrow> bmem" where
  "u_Block_deallocator a m = (if isGC m then m else set_cell a Freed m)"

definition u_Block_byref_release :: "bmem \<Rightarrow> nat \<Rightarrow> bmem bresult" where
  "u_Block_byref_release m arg =
     bind_r (byref_at m arg) (\<lambda>b.
     let a = forwarding b in
     bind_r (byref_at m a) (\<lambda>shared_struct.
       if ref_flags shared_struct AND BLOCK_NEEDS_FREE = 0 then Inr m
       else if ref_flags shared_struct AND BLOCK_REFCOUNT_MASK = 0 then Inr m
       else
         (let (new, r) = latching_decr_int (ref_flags shared_struct);
              m1 = set_cell a (Byref (shared_struct\<lparr>ref_flags := new\<rparr>)) m in
          Inr (if r AND BLOCK_REFCOUNT_MASK = 0 then u_Block_deallocator a m1 else m1))))"

text \<open>\<open>_Block_destroy\<close> and \<open>_Block_object_dispose\<close>; \<open>release\<close> is \<open>_Block_release\<close>.\<close>

type_synonym releaser = "bmem \<Rightarrow> ptr \<Rightarrow> bmem bresult"

definition u_Block_destroy :: "releaser \<Rightarrow> releaser" where
  "u_Block_destroy release m arg =
     (case arg of
        None \<Rightarrow> Inr m
      | Some a \<Rightarrow>
          bind_r (block_at m a) (\<lambda>aBlock.
            if bflags aBlock AND BLOCK_IS_GC \<noteq> 0 then Inr m else release m (Some a)))"

definition u_Block_object_dispose :: "releaser \<Rightarrow> bmem \<Rightarrow> ptr \<Rightarrow> u32 \<Rightarrow> bmem bresult" where
  "u_Block_object_dispose release m object flags =
     (if flags AND BLOCK_FIELD_IS_BYREF \<noteq> 0 then
        (case object of None \<Rightarrow> Inl Null_pointer | Some a \<Rightarrow> u_Block_byref_release m a)
      else if flags AND (BLOCK_FIELD_IS_BLOCK OR BLOCK_BYREF_CALLER) = BLOCK_FIELD_IS_BLOCK then
        u_Block_destroy release m object
      else if flags AND (BLOCK_FIELD_IS_WEAK OR BLOCK_FIELD_IS_BLOCK OR BLOCK_BYREF_CALLER) = BLOCK_FIELD_IS_OBJECT then
        Inr (m\<lparr>released := released m @ (if isGC m then [] else [object])\<rparr>)
      else Inr m)"

fun dispose_helper :: "(bmem \<Rightarrow> ptr \<Rightarrow> u32 \<Rightarrow> bmem bresult) \<Rightarrow> bmem \<Rightarrow> (u32 \<times> ptr) list \<Rightarrow> bmem bresult" where
  "dispose_helper dispose m [] = Inr m"
| "dispose_helper dispose m ((flags, v) # vs) = bind_r (dispose m v flags) (\<lambda>m1. dispose_helper dispose m1 vs)"

fun u_Block_release :: "nat \<Rightarrow> releaser" where
  "u_Block_release fuel m None = Inr m"
| "u_Block_release 0 m (Some a) = Inl No_fuel"
| "u_Block_release (Suc fuel) m (Some a) =
     bind_r (block_at m a) (\<lambda>aBlock.
       let (new, r) = latching_decr_int (bflags aBlock);
           m1 = set_cell a (Block (aBlock\<lparr>bflags := new\<rparr>)) m in
       if r AND BLOCK_REFCOUNT_MASK \<noteq> 0 then Inr m1
       else if new AND BLOCK_IS_GC \<noteq> 0 then Inr (m1\<lparr>refcounted := refcounted m1 @ [(a, False)]\<rparr>)
       else if new AND BLOCK_NEEDS_FREE \<noteq> 0 then
         bind_r (if new AND BLOCK_HAS_COPY_DISPOSE \<noteq> 0
                 then dispose_helper (u_Block_object_dispose (u_Block_release fuel)) m1 (vars aBlock) else Inr m1) (\<lambda>m2.
           Inr (u_Block_deallocator a m2))
       else Inr m1)"

section \<open>Flags\<close>

lemma refcount_mask: "w AND BLOCK_REFCOUNT_MASK = take_bit 16 w"
proof -
  have "BLOCK_REFCOUNT_MASK = mask 16"
    by (simp add: BLOCK_REFCOUNT_MASK_def mask_eq_exp_minus_1)
  then show ?thesis
    by (simp add: take_bit_eq_mask)
qed

lemma flag_bits:
  "w AND BLOCK_NEEDS_FREE = 0 \<longleftrightarrow> \<not> bit w 24" "w AND BLOCK_HAS_COPY_DISPOSE = 0 \<longleftrightarrow> \<not> bit w 25"
  "w AND BLOCK_IS_GC = 0 \<longleftrightarrow> \<not> bit w 27" "w AND BLOCK_IS_GLOBAL = 0 \<longleftrightarrow> \<not> bit w 28"
  using and_exp_eq_0_iff_not_bit [of w 24] and_exp_eq_0_iff_not_bit [of w 25] and_exp_eq_0_iff_not_bit [of w 27]
    and_exp_eq_0_iff_not_bit [of w 28]
  by (simp_all add: block_flags)

lemma and_exp_eq_exp: "k < 32 \<Longrightarrow> (w :: u32) AND 2 ^ k = 2 ^ k \<longleftrightarrow> bit w k"
  by (auto simp: bit_eq_iff [where 'a = "32 word"] bit_simps)

lemma needs_free_eq: "w AND BLOCK_NEEDS_FREE = BLOCK_NEEDS_FREE \<longleftrightarrow> bit w 24"
  using and_exp_eq_exp [of 24 w] by (simp add: BLOCK_NEEDS_FREE_def)

definition refs :: "u32 \<Rightarrow> nat" where
  "refs w = unat (take_bit 16 w)"

lemma refs_mod: "refs w = unat w mod 65536"
  unfolding refs_def unsigned_take_bit_eq by (simp add: take_bit_eq_mod)

lemma refs_le: "refs w \<le> 65535"
  by (simp add: refs_mod)

lemma refs_eqs: "take_bit 16 w = 0xffff \<longleftrightarrow> refs w = 65535" "take_bit 16 w = 0 \<longleftrightarrow> refs w = 0"
  by (simp_all add: refs_def word_unat_eq_iff)

lemma mask_tests:
  "w AND BLOCK_REFCOUNT_MASK = BLOCK_REFCOUNT_MASK \<longleftrightarrow> refs w = 65535" "w AND BLOCK_REFCOUNT_MASK = 0 \<longleftrightarrow> refs w = 0"
  "refs BLOCK_REFCOUNT_MASK = 65535" "refs 0 = 0"
  unfolding refcount_mask refs_eqs(1) [symmetric] by (simp_all add: BLOCK_REFCOUNT_MASK_def refs_eqs refs_mod)

lemma incr_flags:
  assumes "refs w < 65535"
  shows "refs (w + 1) = refs w + 1" "drop_bit 16 (w + 1) = drop_bit 16 w"
proof -
  have "unat w < 2 ^ LENGTH(32)"
    by (rule unsigned_less)
  moreover have "unat w \<noteq> 4294967295"
    using assms by (auto simp: refs_mod)
  ultimately have l: "unat w + 1 < 2 ^ 32"
    by simp
  then have tb: "take_bit 32 (unat w) = unat w" "take_bit 32 (Suc (unat w)) = Suc (unat w)"
    by (simp_all add: take_bit_nat_eq_self)
  from l have u: "unat (w + 1) = unat w + 1"
    by (simp add: unat_plus_if')
  then show "refs (w + 1) = refs w + 1"
    using assms by (simp add: refs_mod mod_Suc)
  have "(unat w + 1) div 65536 = unat w div 65536"
    using assms by (simp add: refs_mod div_Suc mod_Suc)
  then show "drop_bit 16 (w + 1) = drop_bit 16 w"
    using u tb unfolding word_unat_eq_iff unsigned_drop_bit_eq by (simp add: drop_bit_eq_div)
qed


lemma decr_flags:
  assumes "0 < refs w"
  shows "refs (w - 1) = refs w - 1" "drop_bit 16 (w - 1) = drop_bit 16 w"
proof -
  have w: "w - 1 + 1 = w"
    by simp
  have "w \<noteq> 0"
    using assms by (auto simp: refs_mod)
  then have u: "unat (w - 1) + 1 = unat w"
    using unat_minus_one [of w] by (simp add: Suc_pred unat_gt_0)
  have "refs w = (if refs (w - 1) = 65535 then 0 else refs (w - 1) + 1)"
    unfolding refs_mod u [symmetric] by (simp add: mod_Suc)
  then have r: "refs (w - 1) < 65535"
    using assms refs_le [of "w - 1"] by (auto split: if_splits)
  show "refs (w - 1) = refs w - 1" "drop_bit 16 (w - 1) = drop_bit 16 w"
    using incr_flags [OF r] by simp_all
qed

lemma high_bit: "drop_bit 16 v = drop_bit 16 (w :: u32) \<Longrightarrow> 16 \<le> n \<Longrightarrow> bit v n = bit w n"
  using bit_drop_bit_eq [of 16 v] bit_drop_bit_eq [of 16 w] by (metis comp_apply le_add_diff_inverse)

text \<open>
  The count is exact up to 65534 and latches at 65535; the flags above it are never touched.
\<close>

lemma latching_incr_refs:
  "refs (fst (latching_incr_int w)) = min 65535 (refs w + 1)" "drop_bit 16 (fst (latching_incr_int w)) = drop_bit 16 w"
  "refs (snd (latching_incr_int w)) = min 65535 (refs w + 1)"
  using incr_flags [of w] refs_le [of w]
  by (auto simp: latching_incr_int_def mask_tests min_def)

lemma latching_decr_refs:
  "refs (fst (latching_decr_int w)) = (if refs w = 65535 then 65535 else refs w - 1)"
  "drop_bit 16 (fst (latching_decr_int w)) = drop_bit 16 w"
  "refs (snd (latching_decr_int w)) = (if refs w = 65535 then 65535 else refs w - 1)"
  using decr_flags [of w] refs_le [of w]
  by (auto simp: latching_decr_int_def mask_tests)

lemmas latching_bits = high_bit [OF latching_incr_refs(2)] high_bit [OF latching_decr_refs(2)]

section \<open>Copies and releases of one block\<close>

datatype bop = Copy | Release

text \<open>A sequence of \<open>Block_copy\<close> and \<open>Block_release\<close> on one block, and the count it stands for: a number that
  sticks at 65535, and \<open>None\<close> once the block is gone.\<close>

fun block_ops :: "nat \<Rightarrow> bop list \<Rightarrow> bmem \<Rightarrow> nat \<Rightarrow> bmem bresult" where
  "block_ops fuel [] m a = Inr m"
| "block_ops fuel (Copy # ops) m a = bind_r (u_Block_copy fuel m (Some a)) (\<lambda>(m1, _). block_ops fuel ops m1 a)"
| "block_ops fuel (Release # ops) m a = bind_r (u_Block_release fuel m (Some a)) (\<lambda>m1. block_ops fuel ops m1 a)"

fun count_op :: "bop \<Rightarrow> nat \<Rightarrow> nat" where
  "count_op Copy n = min 65535 (n + 1)"
| "count_op Release n = (if n = 65535 then n else n - 1)"

fun count_ops :: "bop list \<Rightarrow> nat \<Rightarrow> nat option" where
  "count_ops [] n = (if n = 0 then None else Some n)"
| "count_ops (op # ops) n = (if n = 0 then None else count_ops ops (count_op op n))"

definition heap_block :: "block_layout \<Rightarrow> bool" where
  "heap_block b = (bit (bflags b) 24 \<and> \<not> bit (bflags b) 27)"

lemma block_at_iff: "block_at m a = Inr b \<longleftrightarrow> a < length (cells m) \<and> cells m ! a = Block b"
  by (auto simp: block_at_def split: cell.splits if_splits)

lemma byref_at_iff: "byref_at m a = Inr b \<longleftrightarrow> a < length (cells m) \<and> cells m ! a = Byref b"
  by (auto simp: byref_at_def split: cell.splits if_splits)

lemma set_cell_simps [simp]:
  "cells (set_cell a c m) = (cells m)[a := c]" "isGC (set_cell a c m) = isGC m" "heap_limit (set_cell a c m) = heap_limit m"
  "retained (set_cell a c m) = retained m" "released (set_cell a c m) = released m"
  "refcounted (set_cell a c m) = refcounted m" "set_cell a c (set_cell a d m) = set_cell a c m"
  by (simp_all add: set_cell_def)

lemma copy_heap_block:
  assumes "block_at m a = Inr b" "heap_block b"
  shows "u_Block_copy (Suc fuel) m (Some a) =
    Inr (set_cell a (Block (b\<lparr>bflags := fst (latching_incr_int (bflags b))\<rparr>)) m, Some a)"
  using assms by (simp add: u_Block_copy_def heap_block_def flag_bits)

lemma release_heap_block:
  assumes "block_at m a = Inr b" "refs (bflags b) > 1"
  shows "u_Block_release (Suc fuel) m (Some a) =
    Inr (set_cell a (Block (b\<lparr>bflags := fst (latching_decr_int (bflags b))\<rparr>)) m)"
  using assms latching_decr_refs(3) [of "bflags b"]
  by (cases "latching_decr_int (bflags b)") (auto simp: mask_tests split: if_splits)

lemma heap_block_latch:
  "heap_block (b\<lparr>bflags := fst (latching_incr_int (bflags b))\<rparr>) = heap_block b"
  "heap_block (b\<lparr>bflags := fst (latching_decr_int (bflags b))\<rparr>) = heap_block b"
  by (simp_all add: heap_block_def latching_bits)

text \<open>
  C27: The reference count of a block is exact.  For every sequence of copies and releases of a block on the heap that
  does not use up its references, the runtime succeeds, leaves every other cell of the memory and every flag alone, and
  the count is the number of references, saturating at 65535 instead of running into the flags.
\<close>

theorem block_refcount_exact:
  assumes "block_at m a = Inr b" "heap_block b" "count_ops ops (refs (bflags b)) = Some k"
  shows "\<exists>f. block_ops (Suc fuel) ops m a = Inr (set_cell a (Block (b\<lparr>bflags := f\<rparr>)) m) \<and> refs f = k \<and>
    drop_bit 16 f = drop_bit 16 (bflags b)"
  using assms
proof (induction ops arbitrary: m b)
  case Nil
  then have "set_cell a (Block b) m = m"
    by (simp add: set_cell_def block_at_iff list_update_same_conv)
  then show ?case
    using Nil by (auto intro!: exI [of _ "bflags b"] split: if_splits)
next
  case (Cons op ops)
  let ?l = "case op of Copy \<Rightarrow> latching_incr_int | Release \<Rightarrow> latching_decr_int"
  let ?b = "b\<lparr>bflags := fst (?l (bflags b))\<rparr>" 
  let ?m = "set_cell a (Block ?b) m"
  have c: "refs (bflags ?b) = count_op op (refs (bflags b))" "drop_bit 16 (bflags ?b) = drop_bit 16 (bflags b)"
    by (cases op; simp add: latching_incr_refs latching_decr_refs)+
  have n: "count_ops ops (refs (bflags ?b)) = Some k" "0 < refs (bflags b)"
    using Cons.prems(3) c by (auto split: if_splits)
  have "block_at ?m a = Inr ?b" "heap_block ?b"
    using Cons.prems(1,2) by (cases op; simp add: block_at_iff heap_block_latch)+
  from Cons.IH [OF this n(1)] obtain f where f: "block_ops (Suc fuel) ops ?m a = Inr (set_cell a (Block (b\<lparr>bflags := f\<rparr>)) m)"
      "refs f = k" "drop_bit 16 f = drop_bit 16 (bflags ?b)"
    by auto
  have "op = Release \<Longrightarrow> 1 < refs (bflags b)"
    using n c by (cases ops) (auto split: if_splits)
  then have "block_ops (Suc fuel) (op # ops) m a = block_ops (Suc fuel) ops ?m a"
    using copy_heap_block [OF Cons.prems(1,2)] release_heap_block [OF Cons.prems(1)]
    by (cases op) (simp_all del: u_Block_release.simps)
  then show ?case
    using f c(2) by auto
qed

section \<open>Variables that blocks share\<close>

text \<open>The copies of a \<open>__block\<close> variable that copied blocks ask for, and the releases.\<close>

fun byref_copies :: "nat \<Rightarrow> bmem \<Rightarrow> nat \<Rightarrow> (bmem \<times> ptr list) bresult" where
  "byref_copies 0 m a = Inr (m, [])"
| "byref_copies (Suc n) m a =
     bind_r (u_Block_byref_assign_copy m a BLOCK_FIELD_IS_BYREF) (\<lambda>(m1, p).
     bind_r (byref_copies n m1 a) (\<lambda>(m2, ps). Inr (m2, p # ps)))"

fun byref_releases :: "nat \<Rightarrow> bmem \<Rightarrow> nat \<Rightarrow> bmem bresult" where
  "byref_releases 0 m a = Inr m"
| "byref_releases (Suc n) m a = bind_r (u_Block_byref_release m a) (\<lambda>m1. byref_releases n m1 a)"

text \<open>A variable on the stack that no block has copied yet, and one whose heap copy is at \<open>h\<close> with \<open>n\<close> references.\<close>

definition stack_byref :: "bmem \<Rightarrow> nat \<Rightarrow> block_byref \<Rightarrow> bool" where
  "stack_byref m a v =
     (byref_at m a = Inr v \<and> forwarding v = a \<and> refs (ref_flags v) = 0 \<and> \<not> bit (ref_flags v) 24 \<and> \<not> bit (ref_flags v) 27)"

definition shared_byref :: "bmem \<Rightarrow> nat \<Rightarrow> nat \<Rightarrow> nat \<Rightarrow> ptr \<Rightarrow> bool" where
  "shared_byref m a h n x =
     (a \<noteq> h \<and> \<not> isGC m \<and>
      (\<exists>s v. byref_at m a = Inr s \<and> forwarding s = h \<and> byref_at m h = Inr v \<and> forwarding v = h \<and> held v = x \<and>
             refs (ref_flags v) = n \<and> bit (ref_flags v) 24 \<and> \<not> bit (ref_flags v) 27))"

lemma initial_flags: "refs (w OR (BLOCK_NEEDS_FREE OR 2)) = refs (w OR 2)" "bit (w OR (BLOCK_NEEDS_FREE OR 2)) 24"
  "bit (w OR (BLOCK_NEEDS_FREE OR 2)) 27 = bit w 27"
proof -
  have "take_bit 16 (w OR (BLOCK_NEEDS_FREE OR 2)) = take_bit 16 (w OR 2)"
    unfolding take_bit_or BLOCK_NEEDS_FREE_def by simp
  then show "refs (w OR (BLOCK_NEEDS_FREE OR 2)) = refs (w OR 2)"
    by (simp add: refs_def)
  have "bit (BLOCK_NEEDS_FREE OR 2) 24" "\<not> bit (BLOCK_NEEDS_FREE OR 2) 27"
    using flag_bits(1,3) [of "BLOCK_NEEDS_FREE OR 2"] by (simp_all add: block_flags)
  then show "bit (w OR (BLOCK_NEEDS_FREE OR 2)) 24" "bit (w OR (BLOCK_NEEDS_FREE OR 2)) 27 = bit w 27"
    by (simp_all only: bit_or_iff [of w]) simp_all
qed

lemma refs_or_2: "refs w = 0 \<Longrightarrow> refs (w OR 2) = 2"
  by (simp add: refs_def take_bit_or unat_eq_0)

lemma byref_copy_stack:
  assumes s: "stack_byref m a v" and gc: "\<not> isGC m" and room: "length (cells m) < heap_limit m"
  shows "\<exists>m'. u_Block_byref_assign_copy m a BLOCK_FIELD_IS_BYREF = Inr (m', Some (length (cells m))) \<and>
    shared_byref m' a (length (cells m)) 2 (held v)"
proof -
  have v: "a < length (cells m)" "cells m ! a = Byref v" "byref_at m a = Inr v" "forwarding v = a"
    and f: "refs (ref_flags v) = 0" "\<not> bit (ref_flags v) 27"
    using s by (simp_all add: stack_byref_def byref_at_iff)
  let ?h = "length (cells m)"
  have w: "BLOCK_FIELD_IS_BYREF AND (BLOCK_FIELD_IS_BYREF OR BLOCK_FIELD_IS_WEAK) \<noteq> BLOCK_FIELD_IS_BYREF OR BLOCK_FIELD_IS_WEAK"
    by (simp add: block_flags)
  let ?c = "v\<lparr>ref_flags := ref_flags v OR (BLOCK_NEEDS_FREE OR 2), forwarding := ?h, ref_isa := No_isa\<rparr>"
  let ?m = "set_cell a (Byref (v\<lparr>forwarding := ?h\<rparr>)) (m\<lparr>cells := cells m @ [Byref ?c]\<rparr>)"
  have e: "u_Block_byref_assign_copy m a BLOCK_FIELD_IS_BYREF = Inr (?m, Some ?h)"
    using v f gc room w by (simp add: u_Block_byref_assign_copy_def flag_bits mask_tests alloc_cell_def Let_def)
  have "byref_at ?m a = Inr (v\<lparr>forwarding := ?h\<rparr>)" "byref_at ?m ?h = Inr ?c"
    using v by (simp_all add: byref_at_iff nth_append)
  then have "shared_byref ?m a ?h 2 (held v)"
    using v f gc by (auto simp: shared_byref_def initial_flags refs_or_2)
  with e show ?thesis
    by blast
qed

lemma shared_byref_step:
  assumes s: "shared_byref m a h n x" and b: "drop_bit 16 f = drop_bit 16 (ref_flags v)" and v: "byref_at m h = Inr v"
  shows "shared_byref (set_cell h (Byref (v\<lparr>ref_flags := f\<rparr>)) m) a h (refs f) x"
  using s v high_bit [OF b, of 24] high_bit [OF b, of 27] by (auto simp: shared_byref_def byref_at_iff)

lemma byref_copy_shared:
  assumes s: "shared_byref m a h n x" and n: "0 < n" "n < 65535"
  shows "\<exists>m'. u_Block_byref_assign_copy m a BLOCK_FIELD_IS_BYREF = Inr (m', Some h) \<and> shared_byref m' a h (n + 1) x"
proof -
  obtain t v where v: "byref_at m a = Inr t" "forwarding t = h" "byref_at m h = Inr v" "refs (ref_flags v) = n"
    "bit (ref_flags v) 24" "\<not> bit (ref_flags v) 27"
    using s by (auto simp: shared_byref_def)
  then have "u_Block_byref_assign_copy m a BLOCK_FIELD_IS_BYREF =
      Inr (set_cell h (Byref (v\<lparr>ref_flags := fst (latching_incr_int (ref_flags v))\<rparr>)) m, Some h)"
    using n by (simp add: u_Block_byref_assign_copy_def flag_bits mask_tests needs_free_eq)
  moreover have "refs (fst (latching_incr_int (ref_flags v))) = n + 1"
    using v(4) n by (simp add: latching_incr_refs)
  ultimately show ?thesis
    using shared_byref_step [OF s latching_incr_refs(2) v(3)] by simp
qed

lemma byref_release_shared:
  assumes s: "shared_byref m a h n x" and n: "0 < n" "n < 65535"
  shows "\<exists>m'. u_Block_byref_release m a = Inr m' \<and>
    (if n = 1 then cells m' ! h = Freed else shared_byref m' a h (n - 1) x)"
proof -
  obtain t v where v: "byref_at m a = Inr t" "forwarding t = h" "byref_at m h = Inr v" "refs (ref_flags v) = n"
    "bit (ref_flags v) 24" "\<not> isGC m"
    using s by (auto simp: shared_byref_def)
  let ?l = "latching_decr_int (ref_flags v)"
  let ?m = "set_cell h (Byref (v\<lparr>ref_flags := fst ?l\<rparr>)) m"
  have "u_Block_byref_release m a = Inr (if refs (snd ?l) = 0 then u_Block_deallocator h ?m else ?m)"
    using v n by (simp add: u_Block_byref_release_def flag_bits mask_tests Let_def split: prod.splits)
  then show ?thesis
    using shared_byref_step [OF s latching_decr_refs(2) v(3)] v n
    by (auto simp: latching_decr_refs u_Block_deallocator_def byref_at_iff)
qed

lemma byref_copies_shared:
  assumes "shared_byref m a h k x" "0 < k" "k + n \<le> 65535"
  shows "\<exists>m'. byref_copies n m a = Inr (m', replicate n (Some h)) \<and> shared_byref m' a h (k + n) x"
  using assms
proof (induction n arbitrary: m k)
  case (Suc n)
  obtain m1 where m1: "u_Block_byref_assign_copy m a BLOCK_FIELD_IS_BYREF = Inr (m1, Some h)" "shared_byref m1 a h (k + 1) x"
    using byref_copy_shared [OF Suc.prems(1,2)] Suc.prems(3) by auto
  then show ?case
    using Suc.IH [OF m1(2)] Suc.prems(3) by auto
qed simp

lemma byref_releases_shared:
  assumes "shared_byref m a h n x" "n < 65535" "j < n"
  shows "\<exists>m'. byref_releases j m a = Inr m' \<and> shared_byref m' a h (n - j) x"
  using assms
proof (induction j arbitrary: m n)
  case (Suc j)
  obtain m1 where "u_Block_byref_release m a = Inr m1" "shared_byref m1 a h (n - 1) x"
    using byref_release_shared [OF Suc.prems(1)] Suc.prems(2,3) by auto
  then show ?case
    using Suc.IH [of m1 "n - 1"] Suc.prems(2,3) by auto
qed auto

lemma byref_releases_Suc: "byref_releases (Suc j) m a = bind_r (byref_releases j m a) (\<lambda>m'. u_Block_byref_release m' a)"
proof (induction j arbitrary: m)
  case 0
  then show ?case by (cases "u_Block_byref_release m a") auto
next
  case (Suc j)
  then show ?case by (cases "u_Block_byref_release m a") auto
qed

text \<open>
  C28: Blocks share their \<open>__block\<close> variables.  When copied blocks ask for a variable that is still on the stack, the first
  one moves it to the heap and every one gets the same heap copy, to which the variable on the stack forwards; the heap
  copy counts one reference per copied block and one for the stack, it stays alive until the last of these references
  is released, and the last release frees it.
\<close>

theorem byref_shared_until_last_release:
  assumes "stack_byref m a v" "\<not> isGC m" "length (cells m) < heap_limit m" "n + 2 < 65535"
  shows "\<exists>m' h. byref_copies (Suc n) m a = Inr (m', replicate (Suc n) (Some h)) \<and> shared_byref m' a h (n + 2) (held v) \<and>
    (\<forall>j < n + 2. \<exists>mj. byref_releases j m' a = Inr mj \<and> shared_byref mj a h (n + 2 - j) (held v)) \<and>
    (\<exists>me. byref_releases (n + 2) m' a = Inr me \<and> cells me ! h = Freed)"
proof -
  let ?h = "length (cells m)"
  obtain m1 where m1: "u_Block_byref_assign_copy m a BLOCK_FIELD_IS_BYREF = Inr (m1, Some ?h)" "shared_byref m1 a ?h 2 (held v)"
    using byref_copy_stack [OF assms(1-3)] by auto
  obtain m' where m': "byref_copies n m1 a = Inr (m', replicate n (Some ?h))" "shared_byref m' a ?h (n + 2) (held v)"
    using byref_copies_shared [OF m1(2), of n] assms(4) by (auto simp: add.commute)
  have j: "\<exists>mj. byref_releases j m' a = Inr mj \<and> shared_byref mj a ?h (n + 2 - j) (held v)" if "j < n + 2" for j
    using byref_releases_shared [OF m'(2) assms(4) that] .
  then obtain ml where ml: "byref_releases (n + 1) m' a = Inr ml" "shared_byref ml a ?h 1 (held v)"
    using j [of "n + 1"] by auto
  then obtain me where "byref_releases (n + 2) m' a = Inr me" "cells me ! ?h = Freed"
    using byref_release_shared [OF ml(2)] byref_releases_Suc [of "n + 1" m' a] by (auto simp del: byref_releases.simps)
  then show ?thesis
    using m1 m' j by (intro exI [of _ m'] exI [of _ ?h]) (auto simp del: byref_releases.simps)
qed

text \<open>Witnesses: a block with one reference, and a variable on the stack.\<close>

definition example_mem :: "cell list \<Rightarrow> bmem" where
  "example_mem cs = \<lparr>cells = cs, isGC = False, heap_limit = 10, retained = [], released = [], refcounted = []\<rparr>"

definition example_block :: block_layout where
  "example_block = \<lparr>isa = NSConcreteMallocBlock, bflags = 0x21000001, bsize = 32, vars = []\<rparr>"

definition example_byref :: block_byref where
  "example_byref = \<lparr>ref_isa = No_isa, forwarding = 0, ref_flags = 0, ref_size = 32, held = Some 5\<rparr>"

theorem block_refcount_exact_witness:
  "\<exists>f. block_ops 1 [Copy, Copy, Release] (example_mem [Block example_block]) 0 =
      Inr (set_cell 0 (Block (example_block\<lparr>bflags := f\<rparr>)) (example_mem [Block example_block])) \<and> refs f = 2 \<and>
    drop_bit 16 f = 0x2100"
proof -
  have r: "refs (bflags example_block) = 1"
    by (simp add: refs_mod example_block_def)
  have "heap_block example_block"
    using flag_bits(1,3) [of "bflags example_block"] by (simp add: heap_block_def example_block_def block_flags)
  moreover have "block_at (example_mem [Block example_block]) 0 = Inr example_block"
    by (simp add: block_at_def example_mem_def)
  moreover have "count_ops [Copy, Copy, Release] (refs (bflags example_block)) = Some 2"
    by (simp add: r)
  ultimately show ?thesis
    using block_refcount_exact [of "example_mem [Block example_block]" 0 example_block "[Copy, Copy, Release]" 2 0]
    by (simp add: example_block_def drop_bit_eq_div)
qed

theorem byref_shared_until_last_release_witness:
  "\<exists>m' h me. byref_copies 2 (example_mem [Byref example_byref]) 0 = Inr (m', [Some h, Some h]) \<and>
     shared_byref m' 0 h 3 (Some 5) \<and> byref_releases 3 m' 0 = Inr me \<and> cells me ! h = Freed"
proof -
  have "stack_byref (example_mem [Byref example_byref]) 0 example_byref"
    by (simp add: stack_byref_def byref_at_def example_mem_def example_byref_def refs_mod)
  then show ?thesis
    using byref_shared_until_last_release [of "example_mem [Byref example_byref]" 0 example_byref 1]
    by (auto simp: numeral_2_eq_2 numeral_3_eq_3 example_mem_def example_byref_def simp del: byref_copies.simps byref_releases.simps)
qed

end
