(* ===== verification/Pwq_Manager.thy ===== *)
theory Pwq_Manager
  imports Dispatch_Prelude
begin

text \<open>
  The user-space work queues of \<open>libpthread_workqueue\<close>, \<open>src/api.c\<close>, \<open>src/witem_cache.c\<close> and \<open>src/posix/manager.c\<close>,
  in the Linux build.  The static variables of \<open>manager.c\<close> are the record \<open>manager\<close>; a queue is the
  slot of its table that holds it.  What the code does under one lock is one definition.  The results of
  system calls are arguments.
\<close>

section \<open>Data\<close>

definition PTHREAD_WORKQUEUE_MAX :: nat where "PTHREAD_WORKQUEUE_MAX = 31"

definition WORKQ_NUM_PRIOQUEUE :: int where "WORKQ_NUM_PRIOQUEUE = 4"

definition PTHREAD_WORKQUEUE_SIG :: u32 where "PTHREAD_WORKQUEUE_SIG = 0xBEBEBEBE"

definition PTHREAD_WORKQUEUE_ATTR_SIG :: u32 where "PTHREAD_WORKQUEUE_ATTR_SIG = 0xBEBEBEBE"

definition WORKQ_HIGH_PRIOQUEUE :: int where "WORKQ_HIGH_PRIOQUEUE = 0"

definition WORKQ_DEFAULT_PRIOQUEUE :: int where "WORKQ_DEFAULT_PRIOQUEUE = 1"

definition WORKQ_LOW_PRIOQUEUE :: int where "WORKQ_LOW_PRIOQUEUE = 2"

definition WORKQ_BG_PRIOQUEUE :: int where "WORKQ_BG_PRIOQUEUE = 3"

definition WORKER_IDLE_SECONDS_THRESHOLD :: u32 where "WORKER_IDLE_SECONDS_THRESHOLD = 15"

definition DEFAULT_PROCESS_LIMIT :: u32 where "DEFAULT_PROCESS_LIMIT = 100"

text \<open>A work item.  One without a function asks a worker to exit.\<close>

record work =
  func :: "nat option"
  func_arg :: nat
  wi_flags :: u32
  gencount :: u32

record workqueue =
  wq_sig :: u32
  wq_flags :: u32
  queueprio :: int
  overcommit :: bool
  wqlist_index :: nat
  item_list :: "work list"

record workqueue_attr =
  at_sig :: u32
  at_queueprio :: int
  at_overcommit :: bool

record scoreboard =
  runqueue_length :: u32
  sb_count :: u32
  sb_idle :: u32
  sb_sem :: nat
  sb_suspend :: bool

record manager =
  cpu_count :: u32
  worker_min :: u32
  worker_idle_threshold :: u32
  pending_thread_create :: u32
  ocwq :: "workqueue option list"
  ocwq_mask :: u32
  ocwq_idle_threads :: u32
  ocwq_signal_count :: u32
  wqlist :: "workqueue option list"
  wqlist_mask :: u32
  wqlist_has_manager :: bool
  board :: scoreboard

text \<open>Error numbers of the API, and the two ways in which the library stops the program.\<close>

datatype pwq_error =
    EINVAL
  | ENOMEM
  | Abort
  | Null_queue

text \<open>The static variables before the first call.\<close>

definition manager_static :: manager where
  "manager_static =
     \<lparr>cpu_count = 0, worker_min = 0, worker_idle_threshold = 0, pending_thread_create = 0,
      ocwq = replicate PTHREAD_WORKQUEUE_MAX None, ocwq_mask = 0, ocwq_idle_threads = 0, ocwq_signal_count = 0,
      wqlist = replicate PTHREAD_WORKQUEUE_MAX None, wqlist_mask = 0, wqlist_has_manager = False,
      board = \<lparr>runqueue_length = 0, sb_count = 0, sb_idle = 0, sb_sem = 0, sb_suspend = False\<rparr>\<rparr>"

section \<open>Work items\<close>

definition witem_alloc :: "nat option \<Rightarrow> nat \<Rightarrow> work" where
  "witem_alloc f arg = \<lparr>func = f, func_arg = arg, wi_flags = 0, gencount = 0\<rparr>"

section \<open>Initialisation\<close>

definition worker_idle_threshold_per_cpu :: "u32 \<Rightarrow> u32" where
  "worker_idle_threshold_per_cpu cpus =
     (if cpus \<in> {0, 1, 2, 4} then 2
      else if cpus = 6 then 4
      else if cpus \<in> {8, 12} then 6
      else if cpus \<in> {16, 24} then 8
      else if cpus \<in> {32, 64} then 12
      else cpus div 4)"

text \<open>
  \<open>manager_init\<close> with the number of processors, \<open>PWQ_ACTIVE_CPU\<close> and the results of \<open>sem_init\<close> and
  \<open>pthread_atfork\<close>.  It does not touch the tables of queues.
\<close>

definition manager_init :: "u32 \<Rightarrow> u32 \<Rightarrow> int \<Rightarrow> int \<Rightarrow> manager \<Rightarrow> manager \<times> int" where
  "manager_init nproc active sem_init_rv atfork_rv mg =
     (let mg1 = mg\<lparr>wqlist_has_manager := False, wqlist_mask := 0, pending_thread_create := 0,
                   ocwq_mask := 0, ocwq_idle_threads := 0, ocwq_signal_count := 0,
                   cpu_count := (if active > 0 then active else nproc)\<rparr> in
      if sem_init_rv \<noteq> 0 then (mg1, - 1)
      else
        (let mg2 = mg1\<lparr>board := \<lparr>runqueue_length = runqueue_length (board mg1), sb_count = 0, sb_idle = 0, sb_sem = 0, sb_suspend = False\<rparr>,
                       worker_min := 2,
                       worker_idle_threshold :=
                         (if active > 0 then active else worker_idle_threshold_per_cpu (cpu_count mg1))\<rparr> in
         (mg2, if atfork_rv < 0 then - 1 else 0)))"

text \<open>The handler that \<open>manager_init\<close> registers for the child of a fork.\<close>

definition manager_reinit :: "u32 \<Rightarrow> u32 \<Rightarrow> int \<Rightarrow> int \<Rightarrow> manager \<Rightarrow> pwq_error + manager" where
  "manager_reinit nproc active sem_init_rv atfork_rv mg =
     (case manager_init nproc active sem_init_rv atfork_rv mg of (mg1, rv) \<Rightarrow> if rv < 0 then Inl Abort else Inr mg1)"

text \<open>\<open>pthread_workqueue_init_np\<close>; the flag is its static \<open>pwq_initialized\<close>.\<close>

definition pthread_workqueue_init_np ::
  "u32 \<Rightarrow> u32 \<Rightarrow> int \<Rightarrow> int \<Rightarrow> bool \<Rightarrow> manager \<Rightarrow> (bool \<times> manager) \<times> int" where
  "pthread_workqueue_init_np nproc active sem_init_rv atfork_rv pwq_initialized mg =
     (if pwq_initialized then ((True, mg), 0)
      else (case manager_init nproc active sem_init_rv atfork_rv mg of
              (mg1, rv) \<Rightarrow> if rv < 0 then ((False, mg1), - 1) else ((True, mg1), 0)))"

section \<open>Creating queues\<close>

text \<open>
  \<open>manager_start\<close>, with the results of the successive calls of \<open>pthread_create\<close>: \<open>EAGAIN\<close> (11) is tried again.
  \<open>None\<close>: the calls given do not yet end the loop.
\<close>

fun manager_start :: "nat list \<Rightarrow> manager \<Rightarrow> (pwq_error + manager) option" where
  "manager_start [] mg = None"
| "manager_start (rv # rvs) mg =
     (if rv = 11 then manager_start rvs mg
      else if rv \<noteq> 0 then Some (Inl Abort)
      else Some (Inr (mg\<lparr>wqlist_has_manager := True\<rparr>)))"

definition register_queue :: "workqueue \<Rightarrow> manager \<Rightarrow> pwq_error + manager" where
  "register_queue workq mg =
     (let p = nat (queueprio workq) in
      if overcommit workq then
        (if ocwq mg ! p = None then Inr (mg\<lparr>ocwq := (ocwq mg)[p := Some (workq\<lparr>wqlist_index := p\<rparr>)]\<rparr>) else Inl Abort)
      else
        (if wqlist mg ! p = None then Inr (mg\<lparr>wqlist := (wqlist mg)[p := Some (workq\<lparr>wqlist_index := p\<rparr>)]\<rparr>) else Inl Abort))"

definition manager_workqueue_create :: "nat list \<Rightarrow> workqueue \<Rightarrow> manager \<Rightarrow> (pwq_error + manager) option" where
  "manager_workqueue_create rvs workq mg =
     (if \<not> overcommit workq \<and> \<not> wqlist_has_manager mg then
        (case manager_start rvs mg of
           None \<Rightarrow> None
         | Some (Inl e) \<Rightarrow> Some (Inl e)
         | Some (Inr mg1) \<Rightarrow> Some (register_queue workq mg1))
      else Some (register_queue workq mg))"

definition pthread_workqueue_create_np ::
  "bool \<Rightarrow> nat list \<Rightarrow> workqueue_attr option \<Rightarrow> manager \<Rightarrow> (pwq_error + manager) option" where
  "pthread_workqueue_create_np calloc_ok rvs attr mg =
     (let bad = (case attr of None \<Rightarrow> False
                 | Some a \<Rightarrow> at_sig a \<noteq> PTHREAD_WORKQUEUE_ATTR_SIG \<or> at_queueprio a < 0 \<or> at_queueprio a \<ge> WORKQ_NUM_PRIOQUEUE);
          workq = \<lparr>wq_sig = PTHREAD_WORKQUEUE_SIG, wq_flags = 0,
                   queueprio = (case attr of None \<Rightarrow> WORKQ_DEFAULT_PRIOQUEUE | Some a \<Rightarrow> at_queueprio a),
                   overcommit = (case attr of None \<Rightarrow> False | Some a \<Rightarrow> at_overcommit a),
                   wqlist_index = 0, item_list = []\<rparr> in
      if bad then Some (Inl EINVAL)
      else if \<not> calloc_ok then Some (Inl ENOMEM)
      else manager_workqueue_create rvs workq mg)"

section \<open>Attributes\<close>

definition pthread_workqueue_attr_init_np :: workqueue_attr where
  "pthread_workqueue_attr_init_np =
     \<lparr>at_sig = PTHREAD_WORKQUEUE_ATTR_SIG, at_queueprio = WORKQ_DEFAULT_PRIOQUEUE, at_overcommit = False\<rparr>"

definition pthread_workqueue_attr_destroy_np :: "workqueue_attr \<Rightarrow> pwq_error + unit" where
  "pthread_workqueue_attr_destroy_np attr = (if at_sig attr = PTHREAD_WORKQUEUE_ATTR_SIG then Inr () else Inl EINVAL)"

definition pthread_workqueue_attr_getovercommit_np :: "workqueue_attr \<Rightarrow> pwq_error + bool" where
  "pthread_workqueue_attr_getovercommit_np attr =
     (if at_sig attr = PTHREAD_WORKQUEUE_ATTR_SIG then Inr (at_overcommit attr) else Inl EINVAL)"

definition pthread_workqueue_attr_setovercommit_np :: "workqueue_attr \<Rightarrow> bool \<Rightarrow> pwq_error + workqueue_attr" where
  "pthread_workqueue_attr_setovercommit_np attr ocomm =
     (if at_sig attr = PTHREAD_WORKQUEUE_ATTR_SIG then Inr (attr\<lparr>at_overcommit := ocomm\<rparr>) else Inl EINVAL)"

definition pthread_workqueue_attr_getqueuepriority_np :: "workqueue_attr \<Rightarrow> pwq_error + int" where
  "pthread_workqueue_attr_getqueuepriority_np attr =
     (if at_sig attr = PTHREAD_WORKQUEUE_ATTR_SIG then Inr (at_queueprio attr) else Inl EINVAL)"

definition pthread_workqueue_attr_setqueuepriority_np :: "workqueue_attr \<Rightarrow> int \<Rightarrow> pwq_error + workqueue_attr" where
  "pthread_workqueue_attr_setqueuepriority_np attr qprio =
     (if at_sig attr = PTHREAD_WORKQUEUE_ATTR_SIG then
        (if qprio \<in> {WORKQ_HIGH_PRIOQUEUE, WORKQ_DEFAULT_PRIOQUEUE, WORKQ_LOW_PRIOQUEUE, WORKQ_BG_PRIOQUEUE}
         then Inr (attr\<lparr>at_queueprio := qprio\<rparr>) else Inl EINVAL)
      else Inl EINVAL)"

section \<open>Adding and taking items\<close>

text \<open>\<open>ffs\<close> of the C library: one more than the index of the lowest set bit, 0 for 0.\<close>

definition ffs :: "u32 \<Rightarrow> nat" where
  "ffs w = (case find (bit w) [0..<32] of None \<Rightarrow> 0 | Some i \<Rightarrow> Suc i)"

definition index_bit :: "nat \<Rightarrow> u32" where
  "index_bit i = push_bit i 1"

definition valid_workq :: "workqueue \<Rightarrow> bool" where
  "valid_workq workq = (wq_sig workq = PTHREAD_WORKQUEUE_SIG)"

definition append_item :: "work \<Rightarrow> workqueue \<Rightarrow> workqueue" where
  "append_item witem workq = workq\<lparr>item_list := item_list workq @ [witem]\<rparr>"

text \<open>
  \<open>manager_workqueue_additem\<close> on an overcommit queue, all under \<open>ocwq_mtx\<close>.  The flag of the result says that a
  new worker thread is to be created, and otherwise an idle one was signalled.
\<close>

definition additem_overcommit :: "nat \<Rightarrow> work \<Rightarrow> manager \<Rightarrow> pwq_error + (manager \<times> bool)" where
  "additem_overcommit p witem mg =
     (case ocwq mg ! p of
        None \<Rightarrow> Inl Null_queue
      | Some workq \<Rightarrow>
          (let mg1 = mg\<lparr>ocwq := (ocwq mg)[p := Some (append_item witem workq)],
                        ocwq_mask := ocwq_mask mg OR index_bit (wqlist_index workq)\<rparr> in
           if ocwq_idle_threads mg1 > 0
           then Inr (mg1\<lparr>ocwq_idle_threads := ocwq_idle_threads mg1 - 1,
                         ocwq_signal_count := ocwq_signal_count mg1 + 1\<rparr>, False)
           else Inr (mg1, True)))"

text \<open>The part of \<open>manager_workqueue_additem\<close> under the spin lock of another queue.\<close>

definition additem_enqueue :: "nat \<Rightarrow> work \<Rightarrow> manager \<Rightarrow> pwq_error + manager" where
  "additem_enqueue p witem mg =
     (case wqlist mg ! p of
        None \<Rightarrow> Inl Null_queue
      | Some workq \<Rightarrow>
          Inr (mg\<lparr>wqlist_mask := (if item_list workq = [] then wqlist_mask mg OR index_bit (wqlist_index workq) else wqlist_mask mg),
                  wqlist := (wqlist mg)[p := Some (append_item witem workq)]\<rparr>))"

text \<open>Several items added one after the other.\<close>

fun additems :: "nat \<Rightarrow> work list \<Rightarrow> manager \<Rightarrow> pwq_error + manager" where
  "additems p [] mg = Inr mg"
| "additems p (w # ws) mg = (case additem_enqueue p w mg of Inl e \<Rightarrow> Inl e | Inr mg1 \<Rightarrow> additems p ws mg1)"

text \<open>The rest of it, without a lock: whether a worker is signalled.\<close>

definition additem_signals :: "manager \<Rightarrow> bool" where
  "additem_signals mg = (sb_idle (board mg) > 0)"

text \<open>What the caller of \<open>manager_workqueue_additem\<close> causes in the pool.\<close>

datatype wakeup =
    Signal_worker
  | No_wakeup
  | Signal_overcommit_worker
  | Create_overcommit_worker

definition manager_workqueue_additem :: "bool \<Rightarrow> nat \<Rightarrow> work \<Rightarrow> manager \<Rightarrow> pwq_error + (manager \<times> wakeup)" where
  "manager_workqueue_additem oc p witem mg =
     (if oc then
        (case additem_overcommit p witem mg of
           Inl e \<Rightarrow> Inl e
         | Inr (mg1, create) \<Rightarrow> Inr (mg1, if create then Create_overcommit_worker else Signal_overcommit_worker))
      else
        (case additem_enqueue p witem mg of
           Inl e \<Rightarrow> Inl e
         | Inr mg1 \<Rightarrow> Inr (mg1, if additem_signals mg1 then Signal_worker else No_wakeup)))"

definition pthread_workqueue_additem_np ::
  "bool \<Rightarrow> nat \<Rightarrow> nat option \<Rightarrow> nat \<Rightarrow> manager \<Rightarrow> pwq_error + (manager \<times> wakeup)" where
  "pthread_workqueue_additem_np oc p workitem_func workitem_arg mg =
     (case (if oc then ocwq mg else wqlist mg) ! p of
        None \<Rightarrow> Inl Null_queue
      | Some workq \<Rightarrow>
          if \<not> valid_workq workq \<or> workitem_func = None then Inl EINVAL
          else manager_workqueue_additem oc p (witem_alloc workitem_func workitem_arg) mg)"

text \<open>
  \<open>reset_queue_mask\<close>: \<open>__sync_and_and_fetch\<close> gives the new mask, in which the bit is clear, so the loop after it
  does not run.
\<close>

definition reset_queue_mask :: "nat \<Rightarrow> manager \<Rightarrow> manager" where
  "reset_queue_mask i mg = mg\<lparr>wqlist_mask := wqlist_mask mg AND NOT (index_bit i)\<rparr>"

text \<open>The part of \<open>wqlist_scan\<close> under the spin lock of the queue with number \<open>idx - 1\<close>: the item taken, with its priority.\<close>

definition wqlist_scan_take :: "nat \<Rightarrow> bool \<Rightarrow> manager \<Rightarrow> pwq_error + (manager \<times> (work \<times> int) option)" where
  "wqlist_scan_take idx skip_thread_exit_events mg =
     (case wqlist mg ! (idx - 1) of
        None \<Rightarrow> Inl Null_queue
      | Some workq \<Rightarrow>
          (case item_list workq of
             [] \<Rightarrow> Inr (mg, None)
           | witem # rest \<Rightarrow>
               if \<not> (skip_thread_exit_events \<and> func witem = None) then
                 (let mg1 = mg\<lparr>wqlist := (wqlist mg)[idx - 1 := Some (workq\<lparr>item_list := rest\<rparr>)]\<rparr>;
                      mg2 = (if rest = [] then reset_queue_mask (wqlist_index workq) mg1 else mg1) in
                  Inr (mg2, Some (witem, queueprio workq)))
               else Inr (mg, None)))"

definition wqlist_scan :: "bool \<Rightarrow> manager \<Rightarrow> pwq_error + (manager \<times> (work \<times> int) option)" where
  "wqlist_scan skip_thread_exit_events mg =
     (let idx = ffs (wqlist_mask mg) in
      if idx = 0 then Inr (mg, None) else wqlist_scan_take idx skip_thread_exit_events mg)"

text \<open>\<open>worker_stop\<close> up to the signal: the request to exit goes to the first queue there is.\<close>

definition worker_stop :: "manager \<Rightarrow> pwq_error + (manager \<times> nat)" where
  "worker_stop mg =
     (case find (\<lambda>i. wqlist mg ! i \<noteq> None) [0..<PTHREAD_WORKQUEUE_MAX] of
        None \<Rightarrow> Inl Abort
      | Some i \<Rightarrow>
          (case wqlist mg ! i of
             None \<Rightarrow> Inl Abort
           | Some workq \<Rightarrow>
               Inr (mg\<lparr>wqlist_mask := wqlist_mask mg OR index_bit (wqlist_index workq),
                       wqlist := (wqlist mg)[i := Some (append_item (witem_alloc None 0) workq)]\<rparr>, i)))"

text \<open>\<open>worker_start\<close>, with whether \<open>pthread_create\<close> made a thread.\<close>

definition worker_start :: "bool \<Rightarrow> manager \<Rightarrow> manager \<times> int" where
  "worker_start created mg =
     (let b = board mg;
          mg1 = mg\<lparr>pending_thread_create := pending_thread_create mg + 1,
                   board := b\<lparr>sb_idle := sb_idle b + 1, sb_count := sb_count b + 1\<rparr>\<rparr>;
          b1 = board mg1 in
      if \<not> created then (mg1\<lparr>board := b1\<lparr>sb_idle := sb_idle b1 - 1, sb_count := sb_count b1 - 1\<rparr>\<rparr>, - 1)
      else (mg1, 0))"

text \<open>The test after an item was found: the last idle worker wakes the manager.\<close>

definition post_if_last_idle :: "manager \<Rightarrow> manager" where
  "post_if_last_idle mg =
     (if sb_idle (board mg) = 1 then mg\<lparr>board := (board mg)\<lparr>sb_sem := Suc (sb_sem (board mg))\<rparr>\<rparr> else mg)"

section \<open>Overcommit workers\<close>

text \<open>
  \<open>overcommit_worker_main\<close> between taking \<open>ocwq_mtx\<close> and leaving it: an item to run, or \<open>None\<close> when the thread goes
  to wait on the condition variable.
\<close>

definition overcommit_take :: "manager \<Rightarrow> pwq_error + (manager \<times> work option)" where
  "overcommit_take mg =
     (let idx = ffs (ocwq_mask mg);
          waiting = Inr (mg\<lparr>ocwq_idle_threads := ocwq_idle_threads mg + 1\<rparr>, None) in
      if idx > 0 then
        (case ocwq mg ! (idx - 1) of
           None \<Rightarrow> Inl Null_queue
         | Some workq \<Rightarrow>
             (case item_list workq of
                [] \<Rightarrow> waiting
              | witem # rest \<Rightarrow>
                  Inr (mg\<lparr>ocwq := (ocwq mg)[idx - 1 := Some (workq\<lparr>item_list := rest\<rparr>)],
                          ocwq_mask := (if rest = [] then ocwq_mask mg AND NOT (index_bit (wqlist_index workq)) else ocwq_mask mg)\<rparr>,
                       Some witem)))
      else waiting)"

datatype wait_result =
    Wait_zero
  | Wait_timedout
  | Wait_failed

text \<open>After \<open>pthread_cond_timedwait\<close>: the thread goes on (\<open>True\<close>) when there is a signal to take, and else exits.\<close>

definition overcommit_wakeup :: "wait_result \<Rightarrow> manager \<Rightarrow> pwq_error + (manager \<times> bool)" where
  "overcommit_wakeup rv mg =
     (if ocwq_signal_count mg > 0 then Inr (mg\<lparr>ocwq_signal_count := ocwq_signal_count mg - 1\<rparr>, True)
      else if rv = Wait_zero \<or> rv = Wait_timedout
      then Inr (mg\<lparr>ocwq_idle_threads := ocwq_idle_threads mg - 1\<rparr>, False)
      else Inl Abort)"

section \<open>The manager thread\<close>

definition get_process_limit :: "u64 option \<Rightarrow> u32" where
  "get_process_limit rlim_max = (case rlim_max of None \<Rightarrow> DEFAULT_PROCESS_LIMIT | Some r \<Rightarrow> ucast r)"

text \<open>
  What the manager reads in one turn of its loop.  The counters are volatile and other threads change them, so each
  read is a value of its own, in the order of the code.
\<close>

record observation =
  ob_suspend :: bool
  ob_timedout :: bool
  ob_idle :: u32
  ob_count :: u32
  ob_pending :: u32
  ob_count_low :: u32
  ob_count_max :: u32
  ob_runnable :: "u32 option"
  ob_runqueue :: u32
  ob_idle_race :: u32
  ob_idle_tick :: u32
  ob_idle_add :: u32
  ob_idle_surplus :: u32
  ob_idle_stop :: "nat \<Rightarrow> u32"

record limits =
  lm_cpu_count :: u32
  lm_worker_max :: u32
  lm_idle_threshold :: u32

text \<open>The local variables that live on from turn to turn.\<close>

record manager_local =
  worker_idle_seconds_accumulated :: u32
  sem_timedwait_timedout :: bool

datatype manager_action =
    Start_worker
  | Stop_worker

definition manager_rampup :: "limits \<Rightarrow> observation \<Rightarrow> manager_action list" where
  "manager_rampup l ob =
     (if ob_count_low ob < lm_idle_threshold l then [Start_worker]
      else if ob_count_max ob < lm_worker_max l then
        (let current_thread_count = (case ob_runnable ob of None \<Rightarrow> 0 | Some n \<Rightarrow> n) in
         if current_thread_count \<le> lm_cpu_count l then
           (if ob_runqueue ob \<le> lm_cpu_count l then
              (if ob_idle_race ob = 0 then [Start_worker] else [])
            else [])
         else [])
      else [])"

definition manager_rampdown :: "limits \<Rightarrow> observation \<Rightarrow> manager_local \<Rightarrow> manager_local \<times> manager_action list" where
  "manager_rampdown l ob lo =
     (let acc = (if ob_idle_tick ob > lm_idle_threshold l then worker_idle_seconds_accumulated lo + ob_idle_add ob else 0);
          max_threads_to_stop = acc div WORKER_IDLE_SECONDS_THRESHOLD in
      if max_threads_to_stop > 0 then
        (let idle_surplus_threads = ob_idle_surplus ob - lm_idle_threshold l;
             n = (if max_threads_to_stop > idle_surplus_threads then idle_surplus_threads else max_threads_to_stop) in
         (lo\<lparr>worker_idle_seconds_accumulated := 0\<rparr>,
          map (\<lambda>_. Stop_worker) (filter (\<lambda>i. ob_idle_stop ob i > lm_idle_threshold l) [0..<unat n])))
      else (lo\<lparr>worker_idle_seconds_accumulated := acc\<rparr>, []))"

text \<open>
  One turn of the loop of \<open>manager_main\<close>: the workers it starts and stops.  A suspended manager waits without a
  timeout, and keeps the result of the last timed wait.
\<close>

definition manager_main :: "limits \<Rightarrow> observation \<Rightarrow> manager_local \<Rightarrow> manager_local \<times> manager_action list" where
  "manager_main l ob lo =
     (let lo = (if \<not> ob_suspend ob then lo\<lparr>sem_timedwait_timedout := ob_timedout ob\<rparr> else lo) in
      if ob_idle ob = 0 \<and> ob_count ob > 0 \<and> ob_pending ob = 0 then (lo, manager_rampup l ob)
      else if sem_timedwait_timedout lo then manager_rampdown l ob lo
      else (lo, []))"

text \<open>\<open>manager_suspend\<close> waits for the manager thread: \<open>None\<close> while there is none.\<close>

definition manager_suspend :: "manager \<Rightarrow> manager option" where
  "manager_suspend mg =
     (if \<not> wqlist_has_manager mg then None
      else Some (if \<not> sb_suspend (board mg) then mg\<lparr>board := (board mg)\<lparr>sb_suspend := True\<rparr>\<rparr> else mg))"

definition manager_resume :: "manager \<Rightarrow> manager" where
  "manager_resume mg =
     (if sb_suspend (board mg)
      then mg\<lparr>board := (board mg)\<lparr>sb_suspend := False, sb_sem := Suc (sb_sem (board mg))\<rparr>\<rparr> else mg)"

definition manager_peek :: "string \<Rightarrow> manager \<Rightarrow> pwq_error + u64" where
  "manager_peek key mg =
     (let idle = ucast (sb_idle (board mg)) - (if sb_idle (board mg) > worker_min mg then ucast (worker_min mg) else 0) in
      if key = ''combined_idle'' then Inr (idle + ucast (ocwq_idle_threads mg))
      else if key = ''idle'' then Inr idle
      else if key = ''ocomm_idle'' then Inr (ucast (ocwq_idle_threads mg))
      else Inl Abort)"

section \<open>Masks\<close>

lemma bit_index_bit [simp]: "bit (index_bit i) j \<longleftrightarrow> i = j \<and> j < 32"
  by (auto simp: index_bit_def bit_simps)

lemma ffs_0_iff: "ffs w = 0 \<longleftrightarrow> (\<forall>i<32. \<not> bit w i)"
  using find_None_iff [of "bit w" "[0..<32]"] by (auto simp: ffs_def split: option.splits)

lemma ffs_Suc_iff: "ffs w = Suc k \<longleftrightarrow> k < 32 \<and> bit w k \<and> (\<forall>j<k. \<not> bit w j)"
proof -
  have "find (bit w) [0..<32] = Some k \<longleftrightarrow> k < 32 \<and> bit w k \<and> (\<forall>j<k. \<not> bit w j)"
    by (auto simp: find_Some_iff)
  then show ?thesis
    by (auto simp: ffs_def split: option.splits)
qed

text \<open>
  A table of queues with its mask: bit \<open>i\<close> of the mask is set exactly when queue \<open>i\<close> has items, and each queue is
  filed under its priority.
\<close>

definition queue_filed :: "bool \<Rightarrow> nat \<Rightarrow> workqueue \<Rightarrow> bool" where
  "queue_filed oc i q \<longleftrightarrow> wqlist_index q = i \<and> queueprio q = int i \<and> overcommit q = oc \<and> valid_workq q"

definition slot_items :: "workqueue option \<Rightarrow> work list" where
  "slot_items s = (case s of None \<Rightarrow> [] | Some q \<Rightarrow> item_list q)"

definition table_ok :: "bool \<Rightarrow> workqueue option list \<Rightarrow> u32 \<Rightarrow> bool" where
  "table_ok oc tab m \<longleftrightarrow>
     length tab = PTHREAD_WORKQUEUE_MAX \<and>
     (\<forall>i<32. bit m i \<longleftrightarrow> i < length tab \<and> slot_items (tab ! i) \<noteq> []) \<and>
     (\<forall>i<length tab. \<forall>q. tab ! i = Some q \<longrightarrow> queue_filed oc i q)"

definition manager_ok :: "manager \<Rightarrow> bool" where
  "manager_ok mg \<longleftrightarrow> table_ok False (wqlist mg) (wqlist_mask mg) \<and> table_ok True (ocwq mg) (ocwq_mask mg)"

lemma slot_items_simps [simp]: "slot_items None = []" "slot_items (Some q) = item_list q"
  by (simp_all add: slot_items_def)

lemma table_okD:
  assumes "table_ok oc tab m"
  shows "length tab = 31"
    and "i < 32 \<Longrightarrow> bit m i \<longleftrightarrow> i < 31 \<and> slot_items (tab ! i) \<noteq> []"
    and "i < 31 \<Longrightarrow> tab ! i = Some q \<Longrightarrow> queue_filed oc i q"
  using assms by (auto simp: table_ok_def PTHREAD_WORKQUEUE_MAX_def)

lemma table_okI:
  assumes "length tab = 31"
    and "\<And>i. i < 32 \<Longrightarrow> bit m i \<longleftrightarrow> i < 31 \<and> slot_items (tab ! i) \<noteq> []"
    and "\<And>i q. i < 31 \<Longrightarrow> tab ! i = Some q \<Longrightarrow> queue_filed oc i q"
  shows "table_ok oc tab m"
  using assms by (auto simp: table_ok_def PTHREAD_WORKQUEUE_MAX_def)

lemma queue_filed_items [simp]: "queue_filed oc i (q\<lparr>item_list := xs\<rparr>) \<longleftrightarrow> queue_filed oc i q"
  by (simp add: queue_filed_def valid_workq_def)

text \<open>Changing the items of one queue, with the bit set to whether it has any.\<close>

lemma table_ok_update:
  assumes "table_ok oc tab m" "p < 31" "tab ! p = Some q"
    and "\<And>i. i < 32 \<Longrightarrow> bit m' i \<longleftrightarrow> (if i = p then xs \<noteq> [] else bit m i)"
  shows "table_ok oc (tab[p := Some (q\<lparr>item_list := xs\<rparr>)]) m'"
  using assms table_okD [OF assms(1)]
  by (intro table_okI) (auto simp: nth_list_update split: if_splits)

lemma table_ok_append:
  assumes ok: "table_ok oc tab m" "p < 31" "tab ! p = Some q"
    and m': "m' = m OR index_bit p \<or> m' = m \<and> item_list q \<noteq> []"
  shows "table_ok oc (tab[p := Some (append_item w q)]) m'"
  unfolding append_item_def
proof (rule table_ok_update [OF ok])
  fix i :: nat assume "i < 32"
  then show "bit m' i \<longleftrightarrow> (if i = p then item_list q @ [w] \<noteq> [] else bit m i)"
    using m' table_okD(2) [OF ok(1), of p] ok(2,3) by (auto simp: bit_or_iff)
qed

lemma table_ok_remove:
  assumes ok: "table_ok oc tab m" "p < 31" "tab ! p = Some q" and q: "item_list q = w # xs"
  shows "table_ok oc (tab[p := Some (q\<lparr>item_list := xs\<rparr>)]) (if xs = [] then m AND NOT (index_bit p) else m)"
proof (rule table_ok_update [OF ok])
  fix i :: nat assume "i < 32"
  then show "bit (if xs = [] then m AND NOT (index_bit p) else m) i \<longleftrightarrow> (if i = p then xs \<noteq> [] else bit m i)"
    using table_okD(2) [OF ok(1), of p] ok(2,3) q by (auto simp: bit_and_iff bit_not_iff)
qed

lemma table_filed_index: "table_ok oc tab m \<Longrightarrow> p < 31 \<Longrightarrow> tab ! p = Some q \<Longrightarrow> wqlist_index q = p"
  using table_okD(3) [of oc tab m p q] by (simp add: queue_filed_def)

lemma ffs_table:
  assumes "table_ok oc tab m"
  shows "ffs m = 0 \<longleftrightarrow> (\<forall>i<31. slot_items (tab ! i) = [])"
    and "ffs m = Suc k \<longleftrightarrow> k < 31 \<and> slot_items (tab ! k) \<noteq> [] \<and> (\<forall>j<k. slot_items (tab ! j) = [])"
proof -
  show "ffs m = 0 \<longleftrightarrow> (\<forall>i<31. slot_items (tab ! i) = [])"
    using table_okD(2) [OF assms] by (auto simp: ffs_0_iff)
  show "ffs m = Suc k \<longleftrightarrow> k < 31 \<and> slot_items (tab ! k) \<noteq> [] \<and> (\<forall>j<k. slot_items (tab ! j) = [])"
    using table_okD(2) [OF assms] by (auto simp: ffs_Suc_iff)
qed

section \<open>The operations keep the masks exact\<close>

lemma manager_static_ok: "manager_ok manager_static"
  by (auto simp: manager_ok_def manager_static_def table_ok_def PTHREAD_WORKQUEUE_MAX_def nth_replicate)

lemma additem_enqueue_ok:
  assumes ok: "manager_ok mg" "p < 31" and add: "additem_enqueue p w mg = Inr mg'"
  shows "manager_ok mg'"
proof -
  from add obtain q where q: "wqlist mg ! p = Some q"
    by (auto simp: additem_enqueue_def split: option.splits)
  then have "wqlist_index q = p"
    using ok by (auto simp: manager_ok_def dest: table_filed_index)
  then show ?thesis
    using add ok q by (auto simp: additem_enqueue_def manager_ok_def intro!: table_ok_append)
qed

lemma additem_overcommit_ok:
  assumes ok: "manager_ok mg" "p < 31" and add: "additem_overcommit p w mg = Inr (mg', c)"
  shows "manager_ok mg'"
proof -
  from add obtain q where q: "ocwq mg ! p = Some q"
    by (auto simp: additem_overcommit_def split: option.splits)
  then have "wqlist_index q = p"
    using ok by (auto simp: manager_ok_def dest: table_filed_index)
  then show ?thesis
    using add ok q by (auto simp: additem_overcommit_def manager_ok_def Let_def split: if_splits intro!: table_ok_append)
qed

lemma wqlist_scan_take_ok:
  assumes ok: "manager_ok mg" "0 < idx" "idx \<le> 31" and tk: "wqlist_scan_take idx skip mg = Inr (mg', r)"
  shows "manager_ok mg'"
proof -
  from tk obtain q where q: "wqlist mg ! (idx - 1) = Some q"
    by (auto simp: wqlist_scan_take_def split: option.splits)
  have p: "idx - 1 < 31" and t: "table_ok False (wqlist mg) (wqlist_mask mg)"
    using ok by (auto simp: manager_ok_def)
  have "wqlist_index q = idx - 1"
    by (rule table_filed_index [OF t p q])
  then show ?thesis
    using tk ok(1) q table_ok_remove [OF t p q]
    by (auto simp: wqlist_scan_take_def manager_ok_def reset_queue_mask_def Let_def split: list.splits if_splits)
qed

lemma overcommit_take_ok:
  assumes ok: "manager_ok mg" and tk: "overcommit_take mg = Inr (mg', r)"
  shows "manager_ok mg'"
proof (cases "ffs (ocwq_mask mg)")
  case 0
  then show ?thesis
    using tk ok by (auto simp: overcommit_take_def manager_ok_def Let_def)
next
  case (Suc p)
  have t: "table_ok True (ocwq mg) (ocwq_mask mg)"
    using ok by (simp add: manager_ok_def)
  have p: "p < 31"
    using Suc by (simp add: ffs_table(2) [OF t])
  obtain q where q: "ocwq mg ! p = Some q"
    using Suc by (cases "ocwq mg ! p") (auto simp: ffs_table(2) [OF t])
  have "wqlist_index q = p"
    by (rule table_filed_index [OF t p q])
  then show ?thesis
    using tk ok q Suc table_ok_remove [OF t p q]
    by (auto simp: overcommit_take_def manager_ok_def Let_def split: list.splits if_splits)
qed

lemma worker_stop_ok:
  assumes ok: "manager_ok mg" and st: "worker_stop mg = Inr (mg', i)"
  shows "manager_ok mg'" "i < 31" "\<exists>q. wqlist mg ! i = Some q"
proof -
  obtain q where i: "i < 31" and q: "wqlist mg ! i = Some q"
    and mg': "mg' = mg\<lparr>wqlist_mask := wqlist_mask mg OR index_bit (wqlist_index q),
                       wqlist := (wqlist mg)[i := Some (append_item (witem_alloc None 0) q)]\<rparr>"
    using st by (auto simp: worker_stop_def PTHREAD_WORKQUEUE_MAX_def find_Some_iff split: option.splits)
  have t: "table_ok False (wqlist mg) (wqlist_mask mg)"
    using ok by (simp add: manager_ok_def)
  show "manager_ok mg'"
    using ok table_ok_append [OF t i q] table_filed_index [OF t i q] by (simp add: mg' manager_ok_def)
  show "i < 31" "\<exists>q. wqlist mg ! i = Some q"
    using i q by auto
qed

lemma table_ok_register:
  assumes ok: "table_ok oc tab m" and p: "p < 31" "tab ! p = None"
    and q: "queue_filed oc p q" "item_list q = []"
  shows "table_ok oc (tab[p := Some q]) m"
  using table_okD [OF ok] p q by (intro table_okI) (auto simp: nth_list_update split: if_splits)

lemma register_queue_ok:
  assumes "manager_ok mg" "register_queue q mg = Inr mg'"
    and "0 \<le> queueprio q" "queueprio q < WORKQ_NUM_PRIOQUEUE" "valid_workq q" "item_list q = []"
  shows "manager_ok mg'"
  using assms
  by (auto simp: register_queue_def manager_ok_def Let_def WORKQ_NUM_PRIOQUEUE_def queue_filed_def valid_workq_def
      split: if_splits intro!: table_ok_register)

lemma manager_start_keeps: "manager_start rvs mg = Some (Inr mg') \<Longrightarrow> mg' = mg\<lparr>wqlist_has_manager := True\<rparr>"
  by (induction rvs) (auto split: if_splits)

lemma manager_start_fails: "manager_start rvs mg = Some (Inl e) \<Longrightarrow> e = Abort \<and> (\<exists>rv \<in> set rvs. rv \<noteq> 0 \<and> rv \<noteq> 11)"
  by (induction rvs) (auto split: if_splits)

lemma pthread_workqueue_create_np_ok:
  assumes ok: "manager_ok mg" and cr: "pthread_workqueue_create_np calloc_ok rvs attr mg = Some (Inr mg')"
  shows "manager_ok mg'"
proof -
  have has: "manager_ok (mg\<lparr>wqlist_has_manager := True\<rparr>)"
    using ok by (simp add: manager_ok_def)
  show ?thesis
    using cr ok has
    by (auto simp: pthread_workqueue_create_np_def manager_workqueue_create_def Let_def valid_workq_def
        WORKQ_NUM_PRIOQUEUE_def WORKQ_DEFAULT_PRIOQUEUE_def
        split: option.splits if_splits sum.splits dest!: manager_start_keeps elim!: register_queue_ok [rotated])
qed

text \<open>What \<open>wqlist_scan_take\<close> does with the items of the queue it looks at.\<close>

lemma wqlist_scan_take_cases:
  assumes "wqlist mg ! (idx - 1) = Some q"
  obtains (none) "wqlist_scan_take idx skip mg = Inr (mg, None)"
      "item_list q = [] \<or> skip \<and> func (hd (item_list q)) = None"
  | (item) w rest mg' where "item_list q = w # rest" "\<not> (skip \<and> func w = None)"
      "wqlist_scan_take idx skip mg = Inr (mg', Some (w, queueprio q))"
      "wqlist mg' = (wqlist mg)[idx - 1 := Some (q\<lparr>item_list := rest\<rparr>)]"
proof (cases "item_list q = [] \<or> skip \<and> func (hd (item_list q)) = None")
  case True
  then show ?thesis
    using assms none by (cases "item_list q") (auto simp: wqlist_scan_take_def)
next
  case False
  then obtain w rest where "item_list q = w # rest" "\<not> (skip \<and> func w = None)"
    by (cases "item_list q") auto
  then show ?thesis
    using assms by (intro item [of w rest]) (auto simp: wqlist_scan_take_def reset_queue_mask_def Let_def)
qed

text \<open>The workers that a timer tick stops.\<close>

lemma length_filter_upt: "length (filter P [0..<n]) \<le> n"
  by (metis diff_zero length_filter_le length_upt)

lemma unat_div15_sum: "15 * unat ((x + y) div 15 :: u32) \<le> unat x + unat y"
proof -
  have "unat (x + y) \<le> unat x + unat y"
    by (simp add: unat_word_ariths)
  then show ?thesis
    using div_times_less_eq_dividend [of "unat (x + y)" 15] by (simp add: unat_div mult.commute)
qed

lemma rampdown_bounds:
  assumes "manager_rampdown l ob lo = (lo', acts)"
  shows "set acts \<subseteq> {Stop_worker}"
    and "acts \<noteq> [] \<Longrightarrow> ob_idle_tick ob > lm_idle_threshold l \<and> worker_idle_seconds_accumulated lo' = 0"
    and "15 * length acts \<le> unat (worker_idle_seconds_accumulated lo) + unat (ob_idle_add ob)"
    and "lm_idle_threshold l \<le> ob_idle_surplus ob \<Longrightarrow> length acts \<le> unat (ob_idle_surplus ob) - unat (lm_idle_threshold l)"
proof -
  define acc where "acc = (if ob_idle_tick ob > lm_idle_threshold l then worker_idle_seconds_accumulated lo + ob_idle_add ob else 0)"
  define n where "n = (if acc div 15 > ob_idle_surplus ob - lm_idle_threshold l then ob_idle_surplus ob - lm_idle_threshold l else acc div 15)"
  have eq: "(lo', acts) =
      (if acc div 15 > 0
       then (lo\<lparr>worker_idle_seconds_accumulated := 0\<rparr>,
             map (\<lambda>_. Stop_worker) (filter (\<lambda>i. ob_idle_stop ob i > lm_idle_threshold l) [0..<unat n]))
       else (lo\<lparr>worker_idle_seconds_accumulated := acc\<rparr>, []))"
    using assms unfolding manager_rampdown_def Let_def WORKER_IDLE_SECONDS_THRESHOLD_def acc_def [symmetric] n_def [symmetric]
    by (rule sym)
  have len: "length acts \<le> unat n"
    using eq length_filter_upt [of _ "unat n"] by (auto split: if_splits)
  have n: "unat n \<le> unat (acc div 15)" "unat n \<le> unat (ob_idle_surplus ob - lm_idle_threshold l)"
    by (auto simp: n_def word_less_nat_alt)
  show "set acts \<subseteq> {Stop_worker}"
    using eq by (auto split: if_splits)
  show "ob_idle_tick ob > lm_idle_threshold l \<and> worker_idle_seconds_accumulated lo' = 0" if "acts \<noteq> []"
    using eq that by (auto simp: acc_def split: if_splits)
  have "15 * unat (acc div 15) \<le> unat (worker_idle_seconds_accumulated lo) + unat (ob_idle_add ob)"
    using unat_div15_sum by (simp add: acc_def)
  then show "15 * length acts \<le> unat (worker_idle_seconds_accumulated lo) + unat (ob_idle_add ob)"
    using len n(1) by linarith
  show "length acts \<le> unat (ob_idle_surplus ob) - unat (lm_idle_threshold l)" if "lm_idle_threshold l \<le> ob_idle_surplus ob"
    using len n(2) that by (simp add: unat_sub)
qed

text \<open>Items added to a queue that has items already do not set its bit.\<close>

lemma additems_no_mask:
  assumes "p < length (wqlist mg)" "wqlist mg ! p = Some q" "item_list q \<noteq> []"
  shows "\<exists>mg'. additems p ws mg = Inr mg' \<and> slot_items (wqlist mg' ! p) = item_list q @ ws \<and>
           wqlist_mask mg' = wqlist_mask mg \<and> wqlist_has_manager mg' = wqlist_has_manager mg"
  using assms
proof (induction ws arbitrary: mg q)
  case (Cons w ws)
  let ?mg = "mg\<lparr>wqlist := (wqlist mg)[p := Some (append_item w q)]\<rparr>"
  have "additem_enqueue p w mg = Inr ?mg"
    using Cons.prems by (simp add: additem_enqueue_def)
  then show ?case
    using Cons.IH [of ?mg "append_item w q"] Cons.prems by (simp add: append_item_def)
qed simp

section \<open>Properties\<close>

text \<open>
  C32: \<open>wqlist_scan\<close> on exact masks never touches a missing queue.  It takes the first item of the non-empty queue with the
  highest priority, changes no other queue and keeps the masks exact; it finds nothing only when all queues are empty, or
  when the item it may take is a request to exit that it was told to skip.
\<close>

theorem wqlist_scan_highest_priority:
  assumes ok: "manager_ok mg"
  shows "\<exists>mg' r. wqlist_scan skip mg = Inr (mg', r) \<and> manager_ok mg' \<and>
     (case r of
        None \<Rightarrow> mg' = mg \<and>
          ((\<forall>i<31. slot_items (wqlist mg ! i) = []) \<or>
           skip \<and> (\<exists>k<31. \<exists>w ws. slot_items (wqlist mg ! k) = w # ws \<and> func w = None \<and> (\<forall>j<k. slot_items (wqlist mg ! j) = [])))
      | Some (w, prio) \<Rightarrow>
          (\<exists>k<31. prio = int k \<and> slot_items (wqlist mg ! k) = w # slot_items (wqlist mg' ! k) \<and>
             (\<forall>j<k. slot_items (wqlist mg ! j) = []) \<and> (\<forall>j<31. j \<noteq> k \<longrightarrow> wqlist mg' ! j = wqlist mg ! j)))"
proof (cases "ffs (wqlist_mask mg)")
  case 0
  then show ?thesis
    using ok ffs_table(1) [of False "wqlist mg" "wqlist_mask mg"] by (auto simp: wqlist_scan_def manager_ok_def)
next
  case (Suc k)
  have t: "table_ok False (wqlist mg) (wqlist_mask mg)"
    using ok by (simp add: manager_ok_def)
  have k: "k < 31" "slot_items (wqlist mg ! k) \<noteq> []" "\<forall>j<k. slot_items (wqlist mg ! j) = []"
    using Suc by (auto simp: ffs_table(2) [OF t])
  obtain q where q: "wqlist mg ! k = Some q"
    using k(2) by (cases "wqlist mg ! k") auto
  have len: "length (wqlist mg) = 31" and prio: "queueprio q = int k"
    using table_okD(1,3) [OF t] k(1) q by (auto simp: queue_filed_def)
  have scan: "wqlist_scan skip mg = wqlist_scan_take (Suc k) skip mg"
    using Suc by (simp add: wqlist_scan_def)
  from q have "wqlist mg ! (Suc k - 1) = Some q"
    by simp
  then show ?thesis
  proof (cases rule: wqlist_scan_take_cases [where skip = skip])
    case none
    then show ?thesis
      using ok k q scan by (cases "item_list q") auto
  next
    case (item w rest mg')
    then show ?thesis
      using wqlist_scan_take_ok [OF ok, of "Suc k" skip mg'] k q len scan prio by (auto intro!: exI [of _ k])
  qed
qed

text \<open>
  C33: One turn of the manager thread starts at most one worker, only when it saw no idle and no pending worker and a count
  below one of the two limits.  It stops workers only when it saw more idle workers than the threshold, at
  most one for each 15 idle seconds, and then it starts to count anew; when the surplus it reads is not negative it stops at
  most that many.
\<close>

theorem manager_turn_bounds:
  assumes "manager_main l ob lo = (lo', acts)"
  shows "(Start_worker \<in> set acts \<longrightarrow> acts = [Start_worker] \<and> ob_idle ob = 0 \<and> ob_pending ob = 0 \<and>
            (ob_count_low ob < lm_idle_threshold l \<or> ob_count_max ob < lm_worker_max l)) \<and>
     (Stop_worker \<in> set acts \<longrightarrow> set acts = {Stop_worker} \<and> ob_idle_tick ob > lm_idle_threshold l \<and>
            worker_idle_seconds_accumulated lo' = 0 \<and>
            15 * length acts \<le> unat (worker_idle_seconds_accumulated lo) + unat (ob_idle_add ob) \<and>
            (lm_idle_threshold l \<le> ob_idle_surplus ob \<longrightarrow>
               length acts \<le> unat (ob_idle_surplus ob) - unat (lm_idle_threshold l)))"
proof (cases "ob_idle ob = 0 \<and> ob_count ob > 0 \<and> ob_pending ob = 0")
  case True
  then show ?thesis
    using assms by (auto simp: manager_main_def manager_rampup_def Let_def split: if_splits)
next
  case False
  define lo1 where "lo1 = (if \<not> ob_suspend ob then lo\<lparr>sem_timedwait_timedout := ob_timedout ob\<rparr> else lo)"
  have lo1: "worker_idle_seconds_accumulated lo1 = worker_idle_seconds_accumulated lo"
    by (simp add: lo1_def)
  have main: "(lo', acts) = (if sem_timedwait_timedout lo1 then manager_rampdown l ob lo1 else (lo1, []))"
    using assms False by (auto simp: manager_main_def lo1_def Let_def)
  show ?thesis
    using main rampdown_bounds [of l ob lo1 lo' acts] by (cases acts) (auto simp: lo1 split: if_splits)
qed

theorem manager_turn_bounds_witness:
  "manager_main \<lparr>lm_cpu_count = 4, lm_worker_max = 100, lm_idle_threshold = 2\<rparr>
     \<lparr>ob_suspend = False, ob_timedout = True, ob_idle = 5, ob_count = 5, ob_pending = 0, ob_count_low = 5, ob_count_max = 5,
      ob_runnable = None, ob_runqueue = 1, ob_idle_race = 5, ob_idle_tick = 5, ob_idle_add = 5, ob_idle_surplus = 5,
      ob_idle_stop = (\<lambda>_. 5)\<rparr>
     \<lparr>worker_idle_seconds_accumulated = 25, sem_timedwait_timedout = False\<rparr> =
     (\<lparr>worker_idle_seconds_accumulated = 0, sem_timedwait_timedout = True\<rparr>, [Stop_worker, Stop_worker]) \<and>
   length [Stop_worker, Stop_worker] \<le> unat (5 :: u32) - unat (2 :: u32)"
proof -
  let ?l = "\<lparr>lm_cpu_count = 4, lm_worker_max = 100, lm_idle_threshold = 2\<rparr>"
  let ?ob = "\<lparr>ob_suspend = False, ob_timedout = True, ob_idle = 5, ob_count = 5, ob_pending = 0, ob_count_low = 5, ob_count_max = 5,
      ob_runnable = None, ob_runqueue = 1, ob_idle_race = 5, ob_idle_tick = 5, ob_idle_add = 5, ob_idle_surplus = 5,
      ob_idle_stop = (\<lambda>_. 5)\<rparr>"
  let ?lo = "\<lparr>worker_idle_seconds_accumulated = 25, sem_timedwait_timedout = False\<rparr>"
  have run: "manager_main ?l ?ob ?lo =
      (\<lparr>worker_idle_seconds_accumulated = 0, sem_timedwait_timedout = True\<rparr>, [Stop_worker, Stop_worker])"
    by code_simp
  show ?thesis
    using run manager_turn_bounds [OF run] by simp
qed

text \<open>
  After a fork the handler of the library clears the masks but not the queues.  A queue that had an item stays out of the
  mask in the child however many items are added to it, so no scan finds any of them.
\<close>

theorem fork_child_strands_items:
  assumes "manager_ok mg" "p < 31" "wqlist mg ! p = Some q" "item_list q \<noteq> []"
    and "manager_reinit nproc active sem_rv atfork_rv mg = Inr mg0"
  shows "\<exists>mg'. additems p ws mg0 = Inr mg' \<and> slot_items (wqlist mg' ! p) = item_list q @ ws \<and>
           \<not> wqlist_has_manager mg' \<and> wqlist_scan skip mg' = Inr (mg', None)"
proof -
  have mg0: "wqlist mg0 = wqlist mg" "wqlist_mask mg0 = 0" "\<not> wqlist_has_manager mg0"
    using assms(5) by (auto simp: manager_reinit_def manager_init_def Let_def split: if_splits)
  have "length (wqlist mg) = 31"
    using assms(1) by (auto simp: manager_ok_def dest: table_okD(1))
  then obtain mg' where "additems p ws mg0 = Inr mg'" "slot_items (wqlist mg' ! p) = item_list q @ ws"
      "wqlist_mask mg' = 0" "\<not> wqlist_has_manager mg'"
    using additems_no_mask [of p mg0 q ws] mg0 assms(2-4) by auto
  moreover have "ffs 0 = 0"
    by (simp add: ffs_0_iff)
  ultimately show ?thesis
    by (auto simp: wqlist_scan_def)
qed

definition forked_example :: manager where
  "forked_example = manager_static\<lparr>wqlist_mask := 2, wqlist_has_manager := True,
     wqlist := (replicate PTHREAD_WORKQUEUE_MAX None)[1 := Some
       \<lparr>wq_sig = PTHREAD_WORKQUEUE_SIG, wq_flags = 0, queueprio = 1, overcommit = False, wqlist_index = 1,
        item_list = [witem_alloc (Some 7) 0]\<rparr>]\<rparr>"

lemma forked_example_created:
  "(case pthread_workqueue_create_np True [0] None manager_static of
      Some (Inr mg) \<Rightarrow> additem_enqueue 1 (witem_alloc (Some 7) 0) mg | _ \<Rightarrow> Inl Abort) = Inr forked_example"
  by code_simp

lemma forked_example_ok: "manager_ok forked_example"
proof -
  obtain mg where mg: "pthread_workqueue_create_np True [0] None manager_static = Some (Inr mg)"
      "additem_enqueue 1 (witem_alloc (Some 7) 0) mg = Inr forked_example"
    using forked_example_created by (auto split: option.splits sum.splits)
  show ?thesis
    by (rule additem_enqueue_ok [OF pthread_workqueue_create_np_ok [OF manager_static_ok mg(1)] _ mg(2)]) simp
qed

theorem fork_child_strands_items_witness:
  "\<exists>mg0 mg'. manager_reinit 4 0 0 0 forked_example = Inr mg0 \<and> additems 1 [witem_alloc (Some 8) 0] mg0 = Inr mg' \<and>
     slot_items (wqlist mg' ! 1) = [witem_alloc (Some 7) 0, witem_alloc (Some 8) 0] \<and>
     wqlist_scan False mg' = Inr (mg', None)"
proof -
  obtain mg0 where mg0: "manager_reinit 4 0 0 0 forked_example = Inr mg0"
    by (auto simp: manager_reinit_def manager_init_def Let_def)
  obtain q where q: "wqlist forked_example ! 1 = Some q" "item_list q = [witem_alloc (Some 7) 0]"
    by (simp add: forked_example_def PTHREAD_WORKQUEUE_MAX_def)
  show ?thesis
    using fork_child_strands_items [OF forked_example_ok _ q(1) _ mg0, of "[witem_alloc (Some 8) 0]" False] q(2) mg0 by auto
qed

theorem wqlist_scan_highest_priority_witness:
  "\<exists>mg' r. wqlist_scan True forked_example = Inr (mg', r) \<and> manager_ok mg' \<and> r = Some (witem_alloc (Some 7) 0, 1)"
proof -
  have "(case wqlist_scan True forked_example of Inr (mg', r) \<Rightarrow> r | _ \<Rightarrow> None) = Some (witem_alloc (Some 7) 0, 1)"
    by code_simp
  then show ?thesis
    using wqlist_scan_highest_priority [OF forked_example_ok, of True] by auto
qed

end
