(* ===== verification/Pwq_Pool.thy ===== *)
theory Pwq_Pool
  imports Pwq_Manager
begin

text \<open>
  The threads of \<open>libpthread_workqueue\<close>: the workers of \<open>worker_main\<close> with the clients and the manager that feed them,
  as a step system.  A program counter names the next access of a thread to shared state.
  What a thread does under the spin lock of a queue is one step: the mask and the items of the queue change together for
  everybody who takes the lock, and a scan that read the mask before looks at the queue again.
\<close>

section \<open>Workers\<close>

datatype crew_pc =
    Client
  | Add_signal
  | Stop_enqueue
  | Stop_signal
  | Begin
  | Scan_read
  | Scan_take nat
  | Spin_enter
  | Spin_read
  | Spin_take nat
  | Spin_post work
  | Spin_leave "work option"
  | Wait_lock
  | Wait_read
  | Wait_take nat
  | Wait_cond
  | Sleeping
  | Woken
  | Wait_unlock work
  | Wait_post work
  | Wait_exit work
  | Call work
  | Running work
  | Exited

text \<open>
  The shared state: the variables of the manager, the holder of \<open>wqlist_mtx\<close>, the number of spinning threads, and logs of the
  items added (with their queue), taken, and run, and of the failed calls of \<open>pthread_create\<close>.
\<close>

record crew =
  cr_mgr :: manager
  cr_mtx :: bool
  cr_spinning :: u32
  cr_pcs :: "crew_pc list"
  cr_added :: "(nat \<times> work) list"
  cr_taken :: "(nat \<times> work) list"
  cr_ran :: "work list"
  cr_failed :: nat

text \<open>
  \<open>pthread_cond_signal\<close> wakes one of the threads that sleep, if there is any: the one that the scheduler chooses, the first
  when its choice is not asleep.
\<close>

definition cond_signal :: "nat \<Rightarrow> crew_pc list \<Rightarrow> crew_pc list" where
  "cond_signal j pcs =
     (case find (\<lambda>k. pcs ! k = Sleeping) [0..<length pcs] of
        None \<Rightarrow> pcs
      | Some k \<Rightarrow> if j < length pcs \<and> pcs ! j = Sleeping then pcs[j := Woken] else pcs[k := Woken])"

text \<open>The outcome of a locked look at a queue: the next program counter for an item and for none.\<close>

definition crew_take :: "nat \<Rightarrow> nat \<Rightarrow> bool \<Rightarrow> (work \<Rightarrow> crew_pc) \<Rightarrow> crew_pc \<Rightarrow> crew \<Rightarrow> pwq_error + crew" where
  "crew_take i idx skip found nothing s =
     (case wqlist_scan_take idx skip (cr_mgr s) of
        Inl e \<Rightarrow> Inl e
      | Inr (mg, None) \<Rightarrow> Inr (s\<lparr>cr_mgr := mg, cr_pcs := (cr_pcs s)[i := nothing]\<rparr>)
      | Inr (mg, Some (w, prio)) \<Rightarrow>
          Inr (s\<lparr>cr_mgr := mg, cr_pcs := (cr_pcs s)[i := found w], cr_taken := cr_taken s @ [(idx - 1, w)]\<rparr>))"

definition crew_goto :: "nat \<Rightarrow> crew_pc \<Rightarrow> crew \<Rightarrow> (pwq_error + crew) option" where
  "crew_goto i pc s = Some (Inr (s\<lparr>cr_pcs := (cr_pcs s)[i := pc]\<rparr>))"

definition crew_board :: "(scoreboard \<Rightarrow> scoreboard) \<Rightarrow> crew \<Rightarrow> crew" where
  "crew_board f s = s\<lparr>cr_mgr := (cr_mgr s)\<lparr>board := f (board (cr_mgr s))\<rparr>\<rparr>"

text \<open>\<open>wqlist_scan\<close> with the locked part left to the next step.\<close>

definition crew_read :: "nat \<Rightarrow> (nat \<Rightarrow> crew_pc) \<Rightarrow> crew_pc \<Rightarrow> crew \<Rightarrow> (pwq_error + crew) option" where
  "crew_read i look nothing s =
     (let idx = ffs (wqlist_mask (cr_mgr s)) in crew_goto i (if idx = 0 then nothing else look idx) s)"

text \<open>\<open>wqlist_scan_spin\<close> with the setting \<open>PWQ_SPIN_THREADS\<close>.\<close>

fun wqlist_scan_spin :: "u32 \<Rightarrow> nat \<Rightarrow> crew_pc \<Rightarrow> crew \<Rightarrow> (pwq_error + crew) option" where
  "wqlist_scan_spin spin i Spin_enter s =
     (let n = cr_spinning s + 1 in
      crew_goto i (if n \<le> spin then Spin_read else Spin_leave None) (s\<lparr>cr_spinning := n\<rparr>))"
| "wqlist_scan_spin spin i Spin_read s = crew_read i Spin_take Spin_read s"
| "wqlist_scan_spin spin i (Spin_take idx) s = Some (crew_take i idx True Spin_post Spin_read s)"
| "wqlist_scan_spin spin i (Spin_post w) s =
     crew_goto i (Spin_leave (Some w)) (s\<lparr>cr_mgr := post_if_last_idle (cr_mgr s)\<rparr>)"
| "wqlist_scan_spin spin i (Spin_leave r) s =
     crew_goto i (case r of None \<Rightarrow> Wait_lock | Some w \<Rightarrow> Call w) (s\<lparr>cr_spinning := cr_spinning s - 1\<rparr>)"
| "wqlist_scan_spin spin i _ s = None"

text \<open>
  \<open>wqlist_scan_wait\<close>.  A sleeping thread may also wake without a signal.  The thread that found a request to exit leaves here.
\<close>

fun wqlist_scan_wait :: "nat \<Rightarrow> crew_pc \<Rightarrow> crew \<Rightarrow> (pwq_error + crew) option" where
  "wqlist_scan_wait i Wait_lock s = (if cr_mtx s then None else crew_goto i Wait_read (s\<lparr>cr_mtx := True\<rparr>))"
| "wqlist_scan_wait i Wait_read s = crew_read i Wait_take Wait_cond s"
| "wqlist_scan_wait i (Wait_take idx) s = Some (crew_take i idx False Wait_unlock Wait_cond s)"
| "wqlist_scan_wait i Wait_cond s = crew_goto i Sleeping (s\<lparr>cr_mtx := False\<rparr>)"
| "wqlist_scan_wait i Sleeping s = crew_goto i Woken s"
| "wqlist_scan_wait i Woken s = (if cr_mtx s then None else crew_goto i Wait_read (s\<lparr>cr_mtx := True\<rparr>))"
| "wqlist_scan_wait i (Wait_unlock w) s = crew_goto i (Wait_post w) (s\<lparr>cr_mtx := False\<rparr>)"
| "wqlist_scan_wait i (Wait_post w) s =
     crew_goto i (if func w = None then Wait_exit w else Call w) (s\<lparr>cr_mgr := post_if_last_idle (cr_mgr s)\<rparr>)"
| "wqlist_scan_wait i (Wait_exit w) s =
     crew_goto i Exited
       (crew_board (\<lambda>b. b\<lparr>sb_idle := sb_idle b - 1, sb_count := sb_count b - 1\<rparr>) (s\<lparr>cr_ran := cr_ran s @ [w]\<rparr>))"
| "wqlist_scan_wait i _ s = None"

text \<open>\<open>worker_main\<close>.\<close>

fun worker_main :: "u32 \<Rightarrow> nat \<Rightarrow> crew_pc \<Rightarrow> crew \<Rightarrow> (pwq_error + crew) option" where
  "worker_main spin i Begin s =
     crew_goto i Scan_read (s\<lparr>cr_mgr := (cr_mgr s)\<lparr>pending_thread_create := pending_thread_create (cr_mgr s) - 1\<rparr>\<rparr>)"
| "worker_main spin i Scan_read s = crew_read i Scan_take Spin_enter s"
| "worker_main spin i (Scan_take idx) s = Some (crew_take i idx True Call Spin_enter s)"
| "worker_main spin i (Call w) s = crew_goto i (Running w) (crew_board (\<lambda>b. b\<lparr>sb_idle := sb_idle b - 1\<rparr>) s)"
| "worker_main spin i (Running w) s =
     crew_goto i Scan_read (crew_board (\<lambda>b. b\<lparr>sb_idle := sb_idle b + 1\<rparr>) (s\<lparr>cr_ran := cr_ran s @ [w]\<rparr>))"
| "worker_main spin i pc s =
     (case wqlist_scan_spin spin i pc s of None \<Rightarrow> wqlist_scan_wait i pc s | r \<Rightarrow> r)"

text \<open>
  The other threads: the end of \<open>manager_workqueue_additem\<close>, and \<open>worker_stop\<close> with \<open>wqlist_mtx\<close> held.  \<open>j\<close> is the thread
  that a signal wakes.
\<close>

fun feeder :: "nat \<Rightarrow> nat \<Rightarrow> crew_pc \<Rightarrow> crew \<Rightarrow> (pwq_error + crew) option" where
  "feeder i j Add_signal s =
     crew_goto i Client (s\<lparr>cr_pcs := (if additem_signals (cr_mgr s) then cond_signal j (cr_pcs s) else cr_pcs s)\<rparr>)"
| "feeder i j Stop_enqueue s =
     (case worker_stop (cr_mgr s) of
        Inl e \<Rightarrow> Some (Inl e)
      | Inr (mg, p) \<Rightarrow> crew_goto i Stop_signal (s\<lparr>cr_mgr := mg, cr_added := cr_added s @ [(p, witem_alloc None 0)]\<rparr>))"
| "feeder i j Stop_signal s = crew_goto i Client (s\<lparr>cr_pcs := cond_signal j (cr_pcs s), cr_mtx := False\<rparr>)"
| "feeder i j _ s = None"

datatype crew_act =
    Do_create "nat list" workqueue_attr
  | Do_add nat nat nat nat
  | Do_stop nat
  | Do_start bool
  | Do_thread nat nat

text \<open>
  What the creation of a queue does to the program: it aborts, or it returns to the client, with a new queue or with an error
  that changes nothing.
\<close>

fun create_outcome :: "(pwq_error + manager) option \<Rightarrow> manager \<Rightarrow> (pwq_error + manager) option" where
  "create_outcome None mg = None"
| "create_outcome (Some (Inr mg')) mg = Some (Inr mg')"
| "create_outcome (Some (Inl e)) mg = Some (if e = Abort then Inl Abort else Inr mg)"

text \<open>
  One step: a client creates a queue that is not an overcommit queue, under \<open>wqlist_mtx\<close>, or adds an item to one; the manager asks
  a worker to stop or starts one; or a thread goes on.
\<close>

definition crew_act :: "u32 \<Rightarrow> crew_act \<Rightarrow> crew \<Rightarrow> (pwq_error + crew) option" where
  "crew_act spin a s =
     (case a of
        Do_create rvs attr \<Rightarrow>
          if cr_mtx s then None
          else map_option (map_sum id (\<lambda>mg. s\<lparr>cr_mgr := mg\<rparr>))
                 (create_outcome (pthread_workqueue_create_np True rvs (Some (attr\<lparr>at_overcommit := False\<rparr>)) (cr_mgr s)) (cr_mgr s))
      | Do_add i p f arg \<Rightarrow>
          if i < length (cr_pcs s) \<and> cr_pcs s ! i = Client \<and> p < length (wqlist (cr_mgr s)) \<and> wqlist (cr_mgr s) ! p \<noteq> None then
            (case additem_enqueue p (witem_alloc (Some f) arg) (cr_mgr s) of
               Inl e \<Rightarrow> Some (Inl e)
             | Inr mg \<Rightarrow> crew_goto i Add_signal (s\<lparr>cr_mgr := mg, cr_added := cr_added s @ [(p, witem_alloc (Some f) arg)]\<rparr>))
          else None
      | Do_stop i \<Rightarrow>
          if i < length (cr_pcs s) \<and> cr_pcs s ! i = Client \<and> wqlist_has_manager (cr_mgr s) \<and> \<not> cr_mtx s
          then crew_goto i Stop_enqueue (s\<lparr>cr_mtx := True\<rparr>) else None
      | Do_start created \<Rightarrow>
          (let mg = fst (worker_start created (cr_mgr s)) in
           Some (Inr (s\<lparr>cr_mgr := mg, cr_pcs := cr_pcs s @ (if created then [Begin] else []),
                        cr_failed := cr_failed s + (if created then 0 else 1)\<rparr>)))
      | Do_thread i j \<Rightarrow>
          if i < length (cr_pcs s) then
            (case worker_main spin i (cr_pcs s ! i) s of None \<Rightarrow> feeder i j (cr_pcs s ! i) s | r \<Rightarrow> r)
          else None)"

inductive crew_step :: "u32 \<Rightarrow> crew \<Rightarrow> crew \<Rightarrow> bool" for spin where
  crew_stepI: "crew_act spin a s = Some (Inr t) \<Longrightarrow> crew_step spin s t"

definition crew_start :: "u32 \<Rightarrow> u32 \<Rightarrow> nat \<Rightarrow> crew" where
  "crew_start nproc active n =
     \<lparr>cr_mgr = fst (manager_init nproc active 0 0 manager_static), cr_mtx = False, cr_spinning = 0,
      cr_pcs = replicate n Client, cr_added = [], cr_taken = [], cr_ran = [], cr_failed = 0\<rparr>"

definition crew_init :: "crew \<Rightarrow> bool" where
  "crew_init s \<longleftrightarrow> (\<exists>nproc active n. s = crew_start nproc active n)"

fun crew_acts :: "u32 \<Rightarrow> crew_act list \<Rightarrow> crew \<Rightarrow> crew option" where
  "crew_acts spin [] s = Some s"
| "crew_acts spin (a # as) s = (case crew_act spin a s of Some (Inr t) \<Rightarrow> crew_acts spin as t | _ \<Rightarrow> None)"

section \<open>The invariant of the workers\<close>

fun pc_item :: "crew_pc \<Rightarrow> work option" where
  "pc_item (Spin_post w) = Some w"
| "pc_item (Spin_leave r) = r"
| "pc_item (Wait_unlock w) = Some w"
| "pc_item (Wait_post w) = Some w"
| "pc_item (Wait_exit w) = Some w"
| "pc_item (Call w) = Some w"
| "pc_item (Running w) = Some w"
| "pc_item _ = None"

definition holds :: "work \<Rightarrow> crew_pc \<Rightarrow> int" where
  "holds w pc = (if pc_item pc = Some w then 1 else 0)"

fun alive_pc :: "crew_pc \<Rightarrow> int" where
  "alive_pc Client = 0"
| "alive_pc Add_signal = 0"
| "alive_pc Stop_enqueue = 0"
| "alive_pc Stop_signal = 0"
| "alive_pc Exited = 0"
| "alive_pc _ = 1"

fun running_pc :: "crew_pc \<Rightarrow> int" where
  "running_pc (Running w) = 1"
| "running_pc _ = 0"

definition idle_pc :: "crew_pc \<Rightarrow> int" where
  "idle_pc pc = alive_pc pc - running_pc pc"

fun begin_pc :: "crew_pc \<Rightarrow> int" where
  "begin_pc Begin = 1"
| "begin_pc _ = 0"

definition slot_used :: "workqueue option list \<Rightarrow> nat \<Rightarrow> bool" where
  "slot_used tab p \<longleftrightarrow> p < 31 \<and> tab ! p \<noteq> None"

definition take_ok :: "workqueue option list \<Rightarrow> nat \<Rightarrow> bool" where
  "take_ok tab idx \<longleftrightarrow> 0 < idx \<and> slot_used tab (idx - 1)"

fun pc_ok :: "workqueue option list \<Rightarrow> crew_pc \<Rightarrow> bool" where
  "pc_ok tab Stop_enqueue = (\<exists>p. slot_used tab p)"
| "pc_ok tab (Scan_take idx) = take_ok tab idx"
| "pc_ok tab (Spin_take idx) = take_ok tab idx"
| "pc_ok tab (Wait_take idx) = take_ok tab idx"
| "pc_ok tab (Spin_post w) = (func w \<noteq> None)"
| "pc_ok tab (Spin_leave r) = (\<forall>w. r = Some w \<longrightarrow> func w \<noteq> None)"
| "pc_ok tab (Call w) = (func w \<noteq> None)"
| "pc_ok tab (Running w) = (func w \<noteq> None)"
| "pc_ok tab (Wait_exit w) = (func w = None)"
| "pc_ok tab _ = True"

definition of_queue :: "nat \<Rightarrow> (nat \<times> work) list \<Rightarrow> work list" where
  "of_queue p xs = map snd (filter (\<lambda>x. fst x = p) xs)"

definition queues_inv :: "crew \<Rightarrow> bool" where
  "queues_inv s \<longleftrightarrow> manager_ok (cr_mgr s) \<and>
     (\<forall>p<31. of_queue p (cr_added s) = of_queue p (cr_taken s) @ slot_items (wqlist (cr_mgr s) ! p)) \<and>
     (\<forall>x \<in> set (cr_added s). fst x < 31) \<and> (\<forall>x \<in> set (cr_taken s). fst x < 31) \<and>
     (wqlist_has_manager (cr_mgr s) \<longrightarrow> (\<exists>p. slot_used (wqlist (cr_mgr s)) p))"

definition pcs_inv :: "crew \<Rightarrow> bool" where
  "pcs_inv s \<longleftrightarrow> (\<forall>pc \<in> set (cr_pcs s). pc_ok (wqlist (cr_mgr s)) pc)"

definition items_inv :: "crew \<Rightarrow> bool" where
  "items_inv s \<longleftrightarrow>
     (\<forall>w. int (count (mset (map snd (cr_taken s))) w) = int (count (mset (cr_ran s)) w) + tsum (holds w) (cr_pcs s))"

definition counts_inv :: "crew \<Rightarrow> bool" where
  "counts_inv s \<longleftrightarrow>
     sb_idle (board (cr_mgr s)) = of_int (tsum idle_pc (cr_pcs s)) \<and>
     sb_count (board (cr_mgr s)) = of_int (tsum alive_pc (cr_pcs s)) \<and>
     pending_thread_create (cr_mgr s) = of_int (tsum begin_pc (cr_pcs s)) + of_nat (cr_failed s)"

definition crew_inv :: "crew \<Rightarrow> bool" where
  "crew_inv s \<longleftrightarrow> queues_inv s \<and> pcs_inv s \<and> items_inv s \<and> counts_inv s"

lemma of_queue_simps [simp]: "of_queue p [] = []" "of_queue p (xs @ ys) = of_queue p xs @ of_queue p ys"
  "of_queue p (x # xs) = (if fst x = p then snd x # of_queue p xs else of_queue p xs)"
  by (simp_all add: of_queue_def)

lemma pc_ok_mono:
  assumes "pc_ok tab pc" "\<And>p. slot_used tab p \<Longrightarrow> slot_used tab' p"
  shows "pc_ok tab' pc"
  using assms by (cases pc) (auto simp: take_ok_def)

text \<open>A signal changes nothing that the invariant speaks of.\<close>

lemma cond_signal_cases: "cond_signal j pcs = pcs \<or> (\<exists>k<length pcs. pcs ! k = Sleeping \<and> cond_signal j pcs = pcs[k := Woken])"
  using find_Some_iff [of "\<lambda>k. pcs ! k = Sleeping" "[0..<length pcs]"] by (auto simp: cond_signal_def split: option.splits)

lemma cond_signal_simps [simp]:
  "length (cond_signal j pcs) = length pcs"
  "tsum (holds w) (cond_signal j pcs) = tsum (holds w) pcs"
  "tsum idle_pc (cond_signal j pcs) = tsum idle_pc pcs"
  "tsum alive_pc (cond_signal j pcs) = tsum alive_pc pcs"
  "tsum begin_pc (cond_signal j pcs) = tsum begin_pc pcs"
  using cond_signal_cases [of j pcs] by (auto simp: tsum_update holds_def idle_pc_def)

lemma cond_signal_nth: "i < length pcs \<Longrightarrow> pcs ! i \<noteq> Sleeping \<Longrightarrow> cond_signal j pcs ! i = pcs ! i"
  using cond_signal_cases [of j pcs] by (auto simp: nth_list_update)

lemma cond_signal_ok: "\<forall>pc \<in> set pcs. pc_ok tab pc \<Longrightarrow> \<forall>pc \<in> set (cond_signal j pcs). pc_ok tab pc"
  using cond_signal_cases [of j pcs] by (auto dest!: set_update_subset_insert [THEN subsetD])

text \<open>A step of thread \<open>i\<close> that leaves the queues alone.\<close>

definition same_queues :: "crew \<Rightarrow> crew \<Rightarrow> bool" where
  "same_queues s t \<longleftrightarrow> wqlist (cr_mgr t) = wqlist (cr_mgr s) \<and> wqlist_mask (cr_mgr t) = wqlist_mask (cr_mgr s) \<and>
     ocwq (cr_mgr t) = ocwq (cr_mgr s) \<and> ocwq_mask (cr_mgr t) = ocwq_mask (cr_mgr s) \<and>
     wqlist_has_manager (cr_mgr t) = wqlist_has_manager (cr_mgr s) \<and>
     cr_added t = cr_added s \<and> cr_taken t = cr_taken s"

lemma same_queues_inv: "queues_inv s \<Longrightarrow> same_queues s t \<Longrightarrow> queues_inv t"
  by (simp add: queues_inv_def same_queues_def manager_ok_def)

lemma pcs_inv_move:
  assumes "pcs_inv s" "wqlist (cr_mgr t) = wqlist (cr_mgr s)" "pc_ok (wqlist (cr_mgr s)) pc" "cr_pcs t = (cr_pcs s)[i := pc]"
  shows "pcs_inv t"
  using assms by (auto simp: pcs_inv_def dest!: set_update_subset_insert [THEN subsetD])

lemma items_inv_move:
  assumes "items_inv s" "i < length (cr_pcs s)" "cr_taken t = cr_taken s" "cr_pcs t = (cr_pcs s)[i := pc]"
    and "cr_ran t = cr_ran s @ r" "\<And>w. holds w (cr_pcs s ! i) = holds w pc + int (count (mset r) w)"
  shows "items_inv t"
  using assms by (simp add: items_inv_def tsum_update)

lemma counts_inv_move:
  assumes "counts_inv s" "i < length (cr_pcs s)" "cr_pcs t = (cr_pcs s)[i := pc]" "cr_failed t = cr_failed s"
    and "sb_idle (board (cr_mgr t)) = sb_idle (board (cr_mgr s)) + of_int (idle_pc pc - idle_pc (cr_pcs s ! i))"
    and "sb_count (board (cr_mgr t)) = sb_count (board (cr_mgr s)) + of_int (alive_pc pc - alive_pc (cr_pcs s ! i))"
    and "pending_thread_create (cr_mgr t) = pending_thread_create (cr_mgr s) + of_int (begin_pc pc - begin_pc (cr_pcs s ! i))"
  shows "counts_inv t"
  using assms by (simp add: counts_inv_def tsum_update)

lemma crew_inv_move:
  assumes "crew_inv s" "i < length (cr_pcs s)" "same_queues s t" "cr_pcs t = (cr_pcs s)[i := pc]"
    and "cr_ran t = cr_ran s @ r" "\<And>w. holds w (cr_pcs s ! i) = holds w pc + int (count (mset r) w)"
    and "pc_ok (wqlist (cr_mgr s)) pc" "cr_failed t = cr_failed s"
    and "sb_idle (board (cr_mgr t)) = sb_idle (board (cr_mgr s)) + of_int (idle_pc pc - idle_pc (cr_pcs s ! i))"
    and "sb_count (board (cr_mgr t)) = sb_count (board (cr_mgr s)) + of_int (alive_pc pc - alive_pc (cr_pcs s ! i))"
    and "pending_thread_create (cr_mgr t) = pending_thread_create (cr_mgr s) + of_int (begin_pc pc - begin_pc (cr_pcs s ! i))"
  shows "crew_inv t"
  unfolding crew_inv_def
proof (intro conjI)
  show "queues_inv t"
    using assms(1,3) same_queues_inv by (auto simp: crew_inv_def)
  show "pcs_inv t"
    by (rule pcs_inv_move [of s]) (use assms in \<open>auto simp: crew_inv_def same_queues_def\<close>)
  show "items_inv t"
    by (rule items_inv_move [of s i t pc r]) (use assms in \<open>auto simp: crew_inv_def same_queues_def\<close>)
  show "counts_inv t"
    by (rule counts_inv_move [of s i t pc]) (use assms in \<open>auto simp: crew_inv_def\<close>)
qed

text \<open>The outcome of a step: no crash, and the invariant again.\<close>

definition good :: "(pwq_error + crew) option \<Rightarrow> bool" where
  "good r \<longleftrightarrow> (\<forall>x. r = Some x \<longrightarrow> (\<exists>t. x = Inr t \<and> crew_inv t))"

lemma good_simps [simp]: "good None" "good (Some (Inr t)) \<longleftrightarrow> crew_inv t" "\<not> good (Some (Inl e))"
  by (simp_all add: good_def)

lemma crew_inv_queues:
  assumes "crew_inv s"
  shows "manager_ok (cr_mgr s)" "table_ok False (wqlist (cr_mgr s)) (wqlist_mask (cr_mgr s))"
    "length (wqlist (cr_mgr s)) = 31"
    "i < length (cr_pcs s) \<Longrightarrow> pc_ok (wqlist (cr_mgr s)) (cr_pcs s ! i)"
  using assms by (auto simp: crew_inv_def queues_inv_def pcs_inv_def manager_ok_def dest: table_okD(1))

text \<open>A step that neither takes nor runs an item and changes no count.\<close>

definition same_load :: "crew_pc \<Rightarrow> crew_pc \<Rightarrow> bool" where
  "same_load pc pc' \<longleftrightarrow> pc_item pc' = pc_item pc \<and> idle_pc pc' = idle_pc pc \<and> alive_pc pc' = alive_pc pc \<and> begin_pc pc' = begin_pc pc"

lemma crew_inv_same:
  assumes "crew_inv s" "i < length (cr_pcs s)" "same_queues s t" "cr_pcs t = (cr_pcs s)[i := pc]" "cr_ran t = cr_ran s"
    and "same_load (cr_pcs s ! i) pc" "pc_ok (wqlist (cr_mgr s)) pc" "cr_failed t = cr_failed s"
    and "sb_idle (board (cr_mgr t)) = sb_idle (board (cr_mgr s))" "sb_count (board (cr_mgr t)) = sb_count (board (cr_mgr s))"
    and "pending_thread_create (cr_mgr t) = pending_thread_create (cr_mgr s)"
  shows "crew_inv t"
  by (rule crew_inv_move [OF assms(1-4), of "[]"]) (use assms in \<open>simp_all add: same_load_def holds_def\<close>)

text \<open>Reading the mask.\<close>

lemma crew_read_take_ok: "crew_inv s \<Longrightarrow> ffs (wqlist_mask (cr_mgr s)) = Suc k \<Longrightarrow> take_ok (wqlist (cr_mgr s)) (Suc k)"
  using ffs_table(2) [OF crew_inv_queues(2), of s k]
  by (cases "wqlist (cr_mgr s) ! k") (auto simp: take_ok_def slot_used_def)

lemma crew_read_good:
  assumes "crew_inv s" "i < length (cr_pcs s)"
    and "same_load (cr_pcs s ! i) nothing" "\<And>idx. same_load (cr_pcs s ! i) (look idx)"
    and "pc_ok (wqlist (cr_mgr s)) nothing"
    and "\<And>idx. take_ok (wqlist (cr_mgr s)) idx \<Longrightarrow> pc_ok (wqlist (cr_mgr s)) (look idx)"
  shows "good (crew_read i look nothing s)"
proof -
  let ?pc = "if ffs (wqlist_mask (cr_mgr s)) = 0 then nothing else look (ffs (wqlist_mask (cr_mgr s)))"
  have "pc_ok (wqlist (cr_mgr s)) ?pc" "same_load (cr_pcs s ! i) ?pc"
    using assms(3-6) crew_read_take_ok [OF assms(1)] by (cases "ffs (wqlist_mask (cr_mgr s))"; simp)+
  then have "crew_inv (s\<lparr>cr_pcs := (cr_pcs s)[i := ?pc]\<rparr>)"
    by (intro crew_inv_same [OF assms(1,2), of _ ?pc]) (simp_all add: same_queues_def)
  then show ?thesis
    by (simp add: crew_read_def crew_goto_def Let_def)
qed

text \<open>Taking an item.\<close>

lemma slot_used_update: "slot_used tab p \<Longrightarrow> slot_used (tab[k := Some q]) p"
  by (cases "k < length tab") (auto simp: slot_used_def nth_list_update list_update_beyond)

lemma queues_inv_taken:
  assumes inv: "queues_inv s" and k: "k < 31" "wqlist (cr_mgr s) ! k = Some q" "item_list q = w # rest"
    and t: "manager_ok (cr_mgr t)" "wqlist (cr_mgr t) = (wqlist (cr_mgr s))[k := Some (q\<lparr>item_list := rest\<rparr>)]"
      "wqlist_has_manager (cr_mgr t) = wqlist_has_manager (cr_mgr s)" "cr_added t = cr_added s" "cr_taken t = cr_taken s @ [(k, w)]"
  shows "queues_inv t"
proof -
  have "length (wqlist (cr_mgr s)) = 31"
    using inv by (auto simp: queues_inv_def manager_ok_def dest: table_okD(1))
  then show ?thesis
    using inv k t by (auto simp: queues_inv_def nth_list_update intro: slot_used_update)
qed

lemma items_inv_taken:
  assumes "items_inv s" "i < length (cr_pcs s)" "cr_taken t = cr_taken s @ [(k, w)]" "cr_ran t = cr_ran s"
    and "cr_pcs t = (cr_pcs s)[i := pc]" "pc_item (cr_pcs s ! i) = None" "pc_item pc = Some w"
  shows "items_inv t"
  using assms by (auto simp: items_inv_def tsum_update holds_def)

lemma wqlist_scan_take_frame:
  "wqlist_scan_take idx skip mg = Inr (mg', r) \<Longrightarrow>
     board mg' = board mg \<and> pending_thread_create mg' = pending_thread_create mg \<and> wqlist_has_manager mg' = wqlist_has_manager mg"
  by (auto simp: wqlist_scan_take_def reset_queue_mask_def Let_def split: option.splits list.splits if_splits)

lemma crew_take_good:
  assumes inv: "crew_inv s" and i: "i < length (cr_pcs s)" and idx: "take_ok (wqlist (cr_mgr s)) idx"
    and old: "pc_item (cr_pcs s ! i) = None" "idle_pc (cr_pcs s ! i) = 1" "alive_pc (cr_pcs s ! i) = 1" "begin_pc (cr_pcs s ! i) = 0"
    and empty: "pc_item nothing = None" "idle_pc nothing = 1" "alive_pc nothing = 1" "begin_pc nothing = 0" "\<And>tab. pc_ok tab nothing"
    and found: "\<And>w. pc_item (found w) = Some w" "\<And>w. idle_pc (found w) = 1" "\<And>w. alive_pc (found w) = 1"
      "\<And>w. begin_pc (found w) = 0" "\<And>w tab. \<not> (skip \<and> func w = None) \<Longrightarrow> pc_ok tab (found w)"
  shows "good (Some (crew_take i idx skip found nothing s))"
proof -
  obtain q where q: "wqlist (cr_mgr s) ! (idx - 1) = Some q" and k: "idx - 1 < 31" "0 < idx" "idx \<le> 31"
    using idx by (auto simp: take_ok_def slot_used_def)
  show ?thesis
    using q
  proof (cases rule: wqlist_scan_take_cases [where skip = skip])
    case none
    have "crew_inv (s\<lparr>cr_pcs := (cr_pcs s)[i := nothing]\<rparr>)"
      by (rule crew_inv_same [OF inv i, of _ nothing]) (use old empty in \<open>simp_all add: same_queues_def same_load_def\<close>)
    then show ?thesis
      by (simp add: crew_take_def none(1))
  next
    case (item w rest mg')
    let ?t = "s\<lparr>cr_mgr := mg', cr_pcs := (cr_pcs s)[i := found w], cr_taken := cr_taken s @ [(idx - 1, w)]\<rparr>"
    note fr = wqlist_scan_take_frame [OF item(3)]
    have "queues_inv ?t"
      by (rule queues_inv_taken [of s "idx - 1" q w rest])
        (use inv k q item fr wqlist_scan_take_ok [OF crew_inv_queues(1) [OF inv] k(2,3) item(3)] in \<open>auto simp: crew_inv_def\<close>)
    moreover have "pcs_inv ?t"
      using inv found(5) [OF item(2)]
      by (auto simp: pcs_inv_def crew_inv_def item(4) intro: pc_ok_mono slot_used_update dest!: set_update_subset_insert [THEN subsetD])
    moreover have "items_inv ?t"
      by (rule items_inv_taken [of s i _ "idx - 1" w "found w"]) (use inv i old found in \<open>auto simp: crew_inv_def\<close>)
    moreover have "counts_inv ?t"
      by (rule counts_inv_move [of s i _ "found w"]) (use inv i old found fr in \<open>auto simp: crew_inv_def\<close>)
    ultimately show ?thesis
      by (simp add: crew_take_def item(3) crew_inv_def)
  qed
qed

text \<open>Adding an item.\<close>

lemma queues_inv_added:
  assumes inv: "queues_inv s" and k: "k < 31" "wqlist (cr_mgr s) ! k = Some q"
    and t: "manager_ok (cr_mgr t)" "wqlist (cr_mgr t) = (wqlist (cr_mgr s))[k := Some (append_item w q)]"
      "wqlist_has_manager (cr_mgr t) = wqlist_has_manager (cr_mgr s)" "cr_taken t = cr_taken s" "cr_added t = cr_added s @ [(k, w)]"
  shows "queues_inv t"
proof -
  have "length (wqlist (cr_mgr s)) = 31"
    using inv by (auto simp: queues_inv_def manager_ok_def dest: table_okD(1))
  then show ?thesis
    using inv k t by (auto simp: queues_inv_def nth_list_update append_item_def intro: slot_used_update)
qed

lemma crew_add_inv:
  assumes inv: "crew_inv s" and i: "i < length (cr_pcs s)" and k: "k < 31" "wqlist (cr_mgr s) ! k = Some q"
    and mg: "manager_ok mg" "wqlist mg = (wqlist (cr_mgr s))[k := Some (append_item w q)]"
      "wqlist_has_manager mg = wqlist_has_manager (cr_mgr s)" "board mg = board (cr_mgr s)"
      "pending_thread_create mg = pending_thread_create (cr_mgr s)"
    and pcs: "pc_item (cr_pcs s ! i) = None" "alive_pc (cr_pcs s ! i) = 0" "idle_pc (cr_pcs s ! i) = 0" "begin_pc (cr_pcs s ! i) = 0"
      "pc_item pc = None" "alive_pc pc = 0" "idle_pc pc = 0" "begin_pc pc = 0" "\<And>tab. pc_ok tab pc"
  shows "crew_inv (s\<lparr>cr_mgr := mg, cr_added := cr_added s @ [(k, w)], cr_pcs := (cr_pcs s)[i := pc]\<rparr>)" (is "crew_inv ?t")
  unfolding crew_inv_def
proof (intro conjI)
  show "queues_inv ?t"
    by (rule queues_inv_added [of s k q]) (use inv k mg in \<open>auto simp: crew_inv_def\<close>)
  show "pcs_inv ?t"
    using inv pcs(9) by (auto simp: pcs_inv_def crew_inv_def mg(2) intro: pc_ok_mono slot_used_update dest!: set_update_subset_insert [THEN subsetD])
  show "items_inv ?t"
    by (rule items_inv_move [of s i _ pc "[]"]) (use inv i pcs in \<open>auto simp: crew_inv_def holds_def\<close>)
  show "counts_inv ?t"
    by (rule counts_inv_move [of s i _ pc]) (use inv i pcs mg in \<open>auto simp: crew_inv_def\<close>)
qed

lemma crew_goto_same:
  assumes "crew_inv s" "i < length (cr_pcs s)" "same_queues s s'" "cr_pcs s' = cr_pcs s" "cr_ran s' = cr_ran s"
    and "same_load (cr_pcs s ! i) pc" "pc_ok (wqlist (cr_mgr s)) pc" "cr_failed s' = cr_failed s"
    and "sb_idle (board (cr_mgr s')) = sb_idle (board (cr_mgr s))" "sb_count (board (cr_mgr s')) = sb_count (board (cr_mgr s))"
    and "pending_thread_create (cr_mgr s') = pending_thread_create (cr_mgr s)"
  shows "good (crew_goto i pc s')"
proof -
  have "crew_inv (s'\<lparr>cr_pcs := (cr_pcs s')[i := pc]\<rparr>)"
    by (rule crew_inv_same [OF assms(1,2), of _ pc]) (use assms in \<open>simp_all add: same_queues_def\<close>)
  then show ?thesis
    by (simp add: crew_goto_def)
qed

lemma crew_goto_move:
  assumes "crew_inv s" "i < length (cr_pcs s)" "same_queues s s'" "cr_pcs s' = cr_pcs s"
    and "cr_ran s' = cr_ran s @ r" "\<And>w. holds w (cr_pcs s ! i) = holds w pc + int (count (mset r) w)"
    and "pc_ok (wqlist (cr_mgr s)) pc" "cr_failed s' = cr_failed s"
    and "sb_idle (board (cr_mgr s')) = sb_idle (board (cr_mgr s)) + of_int (idle_pc pc - idle_pc (cr_pcs s ! i))"
    and "sb_count (board (cr_mgr s')) = sb_count (board (cr_mgr s)) + of_int (alive_pc pc - alive_pc (cr_pcs s ! i))"
    and "pending_thread_create (cr_mgr s') = pending_thread_create (cr_mgr s) + of_int (begin_pc pc - begin_pc (cr_pcs s ! i))"
  shows "good (crew_goto i pc s')"
proof -
  have "crew_inv (s'\<lparr>cr_pcs := (cr_pcs s')[i := pc]\<rparr>)"
    by (rule crew_inv_move [OF assms(1,2), of _ pc r]) (use assms in \<open>simp_all add: same_queues_def\<close>)
  then show ?thesis
    by (simp add: crew_goto_def)
qed

lemmas load_simps = same_load_def idle_pc_def same_queues_def holds_def crew_board_def post_if_last_idle_def

lemma wqlist_scan_spin_good:
  assumes inv: "crew_inv s" and i: "i < length (cr_pcs s)"
  shows "good (wqlist_scan_spin spin i (cr_pcs s ! i) s)"
proof (cases "cr_pcs s ! i")
  case Spin_enter
  show ?thesis
    unfolding Spin_enter wqlist_scan_spin.simps Let_def
    by (intro crew_goto_same [OF inv i]) (auto simp: Spin_enter load_simps)
next
  case Spin_read
  show ?thesis
    unfolding Spin_read wqlist_scan_spin.simps by (rule crew_read_good [OF inv i]) (simp_all add: Spin_read load_simps)
next
  case (Spin_take idx)
  show ?thesis
    unfolding Spin_take wqlist_scan_spin.simps using crew_inv_queues(4) [OF inv i]
    by (intro crew_take_good [OF inv i]) (simp_all add: Spin_take load_simps)
next
  case (Spin_post w)
  show ?thesis
    unfolding Spin_post wqlist_scan_spin.simps using crew_inv_queues(4) [OF inv i]
    by (intro crew_goto_same [OF inv i]) (auto simp: Spin_post load_simps)
next
  case (Spin_leave r)
  show ?thesis
    unfolding Spin_leave wqlist_scan_spin.simps using crew_inv_queues(4) [OF inv i]
    by (intro crew_goto_same [OF inv i]) (auto simp: Spin_leave load_simps split: option.splits)
qed simp_all

lemma wqlist_scan_wait_good:
  assumes inv: "crew_inv s" and i: "i < length (cr_pcs s)"
  shows "good (wqlist_scan_wait i (cr_pcs s ! i) s)"
proof (cases "cr_pcs s ! i")
  case Wait_lock
  show ?thesis
    using crew_goto_same [OF inv i, of "s\<lparr>cr_mtx := True\<rparr>" Wait_read] by (simp add: Wait_lock load_simps)
next
  case Wait_read
  show ?thesis
    unfolding Wait_read wqlist_scan_wait.simps by (rule crew_read_good [OF inv i]) (simp_all add: Wait_read load_simps)
next
  case (Wait_take idx)
  show ?thesis
    unfolding Wait_take wqlist_scan_wait.simps using crew_inv_queues(4) [OF inv i]
    by (intro crew_take_good [OF inv i]) (simp_all add: Wait_take load_simps)
next
  case Wait_cond
  show ?thesis
    unfolding Wait_cond wqlist_scan_wait.simps by (rule crew_goto_same [OF inv i]) (simp_all add: Wait_cond load_simps)
next
  case Sleeping
  show ?thesis
    unfolding Sleeping wqlist_scan_wait.simps by (rule crew_goto_same [OF inv i]) (simp_all add: Sleeping load_simps)
next
  case Woken
  show ?thesis
    using crew_goto_same [OF inv i, of "s\<lparr>cr_mtx := True\<rparr>" Wait_read] by (simp add: Woken load_simps)
next
  case (Wait_unlock w)
  show ?thesis
    unfolding Wait_unlock wqlist_scan_wait.simps by (rule crew_goto_same [OF inv i]) (simp_all add: Wait_unlock load_simps)
next
  case (Wait_post w)
  show ?thesis
    unfolding Wait_post wqlist_scan_wait.simps by (rule crew_goto_same [OF inv i]) (simp_all add: Wait_post load_simps)
next
  case (Wait_exit w)
  show ?thesis
    unfolding Wait_exit wqlist_scan_wait.simps
    by (rule crew_goto_move [OF inv i, of _ "[w]"]) (simp_all add: Wait_exit load_simps)
qed simp_all

lemma scan_wait_or_spin_good:
  assumes "crew_inv s" "i < length (cr_pcs s)"
  shows "good (case wqlist_scan_spin spin i (cr_pcs s ! i) s of None \<Rightarrow> wqlist_scan_wait i (cr_pcs s ! i) s | Some x \<Rightarrow> Some x)"
  using wqlist_scan_spin_good [OF assms, of spin] wqlist_scan_wait_good [OF assms] by (auto split: option.splits)

lemma worker_main_good:
  assumes inv: "crew_inv s" and i: "i < length (cr_pcs s)"
  shows "good (worker_main spin i (cr_pcs s ! i) s)"
proof (cases "cr_pcs s ! i")
  case Begin
  show ?thesis
    unfolding Begin worker_main.simps by (rule crew_goto_move [OF inv i, of _ "[]"]) (simp_all add: Begin load_simps)
next
  case Scan_read
  show ?thesis
    unfolding Scan_read worker_main.simps by (rule crew_read_good [OF inv i]) (simp_all add: Scan_read load_simps)
next
  case (Scan_take idx)
  show ?thesis
    unfolding Scan_take worker_main.simps using crew_inv_queues(4) [OF inv i]
    by (intro crew_take_good [OF inv i]) (simp_all add: Scan_take load_simps)
next
  case (Call w)
  show ?thesis
    unfolding Call worker_main.simps using crew_inv_queues(4) [OF inv i]
    by (intro crew_goto_move [OF inv i, of _ "[]"]) (simp_all add: Call load_simps)
next
  case (Running w)
  show ?thesis
    unfolding Running worker_main.simps by (rule crew_goto_move [OF inv i, of _ "[w]"]) (simp_all add: Running load_simps)
qed (use scan_wait_or_spin_good [OF inv i, of spin] in \<open>simp_all cong: option.case_cong\<close>)

text \<open>The threads that feed the workers.\<close>

lemma crew_inv_cond_signal: "crew_inv s \<Longrightarrow> crew_inv (s\<lparr>cr_pcs := cond_signal j (cr_pcs s)\<rparr>)"
  using cond_signal_ok [of "cr_pcs s" "wqlist (cr_mgr s)" j]
  by (auto simp: crew_inv_def queues_inv_def pcs_inv_def items_inv_def counts_inv_def)

lemma worker_stop_total: "slot_used (wqlist mg) p \<Longrightarrow> \<exists>mg' k. worker_stop mg = Inr (mg', k)"
proof -
  assume "slot_used (wqlist mg) p"
  then have "find (\<lambda>i. wqlist mg ! i \<noteq> None) [0..<31] \<noteq> None"
    by (auto simp: find_None_iff slot_used_def)
  then obtain i where "find (\<lambda>i. wqlist mg ! i \<noteq> None) [0..<31] = Some i"
    by blast
  moreover from this have "wqlist mg ! i \<noteq> None"
    by (auto simp: find_Some_iff)
  ultimately show ?thesis
    by (auto simp: worker_stop_def PTHREAD_WORKQUEUE_MAX_def)
qed

lemma worker_stop_frame:
  "worker_stop mg = Inr (mg', k) \<Longrightarrow> wqlist mg ! k = Some q \<Longrightarrow>
     wqlist mg' = (wqlist mg)[k := Some (append_item (witem_alloc None 0) q)] \<and> board mg' = board mg \<and>
     wqlist_has_manager mg' = wqlist_has_manager mg \<and> pending_thread_create mg' = pending_thread_create mg"
  by (auto simp: worker_stop_def split: option.splits)

lemma register_frame:
  assumes "register_queue q mg = Inr mg'" "\<not> overcommit q" "0 \<le> queueprio q" "queueprio q < 4" "item_list q = []"
  shows "\<exists>p q'. p < 31 \<and> wqlist mg ! p = None \<and> item_list q' = [] \<and> wqlist mg' = (wqlist mg)[p := Some q'] \<and>
     board mg' = board mg \<and> pending_thread_create mg' = pending_thread_create mg"
  using assms
  by (auto simp: register_queue_def Let_def split: if_splits
      intro!: exI [of _ "nat (queueprio q)"] exI [of _ "q\<lparr>wqlist_index := nat (queueprio q)\<rparr>"])

lemma create_frame:
  assumes "pthread_workqueue_create_np True rvs (Some (attr\<lparr>at_overcommit := False\<rparr>)) mg = Some (Inr mg')"
  shows "\<exists>p q. p < 31 \<and> wqlist mg ! p = None \<and> item_list q = [] \<and> wqlist mg' = (wqlist mg)[p := Some q] \<and>
     board mg' = board mg \<and> pending_thread_create mg' = pending_thread_create mg"
proof -
  let ?q = "\<lparr>wq_sig = PTHREAD_WORKQUEUE_SIG, wq_flags = 0, queueprio = at_queueprio attr, overcommit = False,
      wqlist_index = 0, item_list = []\<rparr>"
  have prio: "0 \<le> at_queueprio attr" "at_queueprio attr < 4"
    and "register_queue ?q mg = Inr mg' \<or> register_queue ?q (mg\<lparr>wqlist_has_manager := True\<rparr>) = Inr mg'"
    using assms
    by (auto simp: pthread_workqueue_create_np_def manager_workqueue_create_def Let_def WORKQ_NUM_PRIOQUEUE_def
        split: if_splits option.splits sum.splits dest!: manager_start_keeps)
  then show ?thesis
    using register_frame [of ?q mg mg'] register_frame [of ?q "mg\<lparr>wqlist_has_manager := True\<rparr>" mg'] prio by auto
qed

lemma feeder_good:
  assumes inv: "crew_inv s" and i: "i < length (cr_pcs s)"
  shows "good (feeder i j (cr_pcs s ! i) s)"
proof (cases "cr_pcs s ! i")
  case Add_signal
  have "crew_inv (s\<lparr>cr_pcs := cond_signal j (cr_pcs s)\<rparr>)"
    by (rule crew_inv_cond_signal [OF inv])
  then show ?thesis
    unfolding Add_signal feeder.simps using inv i
    by (intro crew_goto_same [where s = "s\<lparr>cr_pcs := (if additem_signals (cr_mgr s) then cond_signal j (cr_pcs s) else cr_pcs s)\<rparr>"])
      (simp_all add: Add_signal load_simps cond_signal_nth)
next
  case Stop_enqueue
  then obtain p where p: "slot_used (wqlist (cr_mgr s)) p"
    using crew_inv_queues(4) [OF inv i] by auto
  then obtain mg k where st: "worker_stop (cr_mgr s) = Inr (mg, k)"
    using worker_stop_total by blast
  obtain q where q: "wqlist (cr_mgr s) ! k = Some q"
    using worker_stop_ok(3) [OF crew_inv_queues(1) [OF inv] st] by blast
  have "crew_inv (s\<lparr>cr_mgr := mg, cr_added := cr_added s @ [(k, witem_alloc None 0)], cr_pcs := (cr_pcs s)[i := Stop_signal]\<rparr>)"
    by (rule crew_add_inv [OF inv i worker_stop_ok(2) [OF crew_inv_queues(1) [OF inv] st] q worker_stop_ok(1) [OF crew_inv_queues(1) [OF inv] st]])
      (use worker_stop_frame [OF st q] Stop_enqueue in \<open>simp_all add: idle_pc_def\<close>)
  then show ?thesis
    unfolding Stop_enqueue by (simp add: st crew_goto_def)
next
  case Stop_signal
  have "crew_inv (s\<lparr>cr_pcs := cond_signal j (cr_pcs s)\<rparr>)"
    by (rule crew_inv_cond_signal [OF inv])
  then show ?thesis
    unfolding Stop_signal feeder.simps using i
    by (intro crew_goto_same [where s = "s\<lparr>cr_pcs := cond_signal j (cr_pcs s)\<rparr>"]) (simp_all add: Stop_signal load_simps cond_signal_nth)
qed simp_all

text \<open>Creating queues and starting workers.\<close>

lemma crew_create_inv:
  assumes inv: "crew_inv s"
    and cr: "pthread_workqueue_create_np True rvs (Some (attr\<lparr>at_overcommit := False\<rparr>)) (cr_mgr s) = Some (Inr mg)"
  shows "crew_inv (s\<lparr>cr_mgr := mg\<rparr>)"
proof -
  obtain p q where p: "p < 31" "wqlist (cr_mgr s) ! p = None" "item_list q = []" "wqlist mg = (wqlist (cr_mgr s))[p := Some q]"
    and fr: "board mg = board (cr_mgr s)" "pending_thread_create mg = pending_thread_create (cr_mgr s)"
    using create_frame [OF cr] by blast
  have ok: "manager_ok mg"
    by (rule pthread_workqueue_create_np_ok [OF crew_inv_queues(1) [OF inv] cr])
  have len: "length (wqlist (cr_mgr s)) = 31"
    by (rule crew_inv_queues(3) [OF inv])
  have "slot_used (wqlist mg) p"
    using p len by (simp add: slot_used_def)
  moreover have "slot_items (wqlist mg ! k) = slot_items (wqlist (cr_mgr s) ! k)" for k
    using p len by (auto simp: nth_list_update)
  ultimately have "queues_inv (s\<lparr>cr_mgr := mg\<rparr>)"
    using inv ok by (auto simp: crew_inv_def queues_inv_def)
  then show ?thesis
    using inv by (auto simp: crew_inv_def pcs_inv_def items_inv_def counts_inv_def fr p(4) intro: pc_ok_mono slot_used_update)
qed

lemma crew_start_inv:
  assumes inv: "crew_inv s"
  shows "crew_inv (s\<lparr>cr_mgr := fst (worker_start c (cr_mgr s)), cr_pcs := cr_pcs s @ (if c then [Begin] else []),
     cr_failed := cr_failed s + (if c then 0 else 1)\<rparr>)"
  using inv
  by (auto simp: crew_inv_def queues_inv_def pcs_inv_def items_inv_def counts_inv_def manager_ok_def worker_start_def Let_def
      idle_pc_def holds_def)

lemma map_outcome_iff:
  "map_sum id f z = Inr t \<longleftrightarrow> (\<exists>x. z = Inr x \<and> t = f x)"
  "map_sum id f z = Inl e \<longleftrightarrow> z = Inl e"
  by (cases z; auto)+

lemma create_outcome_Inr: "create_outcome r mg = Some (Inr mg') \<Longrightarrow> r = Some (Inr mg') \<or> mg' = mg"
  by (induction r mg rule: create_outcome.induct) (auto split: if_splits)


text \<open>Creating a queue keeps the invariant; it aborts for a slot in use, or when the manager cannot be started.\<close>

lemma crew_create_good:
  assumes "crew_inv s" "crew_act spin (Do_create rvs attr) s = Some (Inr t)"
  shows "crew_inv t"
proof -
  obtain mg where "create_outcome (pthread_workqueue_create_np True rvs (Some (attr\<lparr>at_overcommit := False\<rparr>)) (cr_mgr s)) (cr_mgr s)
      = Some (Inr mg)" "t = s\<lparr>cr_mgr := mg\<rparr>"
    using assms(2) by (auto simp: crew_act_def map_outcome_iff split: if_splits)
  then show ?thesis
    using create_outcome_Inr crew_create_inv [OF assms(1)] assms(1) by fastforce
qed



lemma crew_act_good:
  assumes inv: "crew_inv s" and a: "\<And>rvs attr. a \<noteq> Do_create rvs attr"
  shows "good (crew_act spin a s)"
proof (cases a)
  case (Do_create rvs attr)
  then show ?thesis
    using a by simp
next
  case (Do_add i p f arg)
  show ?thesis
  proof (cases "i < length (cr_pcs s) \<and> cr_pcs s ! i = Client \<and> p < length (wqlist (cr_mgr s)) \<and> wqlist (cr_mgr s) ! p \<noteq> None")
    case True
    let ?w = "witem_alloc (Some f) arg"
    obtain q mg where q: "wqlist (cr_mgr s) ! p = Some q" and mg: "additem_enqueue p ?w (cr_mgr s) = Inr mg"
      using True by (auto simp: additem_enqueue_def)
    have p: "p < 31"
      using True crew_inv_queues(3) [OF inv] by simp
    have "crew_inv (s\<lparr>cr_mgr := mg, cr_added := cr_added s @ [(p, ?w)], cr_pcs := (cr_pcs s)[i := Add_signal]\<rparr>)"
      by (rule crew_add_inv [OF inv _ p q additem_enqueue_ok [OF crew_inv_queues(1) [OF inv] p mg]])
        (use True mg q in \<open>auto simp: additem_enqueue_def idle_pc_def\<close>)
    then show ?thesis
      using True mg by (simp add: Do_add crew_act_def crew_goto_def)
  qed (auto simp: Do_add crew_act_def)
next
  case (Do_stop i)
  have "\<exists>p. slot_used (wqlist (cr_mgr s)) p" if "wqlist_has_manager (cr_mgr s)"
    using inv that by (simp add: crew_inv_def queues_inv_def)
  then show ?thesis
    using crew_goto_same [OF inv, of i "s\<lparr>cr_mtx := True\<rparr>" Stop_enqueue] by (simp add: Do_stop crew_act_def load_simps)
next
  case (Do_start c)
  then show ?thesis
    using crew_start_inv [OF inv, of c] by (simp add: crew_act_def Let_def)
next
  case (Do_thread i j)
  then show ?thesis
    using worker_main_good [OF inv, of i spin] feeder_good [OF inv, of i j] by (auto simp: crew_act_def split: option.splits)
qed

lemma crew_init_inv: "crew_init s \<Longrightarrow> crew_inv s"
  by (auto simp: crew_init_def crew_start_def crew_inv_def queues_inv_def pcs_inv_def items_inv_def counts_inv_def
      manager_init_def manager_static_def manager_ok_def table_ok_def PTHREAD_WORKQUEUE_MAX_def nth_replicate idle_pc_def holds_def Let_def)

interpretation worker_pool: invariant_system crew_init "crew_step spin" crew_inv
proof unfold_locales
  show "crew_inv s" if "crew_init s" for s
    by (rule crew_init_inv [OF that])
  show "crew_inv t" if "crew_inv s" "crew_step spin s t" for s t
    using that(2)
  proof cases
    case (crew_stepI a)
    then show ?thesis
      using crew_create_good [OF that(1), of spin _ _ t] crew_act_good [OF that(1), of a spin] by (cases a) (auto simp: good_def)
  qed
qed

lemma crew_acts_reach:
  "crew_acts spin as s = Some t \<Longrightarrow> reach crew_init (crew_step spin) s \<Longrightarrow> reach crew_init (crew_step spin) t"
proof (induction as arbitrary: s)
  case (Cons a as)
  from Cons.prems(1) obtain u where u: "crew_act spin a s = Some (Inr u)" "crew_acts spin as u = Some t"
    by (auto split: option.splits sum.splits)
  show ?case
    by (rule Cons.IH [OF u(2) reach_step [OF Cons.prems(2) crew_stepI [OF u(1)]]])
qed simp

lemma crew_start_reach: "reach crew_init (crew_step spin) (crew_start nproc active n)"
  by (rule reach_init) (auto simp: crew_init_def)

text \<open>The items that threads have in hand.\<close>

definition in_hands :: "crew \<Rightarrow> work multiset" where
  "in_hands s = mset (List.map_filter pc_item (cr_pcs s))"

lemma count_in_hands: "int (count (in_hands s) w) = tsum (holds w) (cr_pcs s)"
proof -
  have "int (count (mset (List.map_filter pc_item pcs)) w) = tsum (holds w) pcs" for pcs
    by (induction pcs) (auto simp: List.map_filter_simps holds_def split: option.splits)
  then show ?thesis
    by (simp add: in_hands_def)
qed

lemma uint32_of_int: "0 \<le> i \<Longrightarrow> i < 2 ^ 32 \<Longrightarrow> uint (of_int i :: u32) = i"
  by (simp add: unsigned_of_int take_bit_int_eq_self)

lemma begin_le: "tsum begin_pc pcs \<le> int (length pcs)" "0 \<le> tsum begin_pc pcs"
proof -
  have "0 \<le> begin_pc pc \<and> begin_pc pc \<le> 1" for pc
    by (cases pc) simp_all
  then show "tsum begin_pc pcs \<le> int (length pcs)" "0 \<le> tsum begin_pc pcs"
    by (auto intro: tsum_le_length tsum_nonneg)
qed

section \<open>Properties of the workers\<close>


text \<open>
  C30: The items of every queue are taken in the order in which they were added, and those still queued are the rest; every
  item taken is in the hands of one worker or has been run once, so no item is lost or run twice.
\<close>

theorem pool_runs_in_order_once:
  assumes "reach crew_init (crew_step spin) s"
  shows "(\<forall>p<31. of_queue p (cr_added s) = of_queue p (cr_taken s) @ slot_items (wqlist (cr_mgr s) ! p)) \<and>
     mset (map snd (cr_taken s)) = mset (cr_ran s) + in_hands s"
proof -
  have inv: "crew_inv s"
    by (rule worker_pool.reachable_inv [OF assms])
  have "count (mset (map snd (cr_taken s))) w = count (mset (cr_ran s) + in_hands s) w" for w
  proof -
    have "int (count (mset (map snd (cr_taken s))) w) = int (count (mset (cr_ran s)) w) + tsum (holds w) (cr_pcs s)"
      using inv by (simp add: crew_inv_def items_inv_def del: mset_map)
    then show ?thesis
      using count_in_hands [of s w] by (simp del: mset_map)
  qed
  then show ?thesis
    using inv by (auto simp: crew_inv_def queues_inv_def intro: multiset_eqI)
qed

text \<open>
  C35: \<open>worker_start\<close> does not take back its increment of \<open>pending_thread_create\<close> when \<open>pthread_create\<close> fails.  Once that has happened the
  counter never reads zero again, and no turn of the manager starts a worker.
\<close>

theorem failed_start_blocks_manager:
  assumes "reach crew_init (crew_step spin) s" "0 < cr_failed s" "cr_failed s + length (cr_pcs s) < 2 ^ 32"
    and "ob_pending ob = pending_thread_create (cr_mgr s)"
  shows "pending_thread_create (cr_mgr s) \<noteq> 0 \<and> Start_worker \<notin> set (snd (manager_main l ob lo))"
proof -
  have "crew_inv s"
    by (rule worker_pool.reachable_inv [OF assms(1)])
  then have p: "pending_thread_create (cr_mgr s) = of_int (tsum begin_pc (cr_pcs s) + int (cr_failed s))"
    by (simp add: crew_inv_def counts_inv_def)
  have "uint (pending_thread_create (cr_mgr s)) = tsum begin_pc (cr_pcs s) + int (cr_failed s)"
    unfolding p using begin_le [of "cr_pcs s"] assms(3) by (intro uint32_of_int) simp_all
  then have "pending_thread_create (cr_mgr s) \<noteq> 0"
    using begin_le(2) [of "cr_pcs s"] assms(2) by auto
  then show ?thesis
    using assms(4) by (auto simp: manager_main_def manager_rampdown_def Let_def)
qed

text \<open>
  A run of one client and two workers: the first worker runs the first item; the second finds no more, and the client adds
  the second item and signals before that worker sleeps.
\<close>

definition default_attr :: workqueue_attr where
  "default_attr = pthread_workqueue_attr_init_np"

definition crew_run :: "crew_act list" where
  "crew_run =
     [Do_create [0] default_attr, Do_start True, Do_start True, Do_add 0 1 7 0, Do_thread 0 0] @
     replicate 4 (Do_thread 1 0) @ replicate 6 (Do_thread 2 0) @
     [Do_add 0 1 8 0, Do_thread 0 2, Do_thread 2 0]"

definition crew_end :: "crew_act list \<Rightarrow> crew" where
  "crew_end as = (case crew_acts 0 as (crew_start 4 0 1) of Some s \<Rightarrow> s | None \<Rightarrow> crew_start 4 0 1)"

lemma crew_end_reach: "reach crew_init (crew_step 0) (crew_end as)"
  using crew_acts_reach [of 0 as "crew_start 4 0 1"] crew_start_reach [of 0 4 0 1]
  by (auto simp: crew_end_def split: option.splits)

lemma crew_run_end:
  "cr_pcs (crew_end crew_run) = [Client, Running (witem_alloc (Some 7) 0), Sleeping]"
  "slot_items (wqlist (cr_mgr (crew_end crew_run)) ! 1) = [witem_alloc (Some 8) 0]"
  "sb_idle (board (cr_mgr (crew_end crew_run))) = 1"
  "worker_idle_threshold (cr_mgr (crew_end crew_run)) = 2"
  "cr_added (crew_end crew_run) = [(1, witem_alloc (Some 7) 0), (1, witem_alloc (Some 8) 0)]"
  by code_simp+


theorem pool_runs_in_order_once_witness:
  "of_queue 1 (cr_taken (crew_end crew_run)) @ [witem_alloc (Some 8) 0] = [witem_alloc (Some 7) 0, witem_alloc (Some 8) 0] \<and>
   mset (map snd (cr_taken (crew_end crew_run))) = mset (cr_ran (crew_end crew_run)) + in_hands (crew_end crew_run)"
proof -
  note p = pool_runs_in_order_once [OF crew_end_reach, of crew_run]
  have "(1 :: nat) < 31"
    by simp
  then show ?thesis
    using p [THEN conjunct1, rule_format, of 1] p [THEN conjunct2] crew_run_end(2,5) by simp
qed

definition failed_run :: "crew_act list" where
  "failed_run = [Do_create [0] default_attr, Do_start True, Do_start False, Do_thread 1 0]"

theorem failed_start_blocks_manager_witness:
  "pending_thread_create (cr_mgr (crew_end failed_run)) \<noteq> 0 \<and> cr_pcs (crew_end failed_run) = [Client, Scan_read] \<and>
   Start_worker \<notin> set (snd (manager_main \<lparr>lm_cpu_count = 4, lm_worker_max = 100, lm_idle_threshold = 2\<rparr>
     \<lparr>ob_suspend = False, ob_timedout = True, ob_idle = 0, ob_count = 1,
      ob_pending = pending_thread_create (cr_mgr (crew_end failed_run)), ob_count_low = 1, ob_count_max = 1,
      ob_runnable = None, ob_runqueue = 1, ob_idle_race = 0, ob_idle_tick = 0, ob_idle_add = 0, ob_idle_surplus = 0,
      ob_idle_stop = (\<lambda>_. 0)\<rparr>
     \<lparr>worker_idle_seconds_accumulated = 0, sem_timedwait_timedout = False\<rparr>))"
  (is "_ \<and> _ \<and> _ \<notin> set (snd (manager_main ?l ?ob ?lo))")
proof -
  have e: "cr_failed (crew_end failed_run) = 1" "cr_pcs (crew_end failed_run) = [Client, Scan_read]"
    by code_simp+
  have "0 < cr_failed (crew_end failed_run)" "cr_failed (crew_end failed_run) + length (cr_pcs (crew_end failed_run)) < 2 ^ 32"
    by (simp_all add: e)
  moreover have "ob_pending ?ob = pending_thread_create (cr_mgr (crew_end failed_run))"
    by simp
  ultimately show ?thesis
    using failed_start_blocks_manager [OF crew_end_reach, of failed_run ?ob ?l ?lo] e(2) by simp
qed

text \<open>
  C34: A client signals \<open>wqlist_has_work\<close> without \<open>wqlist_mtx\<close>, so its signal can come between the last scan of a worker and
  its wait.  In the state reached an item is queued and a worker sleeps, nobody is left to signal it, and the manager, which sees an
  idle worker, starts no other: the item waits for the callback that runs now.
\<close>

theorem pool_lost_wakeup:
  "\<exists>s. reach crew_init (crew_step 0) s \<and>
     cr_pcs s = [Client, Running (witem_alloc (Some 7) 0), Sleeping] \<and>
     slot_items (wqlist (cr_mgr s) ! 1) = [witem_alloc (Some 8) 0] \<and>
     (\<forall>l ob lo. snd (manager_main (l\<lparr>lm_idle_threshold := worker_idle_threshold (cr_mgr s)\<rparr>)
        (ob\<lparr>ob_idle := sb_idle (board (cr_mgr s)), ob_idle_tick := sb_idle (board (cr_mgr s))\<rparr>) lo) = [])"
  by (rule exI [of _ "crew_end crew_run"])
    (simp add: crew_end_reach crew_run_end manager_main_def manager_rampdown_def WORKER_IDLE_SECONDS_THRESHOLD_def Let_def
      del: One_nat_def)

end
