(* ===== verification/Pwq_Overcommit.thy ===== *)
theory Pwq_Overcommit
  imports Pwq_Pool
begin

text \<open>
  The overcommit workers of \<open>libpthread_workqueue\<close> as a step system.  All they share is guarded by \<open>ocwq_mtx\<close>, so a step is what a
  thread does from taking the lock to leaving it.
\<close>

section \<open>The threads\<close>

datatype oc_pc =
    Oc_ready
  | Oc_waiting
  | Oc_running work
  | Oc_exited

record ocrew =
  oc_mgr :: manager
  oc_pcs :: "oc_pc list"
  oc_added :: "(nat \<times> work) list"
  oc_taken :: "(nat \<times> work) list"
  oc_ran :: "work list"
  oc_failed :: nat

fun oc_live :: "oc_pc \<Rightarrow> int" where
  "oc_live Oc_exited = 0"
| "oc_live _ = 1"








section \<open>The invariant\<close>

fun oc_waits :: "oc_pc \<Rightarrow> int" where
  "oc_waits Oc_waiting = 1"
| "oc_waits _ = 0"

definition oc_busy :: "oc_pc \<Rightarrow> int" where
  "oc_busy pc = oc_live pc - oc_waits pc"

definition oc_holds :: "work \<Rightarrow> oc_pc \<Rightarrow> int" where
  "oc_holds w pc = (if pc = Oc_running w then 1 else 0)"

definition oc_counts :: "manager \<Rightarrow> oc_pc list \<Rightarrow> bool" where
  "oc_counts mg pcs \<longleftrightarrow>
     uint (ocwq_idle_threads mg) + uint (ocwq_signal_count mg) = tsum oc_waits pcs \<and> tsum oc_live pcs \<le> 2 ^ 31"


definition oc_left :: "manager \<Rightarrow> nat" where
  "oc_left mg = (\<Sum>p<31. length (slot_items (ocwq mg ! p)))"

definition oc_logs :: "ocrew \<Rightarrow> bool" where
  "oc_logs s \<longleftrightarrow>
     (\<forall>p<31. of_queue p (oc_added s) = of_queue p (oc_taken s) @ slot_items (ocwq (oc_mgr s) ! p)) \<and>
     (\<forall>x \<in> set (oc_added s). fst x < 31) \<and> (\<forall>x \<in> set (oc_taken s). fst x < 31) \<and>
     (\<forall>w. int (count (mset (map snd (oc_taken s))) w) = int (count (mset (oc_ran s)) w) + tsum (oc_holds w) (oc_pcs s))"

definition oc_inv :: "ocrew \<Rightarrow> bool" where
  "oc_inv s \<longleftrightarrow> manager_ok (oc_mgr s) \<and> oc_counts (oc_mgr s) (oc_pcs s) \<and> oc_logs s \<and>
     (oc_left (oc_mgr s) \<le> oc_failed s \<or> 0 < tsum oc_busy (oc_pcs s) + uint (ocwq_signal_count (oc_mgr s)))"














text \<open>The outcome of a step.\<close>

definition oc_good :: "(pwq_error + ocrew) option \<Rightarrow> bool" where
  "oc_good r \<longleftrightarrow> (\<forall>x. r = Some x \<longrightarrow> (\<exists>t. x = Inr t \<and> oc_inv t))"

lemma oc_good_simps [simp]: "oc_good None" "oc_good (Some (Inr t)) \<longleftrightarrow> oc_inv t" "\<not> oc_good (Some (Inl e))"
  by (simp_all add: oc_good_def)














section \<open>Properties of the overcommit workers\<close>






end
