(* ===== verification/Dispatch_Source.thy ===== *)
theory Dispatch_Source
  imports Dispatch_Object Dispatch_Time
begin

text \<open>
  Event sources: \<open>source.c\<close>, \<open>source_kevent.c\<close> and the registration with the kernel in \<open>queue_kevent.c\<close>, for the
  build without Mach and without the legacy interface.  All of this but the API calls runs on the manager queue, so the state is
  passed along.  Sources and kevents live at addresses; the result of \<open>kevent(2)\<close> is an argument.
  The calls that leave this code, \<open>_dispatch_wakeup\<close>, the disposal of a source and the handlers, are logged.
\<close>

section \<open>Data\<close>

record kevent =
  ke_ident :: u64
  ke_filter :: int
  ke_flags :: u16
  ke_fflags :: u32
  ke_data :: u64
  ke_udata :: "nat option"

definition EVFILT_READ :: int where "EVFILT_READ = - 1"

definition EVFILT_WRITE :: int where "EVFILT_WRITE = - 2"

definition EVFILT_VNODE :: int where "EVFILT_VNODE = - 4"

definition EVFILT_PROC :: int where "EVFILT_PROC = - 5"

definition EVFILT_SIGNAL :: int where "EVFILT_SIGNAL = - 6"

definition EVFILT_FS :: int where "EVFILT_FS = - 9"

definition EVFILT_USER :: int where "EVFILT_USER = - 11"

definition EVFILT_SYSCOUNT :: int where "EVFILT_SYSCOUNT = 11"

definition DISPATCH_EVFILT_TIMER :: int where "DISPATCH_EVFILT_TIMER = - EVFILT_SYSCOUNT - 1"

definition DISPATCH_EVFILT_CUSTOM_ADD :: int where "DISPATCH_EVFILT_CUSTOM_ADD = - EVFILT_SYSCOUNT - 2"

definition DISPATCH_EVFILT_CUSTOM_OR :: int where "DISPATCH_EVFILT_CUSTOM_OR = - EVFILT_SYSCOUNT - 3"

definition EV_ADD :: u16 where "EV_ADD = 0x0001"

definition EV_DELETE :: u16 where "EV_DELETE = 0x0002"

definition EV_ENABLE :: u16 where "EV_ENABLE = 0x0004"

definition EV_ONESHOT :: u16 where "EV_ONESHOT = 0x0010"

definition EV_CLEAR :: u16 where "EV_CLEAR = 0x0020"

definition EV_RECEIPT :: u16 where "EV_RECEIPT = 0x0040"

definition EV_DISPATCH :: u16 where "EV_DISPATCH = 0x0080"

definition EV_ERROR :: u16 where "EV_ERROR = 0x4000"

definition NOTE_EXIT :: u32 where "NOTE_EXIT = 0x80000000"

definition NOTE_TRIGGER :: u32 where "NOTE_TRIGGER = 0x01000000"

definition DISPATCH_TIMER_WALL_CLOCK :: u64 where "DISPATCH_TIMER_WALL_CLOCK = 0x4"

definition DISPATCH_TIMER_ONESHOT :: u64 where "DISPATCH_TIMER_ONESHOT = 0x1"

definition DISPATCH_TIMER_ABSOLUTE :: u64 where "DISPATCH_TIMER_ABSOLUTE = 0x3"

definition DISPATCH_TIMER_INDEX_WALL :: nat where "DISPATCH_TIMER_INDEX_WALL = 0"

definition DISPATCH_TIMER_INDEX_MACH :: nat where "DISPATCH_TIMER_INDEX_MACH = 1"

definition DSF_CANCELED :: u64 where "DSF_CANCELED = 1"

definition ESRCH :: u64 where "ESRCH = 3"

definition EBADF :: u64 where "EBADF = 9"

definition NSIG :: u64 where "NSIG = 65"

definition FD_SETSIZE :: u64 where "FD_SETSIZE = 1024"

abbreviation flag_in :: "'a :: len word \<Rightarrow> 'a word \<Rightarrow> bool" where
  "flag_in f w \<equiv> w AND f \<noteq> 0"

record timer_source =
  tm_target :: u64
  tm_start :: u64
  tm_interval :: u64
  tm_leeway :: u64
  tm_flags :: u64

record source = dobject +
  ds_dkev :: "nat option"
  ds_handler_func :: "nat option"
  ds_handler_ctxt :: "nat option"
  ds_cancel_handler :: "nat option"
  ds_is_level :: bool
  ds_is_adder :: bool
  ds_is_installed :: bool
  ds_needs_rearm :: bool
  ds_is_armed :: bool
  ds_cancel_is_block :: bool
  ds_handler_is_block :: bool
  ds_atomic_flags :: u64
  ds_data :: u64
  ds_pending_data :: u64
  ds_pending_data_mask :: u64
  ds_ident_hack :: u64
  ds_timer :: timer_source

record dkevent =
  dk_sources :: "nat list"
  dk_kevent :: kevent

text \<open>What the source code calls elsewhere.\<close>

datatype source_call =
    Wakeup nat
  | Dispose nat
  | Event_handler nat nat u64
  | Cancel_handler nat nat
  | Block_release nat
  | Drain_mgr_queue

text \<open>
  The state: the sources and kevents by address, the hash table \<open>_dispatch_sources\<close>, whether it was set up, the sets for
  \<open>select\<close> with their pointers, the changes passed to \<open>kevent\<close>, and the calls made.
\<close>

record kq =
  kq_ds :: "nat \<Rightarrow> source option"
  kq_dk :: "nat \<Rightarrow> dkevent option"
  kq_table :: "nat list list"
  kq_ready :: bool
  kq_select_workaround :: bool
  kq_rfds :: "u64 \<Rightarrow> bool"
  kq_wfds :: "u64 \<Rightarrow> bool"
  kq_rfd_ptrs :: "u64 \<Rightarrow> nat option"
  kq_wfd_ptrs :: "u64 \<Rightarrow> nat option"
  kq_changes :: "kevent list"
  kq_calls :: "source_call list"

text \<open>The addresses of the kevents that are static variables.\<close>

definition u_dispatch_kevent_timer :: "nat \<Rightarrow> nat" where "u_dispatch_kevent_timer i = i"

definition u_dispatch_kevent_data_or :: nat where "u_dispatch_kevent_data_or = 2"

definition u_dispatch_kevent_data_add :: nat where "u_dispatch_kevent_data_add = 3"

definition static_kevent :: "nat \<Rightarrow> kevent" where
  "static_kevent a =
     (if a = u_dispatch_kevent_data_or
      then \<lparr>ke_ident = 0, ke_filter = DISPATCH_EVFILT_CUSTOM_OR, ke_flags = EV_CLEAR, ke_fflags = 0, ke_data = 0, ke_udata = Some a\<rparr>
      else if a = u_dispatch_kevent_data_add
      then \<lparr>ke_ident = 0, ke_filter = DISPATCH_EVFILT_CUSTOM_ADD, ke_flags = 0, ke_fflags = 0, ke_data = 0, ke_udata = Some a\<rparr>
      else \<lparr>ke_ident = of_nat a, ke_filter = DISPATCH_EVFILT_TIMER, ke_flags = 0, ke_fflags = 0, ke_data = 0, ke_udata = Some a\<rparr>)"

definition kq_start :: kq where
  "kq_start = \<lparr>kq_ds = Map.empty,
     kq_dk = (\<lambda>a. if a < 4 then Some \<lparr>dk_sources = [], dk_kevent = static_kevent a\<rparr> else None),
     kq_table = [], kq_ready = False, kq_select_workaround = False, kq_rfds = (\<lambda>_. False), kq_wfds = (\<lambda>_. False),
     kq_rfd_ptrs = Map.empty, kq_wfd_ptrs = Map.empty, kq_changes = [], kq_calls = []\<rparr>"

text \<open>Access through a pointer: a missing object was freed.\<close>

definition get_ds :: "nat \<Rightarrow> kq \<Rightarrow> source result" where
  "get_ds d s = (case kq_ds s d of None \<Rightarrow> Inl Use_after_free | Some ds \<Rightarrow> Ok ds)"

definition get_dk :: "nat \<Rightarrow> kq \<Rightarrow> dkevent result" where
  "get_dk k s = (case kq_dk s k of None \<Rightarrow> Inl Use_after_free | Some dk \<Rightarrow> Ok dk)"

definition get_dkev :: "source \<Rightarrow> nat result" where
  "get_dkev ds = (case ds_dkev ds of None \<Rightarrow> Inl Null_dereference | Some k \<Rightarrow> Ok k)"

definition put_ds :: "nat \<Rightarrow> source \<Rightarrow> kq \<Rightarrow> kq" where
  "put_ds d ds s = s\<lparr>kq_ds := (kq_ds s)(d \<mapsto> ds)\<rparr>"

definition put_dk :: "nat \<Rightarrow> dkevent \<Rightarrow> kq \<Rightarrow> kq" where
  "put_dk k dk s = s\<lparr>kq_dk := (kq_dk s)(k \<mapsto> dk)\<rparr>"

definition log_call :: "source_call \<Rightarrow> kq \<Rightarrow> kq" where
  "log_call c s = s\<lparr>kq_calls := kq_calls s @ [c]\<rparr>"

text \<open>\<open>_dispatch_release\<close> of a source; the last one disposes of it.\<close>

definition source_release :: "nat \<Rightarrow> kq \<Rightarrow> kq result" where
  "source_release d s =
     res_bind (get_ds d s) (\<lambda>ds.
     res_bind (release_count ds) (\<lambda>(ds1, last).
       Ok (if last then log_call (Dispose d) (s\<lparr>kq_ds := (kq_ds s)(d := None)\<rparr>) else put_ds d ds1 s)))"

definition canceled :: "source \<Rightarrow> bool" where
  "canceled ds \<longleftrightarrow> flag_in DSF_CANCELED (ds_atomic_flags ds) \<or> do_xref_cnt ds = 0"

section \<open>The table of kevents\<close>

definition DSL_HASH_SIZE :: u64 where "DSL_HASH_SIZE = 256"

definition u_dispatch_kevent_hash :: "u64 \<Rightarrow> int \<Rightarrow> nat" where
  "u_dispatch_kevent_hash ident filt = unat (ident AND (DSL_HASH_SIZE - 1))"

fun find_in_bucket :: "u64 \<Rightarrow> int \<Rightarrow> nat list \<Rightarrow> kq \<Rightarrow> nat option result" where
  "find_in_bucket ident filt [] s = Ok None"
| "find_in_bucket ident filt (k # ks) s =
     res_bind (get_dk k s) (\<lambda>dk.
       if ke_ident (dk_kevent dk) = ident \<and> ke_filter (dk_kevent dk) = filt then Ok (Some k)
       else find_in_bucket ident filt ks s)"

definition u_dispatch_kevent_find :: "u64 \<Rightarrow> int \<Rightarrow> kq \<Rightarrow> nat option result" where
  "u_dispatch_kevent_find ident filt s =
     find_in_bucket ident filt (kq_table s ! u_dispatch_kevent_hash ident filt) s"

definition bucket_append :: "nat \<Rightarrow> nat \<Rightarrow> kq \<Rightarrow> kq" where
  "bucket_append h k s = s\<lparr>kq_table := (kq_table s)[h := kq_table s ! h @ [k]]\<rparr>"

definition u_dispatch_kevent_insert :: "nat \<Rightarrow> dkevent \<Rightarrow> kq \<Rightarrow> kq" where
  "u_dispatch_kevent_insert k dk s =
     bucket_append (u_dispatch_kevent_hash (ke_ident (dk_kevent dk)) (ke_filter (dk_kevent dk))) k s"

definition u_dispatch_source_init_tail_queue_array :: "kq \<Rightarrow> kq" where
  "u_dispatch_source_init_tail_queue_array s =
     (let s0 = s\<lparr>kq_table := replicate 256 [], kq_ready := True\<rparr>;
          s1 = bucket_append (u_dispatch_kevent_hash (of_nat DISPATCH_TIMER_INDEX_WALL) 0)
                 (u_dispatch_kevent_timer DISPATCH_TIMER_INDEX_WALL) s0;
          s2 = bucket_append (u_dispatch_kevent_hash (of_nat DISPATCH_TIMER_INDEX_MACH) 0)
                 (u_dispatch_kevent_timer DISPATCH_TIMER_INDEX_MACH) s1;
          s3 = bucket_append 0 u_dispatch_kevent_data_or s2 in
      bucket_append 0 u_dispatch_kevent_data_add s3)"

section \<open>Events\<close>

definition u_dispatch_source_merge_kevent :: "nat \<Rightarrow> kevent \<Rightarrow> kq \<Rightarrow> kq result" where
  "u_dispatch_source_merge_kevent d ke s =
     res_bind (get_ds d s) (\<lambda>ds.
       if canceled ds then Ok s
       else
         (let is_error = flag_in EV_ERROR (ke_flags ke);
              fakes_exit = (ke_filter ke = EVFILT_PROC \<and> ke_data ke = ESRCH);
              ke = (if is_error \<and> fakes_exit
                    then ke\<lparr>ke_flags := ke_flags ke AND NOT EV_ERROR, ke_fflags := NOTE_EXIT, ke_data := 0\<rparr> else ke) in
          if is_error \<and> \<not> fakes_exit then Ok s
          else
            (let ds1 = (if ds_is_level ds then ds\<lparr>ds_pending_data := NOT (ke_data ke)\<rparr>
                        else if ds_is_adder ds then ds\<lparr>ds_pending_data := ds_pending_data ds + ke_data ke\<rparr>
                        else ds\<lparr>ds_pending_data := ds_pending_data ds OR (ucast (ke_fflags ke) AND ds_pending_data_mask ds)\<rparr>);
                 ds2 = (if ds_needs_rearm ds1 then ds1\<lparr>ds_is_armed := False\<rparr> else ds1) in
             Ok (log_call (Wakeup d) (put_ds d ds2 s)))))"

fun merge_all :: "nat list \<Rightarrow> kevent \<Rightarrow> kq \<Rightarrow> kq result" where
  "merge_all [] ke s = Ok s"
| "merge_all (d # ds) ke s = res_bind (u_dispatch_source_merge_kevent d ke s) (merge_all ds ke)"

definition u_dispatch_source_drain_kevent :: "kevent \<Rightarrow> kq \<Rightarrow> kq result" where
  "u_dispatch_source_drain_kevent ke s =
     (case ke_udata ke of
        None \<Rightarrow> Inl Null_dereference
      | Some k \<Rightarrow>
          res_bind (get_dk k s) (\<lambda>dk.
            let s1 = (if flag_in EV_ONESHOT (ke_flags ke)
                      then put_dk k (dk\<lparr>dk_kevent := (dk_kevent dk)\<lparr>ke_flags := ke_flags (dk_kevent dk) OR EV_ONESHOT\<rparr>\<rparr>) s
                      else s) in
            merge_all (dk_sources dk) ke s1))"

text \<open>\<open>dispatch_source_merge_data\<close>: the event that a client makes.\<close>

definition dispatch_source_merge_data :: "nat \<Rightarrow> u64 \<Rightarrow> kq \<Rightarrow> kq result" where
  "dispatch_source_merge_data d val s =
     u_dispatch_source_merge_kevent d
       \<lparr>ke_ident = 0, ke_filter = 0, ke_flags = 0, ke_fflags = ucast val, ke_data = val, ke_udata = None\<rparr> s"

section \<open>Registration with the kernel\<close>

text \<open>
  \<open>sys n kev\<close> is the result of the call number \<open>n\<close> of \<open>kevent(2)\<close> on the change \<open>kev\<close>: \<open>None\<close> when the call fails, else the
  error number in the receipt, 0 for success.
\<close>

type_synonym system = "nat \<Rightarrow> kevent \<Rightarrow> u64 option"

text \<open>
  The part of \<open>_dispatch_update_kq\<close> for \<open>EV_DELETE\<close>: whether the descriptor was in a set of \<open>select\<close> and is dealt with.
  The case for \<open>EVFILT_READ\<close> falls through into the case for \<open>EVFILT_WRITE\<close>.  An index past \<open>FD_SETSIZE\<close> is outside of the sets.
\<close>

definition select_delete_write :: "u64 \<Rightarrow> kq \<Rightarrow> (kq \<times> bool) result" where
  "select_delete_write ident s =
     (if ident \<ge> FD_SETSIZE then Inl (Crash ''fd_set index'')
      else if kq_wfds s ident
      then Ok (s\<lparr>kq_wfds := (kq_wfds s)(ident := False), kq_wfd_ptrs := (kq_wfd_ptrs s)(ident := None)\<rparr>, True)
      else Ok (s, False))"

definition select_delete :: "kevent \<Rightarrow> kq \<Rightarrow> (kq \<times> bool) result" where
  "select_delete kev s =
     (if ke_filter kev = EVFILT_READ then
        (if ke_ident kev \<ge> FD_SETSIZE then Inl (Crash ''fd_set index'')
         else if kq_rfds s (ke_ident kev)
         then Ok (s\<lparr>kq_rfds := (kq_rfds s)(ke_ident kev := False), kq_rfd_ptrs := (kq_rfd_ptrs s)(ke_ident kev := None)\<rparr>, True)
         else select_delete_write (ke_ident kev) s)
      else if ke_filter kev = EVFILT_WRITE then select_delete_write (ke_ident kev) s
      else Ok (s, False))"

text \<open>The part after the call of \<open>kevent\<close>: what it does with an error in the receipt of an added event.\<close>

definition select_fallback :: "kevent \<Rightarrow> kq \<Rightarrow> kq result" where
  "select_fallback kev s =
     (if ke_filter kev = EVFILT_READ then
        (if ke_ident kev \<ge> FD_SETSIZE then Inl (Crash ''fd_set index'')
         else Ok (s\<lparr>kq_select_workaround := True, kq_rfds := (kq_rfds s)(ke_ident kev := True),
                    kq_rfd_ptrs := (kq_rfd_ptrs s)(ke_ident kev := ke_udata kev)\<rparr>))
      else if ke_filter kev = EVFILT_WRITE then
        (if ke_ident kev \<ge> FD_SETSIZE then Inl (Crash ''fd_set index'')
         else Ok (s\<lparr>kq_select_workaround := True, kq_wfds := (kq_wfds s)(ke_ident kev := True),
                    kq_wfd_ptrs := (kq_wfd_ptrs s)(ke_ident kev := ke_udata kev)\<rparr>))
      else u_dispatch_source_drain_kevent kev s)"

definition u_dispatch_update_kq :: "system \<Rightarrow> kevent \<Rightarrow> kq \<Rightarrow> kq result" where
  "u_dispatch_update_kq sys kev s =
     (let kev_copy = kev\<lparr>ke_flags := ke_flags kev OR EV_RECEIPT\<rparr> in
      res_bind (if flag_in EV_DELETE (ke_flags kev_copy) then select_delete kev_copy s else Ok (s, False)) (\<lambda>(s1, handled).
        if handled then Ok s1
        else
          (let s2 = s1\<lparr>kq_changes := kq_changes s1 @ [kev_copy]\<rparr> in
           (case sys (length (kq_changes s1)) kev_copy of
              None \<Rightarrow> Ok s2
            | Some err \<Rightarrow>
                if \<not> flag_in EV_ADD (ke_flags kev) then Ok s2
                else if err = 0 \<or> err = EBADF then Ok s2
                else select_fallback (kev_copy\<lparr>ke_flags := ke_flags kev_copy OR EV_ERROR, ke_data := err\<rparr>) s2))))"

definition u_dispatch_mgr_wakeup :: "system \<Rightarrow> kq \<Rightarrow> kq result" where
  "u_dispatch_mgr_wakeup sys s =
     u_dispatch_update_kq sys
       \<lparr>ke_ident = 1, ke_filter = EVFILT_USER, ke_flags = 0, ke_fflags = NOTE_TRIGGER, ke_data = 0, ke_udata = None\<rparr> s"

text \<open>The filters of the static kevents, which the kernel never sees.\<close>

definition custom_filter :: "int \<Rightarrow> bool" where
  "custom_filter f \<longleftrightarrow> f = DISPATCH_EVFILT_TIMER \<or> f = DISPATCH_EVFILT_CUSTOM_ADD \<or> f = DISPATCH_EVFILT_CUSTOM_OR"

definition u_dispatch_kevent_resume :: "system \<Rightarrow> nat \<Rightarrow> kq \<Rightarrow> kq result" where
  "u_dispatch_kevent_resume sys k s =
     res_bind (get_dk k s) (\<lambda>dk.
       let kev = dk_kevent dk in
       if custom_filter (ke_filter kev) then Ok s
       else if ke_filter kev = EVFILT_PROC \<and> flag_in EV_ONESHOT (ke_flags kev) then Ok s
       else
         res_bind (u_dispatch_update_kq sys kev s) (\<lambda>s1.
           res_bind (get_dk k s1) (\<lambda>dk1.
             let kev1 = dk_kevent dk1 in
             if flag_in EV_DISPATCH (ke_flags kev1)
             then Ok (put_dk k (dk1\<lparr>dk_kevent := kev1\<lparr>ke_flags := ke_flags kev1 AND NOT EV_ADD\<rparr>\<rparr>) s1)
             else Ok s1)))"

definition u_dispatch_source_kevent_resume :: "system \<Rightarrow> nat \<Rightarrow> kq \<Rightarrow> kq result" where
  "u_dispatch_source_kevent_resume sys d s =
     res_bind (get_ds d s) (\<lambda>ds. res_bind (get_dkev ds) (\<lambda>k. u_dispatch_kevent_resume sys k s))"

section \<open>Installing and uninstalling a source\<close>

text \<open>
  \<open>_dispatch_kevent_merge\<close> in its parts: the kevent of the table that the source goes to, which replaces the kevent of its own,
  whether it is to be registered again, and the entry in its list of sources.
\<close>

definition kevent_merge_found :: "nat \<Rightarrow> source \<Rightarrow> nat \<Rightarrow> kevent \<Rightarrow> nat \<Rightarrow> kq \<Rightarrow> (kq \<times> nat \<times> bool) result" where
  "kevent_merge_found d ds own okev k s =
     res_bind (get_dk k s) (\<lambda>dk.
       let kev = dk_kevent dk;
           new_flags = NOT (ke_fflags kev) AND ke_fflags okev;
           s1 = put_dk k (dk\<lparr>dk_kevent := kev\<lparr>ke_fflags := ke_fflags kev OR ke_fflags okev\<rparr>\<rparr>) s;
           s2 = s1\<lparr>kq_dk := (kq_dk s1)(own := None)\<rparr> in
       Ok (put_ds d (ds\<lparr>ds_dkev := Some k\<rparr>) s2, k, new_flags \<noteq> 0))"

definition kevent_merge_find :: "nat \<Rightarrow> source \<Rightarrow> kq \<Rightarrow> (kq \<times> nat \<times> bool) result" where
  "kevent_merge_find d ds s =
     res_bind (get_dkev ds) (\<lambda>own.
     res_bind (get_dk own s) (\<lambda>odk.
     res_bind (u_dispatch_kevent_find (ke_ident (dk_kevent odk)) (ke_filter (dk_kevent odk)) s) (\<lambda>found.
       case found of
         Some k \<Rightarrow> kevent_merge_found d ds own (dk_kevent odk) k s
       | None \<Rightarrow> Ok (u_dispatch_kevent_insert own odk s, own, True))))"

definition kevent_merge_attach :: "system \<Rightarrow> nat \<Rightarrow> nat \<Rightarrow> bool \<Rightarrow> kq \<Rightarrow> kq result" where
  "kevent_merge_attach sys d k do_resume s =
     res_bind (get_dk k s) (\<lambda>dk.
       let dk1 = dk\<lparr>dk_sources := dk_sources dk @ [d]\<rparr> in
       if do_resume then
         (let dk2 = dk1\<lparr>dk_kevent := (dk_kevent dk1)\<lparr>ke_flags := ke_flags (dk_kevent dk1) OR EV_ADD\<rparr>\<rparr> in
          res_bind (u_dispatch_source_kevent_resume sys d (put_dk k dk2 s)) (\<lambda>s1.
          res_bind (get_ds d s1) (\<lambda>ds1. Ok (put_ds d (ds1\<lparr>ds_is_armed := True\<rparr>) s1))))
       else Ok (put_dk k dk1 s))"

definition u_dispatch_kevent_merge :: "system \<Rightarrow> nat \<Rightarrow> kq \<Rightarrow> kq result" where
  "u_dispatch_kevent_merge sys d s =
     res_bind (get_ds d s) (\<lambda>ds.
       if ds_is_installed ds then Ok s
       else
         (let ds1 = ds\<lparr>ds_is_installed := True\<rparr>;
              s1 = put_ds d ds1 s;
              s2 = (if kq_ready s1 then s1 else u_dispatch_source_init_tail_queue_array s1) in
          res_bind (kevent_merge_find d ds1 s2) (\<lambda>(s3, k, do_resume). kevent_merge_attach sys d k do_resume s3)))"

definition bucket_remove :: "nat \<Rightarrow> nat \<Rightarrow> kq \<Rightarrow> kq" where
  "bucket_remove h k s = s\<lparr>kq_table := (kq_table s)[h := remove1 k (kq_table s ! h)]\<rparr>"

definition u_dispatch_kevent_dispose :: "system \<Rightarrow> nat \<Rightarrow> kq \<Rightarrow> kq result" where
  "u_dispatch_kevent_dispose sys k s =
     res_bind (get_dk k s) (\<lambda>dk.
       let kev = dk_kevent dk in
       if custom_filter (ke_filter kev) then Ok s
       else
         res_bind
           (if ke_filter kev = EVFILT_PROC \<and> flag_in EV_ONESHOT (ke_flags kev) then Ok s
            else if \<not> flag_in EV_DELETE (ke_flags kev) then
              (let kev1 = kev\<lparr>ke_flags := ke_flags kev OR EV_DELETE\<rparr> in
               u_dispatch_update_kq sys kev1 (put_dk k (dk\<lparr>dk_kevent := kev1\<rparr>) s))
            else Ok s)
           (\<lambda>s1. let s2 = bucket_remove (u_dispatch_kevent_hash (ke_ident kev) (ke_filter kev)) k s1 in
                 Ok (s2\<lparr>kq_dk := (kq_dk s2)(k := None)\<rparr>)))"

fun sources_mask :: "nat list \<Rightarrow> kq \<Rightarrow> u32 result" where
  "sources_mask [] s = Ok 0"
| "sources_mask (d # ds) s =
     res_bind (get_ds d s) (\<lambda>x. res_bind (sources_mask ds s) (\<lambda>m. Ok (ucast (ds_pending_data_mask x) OR m)))"

text \<open>\<open>_dispatch_kevent_release\<close>: the kevent without the source goes, or is registered again for fewer events.\<close>

definition kevent_without :: "system \<Rightarrow> source \<Rightarrow> nat \<Rightarrow> dkevent \<Rightarrow> kq \<Rightarrow> kq result" where
  "kevent_without sys ds k dk s =
     (if dk_sources dk = [] then u_dispatch_kevent_dispose sys k s
      else
        res_bind (sources_mask (dk_sources dk) s) (\<lambda>fflags.
          let del_flags = ucast (ds_pending_data_mask ds) AND NOT fflags in
          if del_flags \<noteq> 0 then
            u_dispatch_kevent_resume sys k
              (put_dk k (dk\<lparr>dk_kevent := (dk_kevent dk)\<lparr>ke_flags := ke_flags (dk_kevent dk) OR EV_ADD, ke_fflags := fflags\<rparr>\<rparr>) s)
          else Ok s))"

definition u_dispatch_kevent_release :: "system \<Rightarrow> nat \<Rightarrow> kq \<Rightarrow> kq result" where
  "u_dispatch_kevent_release sys d s =
     res_bind (get_ds d s) (\<lambda>ds.
     res_bind (get_dkev ds) (\<lambda>k.
     let s1 = put_ds d (ds\<lparr>ds_dkev := None\<rparr>) s in
     res_bind (get_dk k s1) (\<lambda>dk.
     let dk1 = dk\<lparr>dk_sources := remove1 d (dk_sources dk)\<rparr> in
     res_bind (kevent_without sys ds k dk1 (put_dk k dk1 s1)) (\<lambda>s2.
     res_bind (get_ds d s2) (\<lambda>ds1.
       source_release d (put_ds d (ds1\<lparr>ds_is_armed := False, ds_needs_rearm := False\<rparr>) s2))))))"

section \<open>Source types and creation\<close>

record source_type =
  st_kevent :: kevent
  st_mask :: u64
  st_timer :: bool

definition proto_kevent :: "int \<Rightarrow> u16 \<Rightarrow> u32 \<Rightarrow> kevent" where
  "proto_kevent filt flags fflags =
     \<lparr>ke_ident = 0, ke_filter = filt, ke_flags = flags, ke_fflags = fflags, ke_data = 0, ke_udata = None\<rparr>"

definition u_dispatch_source_type_timer :: source_type where
  "u_dispatch_source_type_timer =
     \<lparr>st_kevent = proto_kevent DISPATCH_EVFILT_TIMER 0 0,
      st_mask = DISPATCH_TIMER_ONESHOT OR DISPATCH_TIMER_ABSOLUTE OR DISPATCH_TIMER_WALL_CLOCK, st_timer = True\<rparr>"

definition u_dispatch_source_type_read :: source_type where
  "u_dispatch_source_type_read = \<lparr>st_kevent = proto_kevent EVFILT_READ EV_DISPATCH 0, st_mask = 0, st_timer = False\<rparr>"

definition u_dispatch_source_type_write :: source_type where
  "u_dispatch_source_type_write = \<lparr>st_kevent = proto_kevent EVFILT_WRITE EV_DISPATCH 0, st_mask = 0, st_timer = False\<rparr>"

definition u_dispatch_source_type_proc :: source_type where
  "u_dispatch_source_type_proc = \<lparr>st_kevent = proto_kevent EVFILT_PROC EV_CLEAR 0, st_mask = 0xE0000000, st_timer = False\<rparr>"

definition u_dispatch_source_type_signal :: source_type where
  "u_dispatch_source_type_signal = \<lparr>st_kevent = proto_kevent EVFILT_SIGNAL 0 0, st_mask = 0, st_timer = False\<rparr>"

definition u_dispatch_source_type_vnode :: source_type where
  "u_dispatch_source_type_vnode = \<lparr>st_kevent = proto_kevent EVFILT_VNODE EV_CLEAR 0, st_mask = 0x3F, st_timer = False\<rparr>"

definition u_dispatch_source_type_vfs :: source_type where
  "u_dispatch_source_type_vfs = \<lparr>st_kevent = proto_kevent EVFILT_FS EV_CLEAR 0, st_mask = 0xFF, st_timer = False\<rparr>"

definition u_dispatch_source_type_data_add :: source_type where
  "u_dispatch_source_type_data_add = \<lparr>st_kevent = proto_kevent DISPATCH_EVFILT_CUSTOM_ADD 0 0, st_mask = 0, st_timer = False\<rparr>"

definition u_dispatch_source_type_data_or :: source_type where
  "u_dispatch_source_type_data_or =
     \<lparr>st_kevent = proto_kevent DISPATCH_EVFILT_CUSTOM_OR EV_CLEAR (NOT 0), st_mask = 0, st_timer = False\<rparr>"

text \<open>
  \<open>dispatch_source_type_kevent_init\<close>; the address of the new kevent is \<open>None\<close> when \<open>calloc\<close> fails.  The case of the two
  custom filters falls through into that of \<open>EVFILT_FS\<close> and the timers.
\<close>

definition dispatch_source_type_kevent_init ::
  "nat option \<Rightarrow> source \<Rightarrow> source_type \<Rightarrow> u64 \<Rightarrow> u64 \<Rightarrow> (source \<times> nat \<times> dkevent) option" where
  "dispatch_source_type_kevent_init alloc ds type handle msk =
     (let proto = st_kevent type; f = ke_filter proto in
      if f = EVFILT_SIGNAL \<and> handle \<ge> NSIG then None
      else if (f = DISPATCH_EVFILT_CUSTOM_OR \<or> f = DISPATCH_EVFILT_CUSTOM_ADD) \<and> msk \<noteq> 0 then None
      else if (custom_filter f \<or> f = EVFILT_FS) \<and> handle \<noteq> 0 then None
      else
        (case alloc of
           None \<Rightarrow> None
         | Some k \<Rightarrow>
             (let kev = proto\<lparr>ke_ident := handle, ke_flags := ke_flags proto OR EV_ADD OR EV_ENABLE,
                              ke_fflags := ke_fflags proto OR ucast msk, ke_udata := Some k\<rparr>;
                  ds1 = ds\<lparr>ds_ident_hack := handle, ds_dkev := Some k, ds_pending_data_mask := ucast (ke_fflags kev)\<rparr>;
                  ds2 = (if flag_in (EV_DISPATCH OR EV_ONESHOT) (ke_flags proto)
                         then ds1\<lparr>ds_is_level := True, ds_needs_rearm := True\<rparr>
                         else if \<not> flag_in EV_CLEAR (ke_flags proto) then ds1\<lparr>ds_is_adder := True\<rparr>
                         else ds1) in
              Some (ds2, k, \<lparr>dk_sources = [], dk_kevent = kev\<rparr>))))"

definition dispatch_source_type_timer_init ::
  "nat option \<Rightarrow> source \<Rightarrow> source_type \<Rightarrow> u64 \<Rightarrow> u64 \<Rightarrow> (source \<times> nat \<times> dkevent) option" where
  "dispatch_source_type_timer_init alloc ds type handle msk =
     map_option (\<lambda>(ds1, k, dk). (ds1\<lparr>ds_needs_rearm := True, ds_timer := (ds_timer ds1)\<lparr>tm_flags := msk\<rparr>\<rparr>, k, dk))
       (dispatch_source_type_kevent_init alloc ds type handle msk)"

text \<open>A source as \<open>calloc\<close> and \<open>_dispatch_queue_init\<close> leave it, with the settings of \<open>dispatch_source_create\<close>.\<close>

definition new_source :: "nat \<Rightarrow> source" where
  "new_source q =
     \<lparr>do_vtable = Source_kevent_vtable, do_next = Listless, do_ref_cnt = 2, do_xref_cnt = 1,
      do_suspend_cnt = DISPATCH_OBJECT_SUSPEND_INTERVAL, do_targetq = Some q, do_ctxt = 0, do_finalizer = 0,
      ds_dkev = None, ds_handler_func = None, ds_handler_ctxt = None, ds_cancel_handler = None,
      ds_is_level = False, ds_is_adder = False, ds_is_installed = False, ds_needs_rearm = False, ds_is_armed = False,
      ds_cancel_is_block = False, ds_handler_is_block = False, ds_atomic_flags = 0, ds_data = 0, ds_pending_data = 0,
      ds_pending_data_mask = 0, ds_ident_hack = 0,
      ds_timer = \<lparr>tm_target = 0, tm_start = 0, tm_interval = 0, tm_leeway = 0, tm_flags = 0\<rparr>\<rparr>"

text \<open>
  \<open>dispatch_source_create\<close> at the fresh addresses \<open>d\<close> and \<open>alloc\<close>; the flag says whether the source could be allocated.
  The target queue is retained by the caller of this model.
\<close>

definition dispatch_source_create ::
  "bool \<Rightarrow> nat \<Rightarrow> nat option \<Rightarrow> source_type option \<Rightarrow> u64 \<Rightarrow> u64 \<Rightarrow> nat \<Rightarrow> kq \<Rightarrow> kq \<times> nat option" where
  "dispatch_source_create calloc_ok d alloc type handle msk q s =
     (case type of
        None \<Rightarrow> (s, None)
      | Some t \<Rightarrow>
          if msk AND NOT (st_mask t) \<noteq> 0 then (s, None)
          else if \<not> calloc_ok then (s, None)
          else
            (case (if st_timer t then dispatch_source_type_timer_init else dispatch_source_type_kevent_init)
                    alloc (new_source q) t handle msk of
               None \<Rightarrow> (s, None)
             | Some (ds, k, dk) \<Rightarrow> (put_dk k dk (put_ds d ds s), Some d)))"

section \<open>Timers\<close>

text \<open>Insertion before the first timer that is unset or fires later.\<close>

fun timer_insert :: "u64 \<Rightarrow> nat \<Rightarrow> nat list \<Rightarrow> kq \<Rightarrow> nat list result" where
  "timer_insert target d [] s = Ok [d]"
| "timer_insert target d (x # xs) s =
     res_bind (get_ds x s) (\<lambda>dsi.
       if tm_target (ds_timer dsi) = 0 \<or> target < tm_target (ds_timer dsi) then Ok (d # x # xs)
       else res_bind (timer_insert target d xs s) (\<lambda>ys. Ok (x # ys)))"

text \<open>\<open>_dispatch_timer_list_update\<close>: the timer leaves its list for its place in the list of its clock.\<close>

definition timer_index :: "source \<Rightarrow> nat" where
  "timer_index ds =
     (if flag_in DISPATCH_TIMER_WALL_CLOCK (tm_flags (ds_timer ds)) then DISPATCH_TIMER_INDEX_WALL else DISPATCH_TIMER_INDEX_MACH)"

definition timer_enter :: "nat \<Rightarrow> source \<Rightarrow> nat \<Rightarrow> kq \<Rightarrow> kq result" where
  "timer_enter d ds k s =
     res_bind (get_dk k s) (\<lambda>dk.
     res_bind (if tm_target (ds_timer ds) \<noteq> 0 then timer_insert (tm_target (ds_timer ds)) d (dk_sources dk) s
               else Ok (dk_sources dk @ [d]))
       (\<lambda>ys. Ok (put_dk k (dk\<lparr>dk_sources := ys\<rparr>) s)))"

definition timer_move :: "nat \<Rightarrow> kq \<Rightarrow> kq result" where
  "timer_move d s =
     res_bind (get_ds d s) (\<lambda>ds.
     res_bind (get_dkev ds) (\<lambda>k.
     res_bind (get_dk k s) (\<lambda>dk.
       let s1 = put_dk k (dk\<lparr>dk_sources := remove1 d (dk_sources dk)\<rparr>) s;
           k' = u_dispatch_kevent_timer (timer_index ds) in
       timer_enter d ds k' (put_ds d (ds\<lparr>ds_dkev := Some k'\<rparr>) s1))))"

definition u_dispatch_timer_list_update :: "system \<Rightarrow> nat \<Rightarrow> kq \<Rightarrow> kq result" where
  "u_dispatch_timer_list_update sys d s =
     res_bind (get_ds d s) (\<lambda>ds.
       if ds_dkev ds = None then Ok s
       else res_bind (u_dispatch_kevent_merge sys d s) (timer_move d))"

text \<open>A timer whose time has come: the firings are counted and the next time is set.\<close>

definition fire_timer :: "u64 \<Rightarrow> source \<Rightarrow> source" where
  "fire_timer now ds =
     (let tm = ds_timer ds in
      if flag_in (DISPATCH_TIMER_ONESHOT OR DISPATCH_TIMER_ABSOLUTE) (tm_flags tm)
      then ds\<lparr>ds_pending_data := ds_pending_data ds + 1, ds_timer := tm\<lparr>tm_target := 0\<rparr>\<rparr>
      else
        (let missed = (now - tm_target tm) div tm_interval tm in
         ds\<lparr>ds_pending_data := ds_pending_data ds + (missed + 1),
            ds_timer := tm\<lparr>tm_target := tm_target tm + (missed + 1) * tm_interval tm\<rparr>\<rparr>))"

text \<open>\<open>_dispatch_run_timers2\<close> with a bound on the turns of its loop; \<open>None\<close> when the bound is too low.\<close>

fun u_dispatch_run_timers2 :: "system \<Rightarrow> nat \<Rightarrow> u64 \<Rightarrow> nat \<Rightarrow> kq \<Rightarrow> kq result option" where
  "u_dispatch_run_timers2 sys timer now 0 s = None"
| "u_dispatch_run_timers2 sys timer now (Suc n) s =
     (case get_dk (u_dispatch_kevent_timer timer) s of
        Inl e \<Rightarrow> Some (Inl e)
      | Inr dk \<Rightarrow>
          (case dk_sources dk of
             [] \<Rightarrow> Some (Ok s)
           | d # _ \<Rightarrow>
               (case get_ds d s of
                  Inl e \<Rightarrow> Some (Inl e)
                | Inr ds \<Rightarrow>
                    if of_nat timer \<noteq> ds_ident_hack ds then
                      (case u_dispatch_timer_list_update sys d s of
                         Inl e \<Rightarrow> Some (Inl e) | Inr s1 \<Rightarrow> u_dispatch_run_timers2 sys timer now n s1)
                    else if tm_target (ds_timer ds) = 0 \<or> tm_interval (ds_timer ds) = 0 then Some (Ok s)
                    else if tm_target (ds_timer ds) > now then Some (Ok s)
                    else
                      (case u_dispatch_timer_list_update sys d (put_ds d (fire_timer now ds) s) of
                         Inl e \<Rightarrow> Some (Inl e)
                       | Inr s1 \<Rightarrow> u_dispatch_run_timers2 sys timer now n (log_call (Wakeup d) s1)))))"

text \<open>\<open>_dispatch_run_timers\<close>, with the readings of the two clocks.\<close>

definition u_dispatch_run_timers :: "system \<Rightarrow> u64 \<Rightarrow> u64 \<Rightarrow> nat \<Rightarrow> kq \<Rightarrow> kq result option" where
  "u_dispatch_run_timers sys wall_now mach_now fuel s =
     (case u_dispatch_run_timers2 sys DISPATCH_TIMER_INDEX_WALL wall_now fuel s of
        Some (Inr s1) \<Rightarrow> u_dispatch_run_timers2 sys DISPATCH_TIMER_INDEX_MACH mach_now fuel s1
      | r \<Rightarrow> r)"

definition FOREVER_NSEC :: u64 where "FOREVER_NSEC = 31536000000000000"

text \<open>The first timer of a list that is unset or not suspended; those before it are disarmed.\<close>

fun first_unsuspended :: "nat list \<Rightarrow> kq \<Rightarrow> (kq \<times> source option) result" where
  "first_unsuspended [] s = Ok (s, None)"
| "first_unsuspended (d # xs) s =
     res_bind (get_ds d s) (\<lambda>ds.
       if tm_target (ds_timer ds) = 0 then Ok (s, Some ds)
       else if DISPATCH_OBJECT_SUSPENDED ds then first_unsuspended xs (put_ds d (ds\<lparr>ds_is_armed := False\<rparr>) s)
       else Ok (s, Some ds))"

text \<open>The loop of \<open>_dispatch_get_next_timer_fire\<close> over the lists; \<open>None\<close> when a timer is due.\<close>

fun next_fire_delta :: "host_time_data \<Rightarrow> u64 \<Rightarrow> u64 \<Rightarrow> nat list \<Rightarrow> u64 \<Rightarrow> kq \<Rightarrow> (kq \<times> u64 option) result" where
  "next_fire_delta h wall_now mach_now [] delta s = Ok (s, Some delta)"
| "next_fire_delta h wall_now mach_now (timer # timers) delta s =
     res_bind (get_dk (u_dispatch_kevent_timer timer) s) (\<lambda>dk.
     res_bind (first_unsuspended (dk_sources dk) s) (\<lambda>(s1, r).
       case r of
         None \<Rightarrow> next_fire_delta h wall_now mach_now timers delta s1
       | Some ds \<Rightarrow>
           (let tm = ds_timer ds; wall = flag_in DISPATCH_TIMER_WALL_CLOCK (tm_flags tm);
                now = (if wall then wall_now else mach_now) in
            if tm_target tm = 0 then next_fire_delta h wall_now mach_now timers delta s1
            else if tm_target tm \<le> now then Ok (s1, None)
            else
              (let delta_tmp = (if wall then tm_target tm - now else u_dispatch_time_mach2nano h (tm_target tm - now)) in
               next_fire_delta h wall_now mach_now timers (if delta_tmp < delta then delta_tmp else delta) s1))))"

definition u_dispatch_get_next_timer_fire :: "host_time_data \<Rightarrow> u64 \<Rightarrow> u64 \<Rightarrow> kq \<Rightarrow> (kq \<times> timespec option) result" where
  "u_dispatch_get_next_timer_fire h wall_now mach_now s =
     res_bind (next_fire_delta h wall_now mach_now [DISPATCH_TIMER_INDEX_WALL, DISPATCH_TIMER_INDEX_MACH] (NOT 0) s) (\<lambda>(s1, r).
       case r of
         None \<Rightarrow> Ok (s1, Some \<lparr>tv_sec = 0, tv_nsec = 0\<rparr>)
       | Some delta \<Rightarrow>
           if delta > FOREVER_NSEC then Ok (s1, None)
           else Ok (s1, Some \<lparr>tv_sec = delta div NSEC_PER_SEC, tv_nsec = delta mod NSEC_PER_SEC\<rparr>))"

section \<open>The interface of sources\<close>

definition u_dispatch_mgr_q :: nat where "u_dispatch_mgr_q = 0"

definition dispatch_source_cancel :: "nat \<Rightarrow> kq \<Rightarrow> kq result" where
  "dispatch_source_cancel d s =
     res_bind (get_ds d s) (\<lambda>ds.
     res_bind (u_dispatch_retain ds) (\<lambda>ds1.
       source_release d
         (log_call (Wakeup d) (put_ds d (ds1\<lparr>ds_atomic_flags := ds_atomic_flags ds1 OR DSF_CANCELED\<rparr>) s))))"

definition u_dispatch_source_xref_release :: "nat \<Rightarrow> kq \<Rightarrow> kq result" where
  "u_dispatch_source_xref_release d s =
     res_bind (get_ds d s) (\<lambda>ds.
       if DISPATCH_OBJECT_SUSPENDED ds then Inl (Client_crash ''Release of a suspended object'')
       else source_release d (log_call (Wakeup d) s))"

definition dispatch_source_testcancel :: "source \<Rightarrow> bool" where
  "dispatch_source_testcancel ds = flag_in DSF_CANCELED (ds_atomic_flags ds)"

definition dispatch_source_get_mask :: "source \<Rightarrow> u64" where
  "dispatch_source_get_mask ds = ds_pending_data_mask ds"

text \<open>The cast to \<open>int\<close> keeps 32 bits, which are then extended with their sign.\<close>

definition dispatch_source_get_handle :: "source \<Rightarrow> u64" where
  "dispatch_source_get_handle ds = word_of_int (sint (ucast (ds_ident_hack ds) :: u32))"

definition dispatch_source_get_data :: "source \<Rightarrow> u64" where
  "dispatch_source_get_data ds = ds_data ds"

definition u_dispatch_source_latch_and_call :: "nat \<Rightarrow> kq \<Rightarrow> kq result" where
  "u_dispatch_source_latch_and_call d s =
     res_bind (get_ds d s) (\<lambda>ds.
       if canceled ds then Ok s
       else
         (let prev = ds_pending_data ds;
              ds1 = ds\<lparr>ds_pending_data := 0, ds_data := (if ds_is_level ds then NOT prev else prev)\<rparr>;
              s1 = put_ds d ds1 s in
          Ok (if prev \<noteq> 0 then
                (case ds_handler_func ds1 of None \<Rightarrow> s1 | Some f \<Rightarrow> log_call (Event_handler d f (ds_data ds1)) s1)
              else s1)))"

definition u_dispatch_source_cancel_callout :: "nat \<Rightarrow> kq \<Rightarrow> kq result" where
  "u_dispatch_source_cancel_callout d s =
     res_bind (get_ds d s) (\<lambda>ds.
       let ds1 = ds\<lparr>ds_pending_data_mask := 0, ds_pending_data := 0, ds_data := 0\<rparr>;
           s1 = (if ds_handler_is_block ds1
                 then (case ds_handler_ctxt ds1 of None \<Rightarrow> s | Some b \<Rightarrow> log_call (Block_release b) s) else s);
           ds2 = (if ds_handler_is_block ds1
                  then ds1\<lparr>ds_handler_is_block := False, ds_handler_func := None, ds_handler_ctxt := None\<rparr> else ds1) in
       case ds_cancel_handler ds2 of
         None \<Rightarrow> Ok (put_ds d ds2 s1)
       | Some c \<Rightarrow>
           (let s2 = (if flag_in DSF_CANCELED (ds_atomic_flags ds2) then log_call (Cancel_handler d c) s1 else s1);
                s3 = (if ds_cancel_is_block ds2 then log_call (Block_release c) s2 else s2);
                ds3 = (if ds_cancel_is_block ds2 then ds2\<lparr>ds_cancel_is_block := False\<rparr> else ds2) in
            Ok (put_ds d (ds3\<lparr>ds_cancel_handler := None\<rparr>) s3)))"

text \<open>\<open>_dispatch_source_invoke\<close> on the queue \<open>dq\<close>: the queue on which the source is to be invoked again, if any.\<close>

definition u_dispatch_source_invoke :: "system \<Rightarrow> nat \<Rightarrow> nat \<Rightarrow> kq \<Rightarrow> (kq \<times> nat option) result" where
  "u_dispatch_source_invoke sys dq d s =
     res_bind (get_ds d s) (\<lambda>ds.
       if \<not> ds_is_installed ds then
         (if dq \<noteq> u_dispatch_mgr_q then Ok (s, Some u_dispatch_mgr_q)
          else res_bind (u_dispatch_kevent_merge sys d s) (\<lambda>s1. Ok (s1, None)))
       else if canceled ds then
         (if ds_dkev ds \<noteq> None then
            (if dq \<noteq> u_dispatch_mgr_q then Ok (s, Some u_dispatch_mgr_q)
             else res_bind (u_dispatch_kevent_release sys d s) (\<lambda>s1. Ok (s1, do_targetq ds)))
          else if ds_cancel_handler ds \<noteq> None \<and> Some dq \<noteq> do_targetq ds then Ok (s, do_targetq ds)
          else res_bind (u_dispatch_source_cancel_callout d s) (\<lambda>s1. Ok (s1, None)))
       else if ds_pending_data ds \<noteq> 0 then
         (if Some dq \<noteq> do_targetq ds then Ok (s, do_targetq ds)
          else
            res_bind (u_dispatch_source_latch_and_call d s) (\<lambda>s1.
            res_bind (get_ds d s1) (\<lambda>ds1. Ok (s1, if ds_needs_rearm ds1 then Some u_dispatch_mgr_q else None))))
       else if ds_needs_rearm ds \<and> \<not> ds_is_armed ds then
         (if dq \<noteq> u_dispatch_mgr_q then Ok (s, Some u_dispatch_mgr_q)
          else
            res_bind (u_dispatch_source_kevent_resume sys d s) (\<lambda>s1.
            res_bind (get_ds d s1) (\<lambda>ds1. Ok (put_ds d (ds1\<lparr>ds_is_armed := True\<rparr>) s1, None))))
       else Ok (s, None))"

definition u_dispatch_source_probe :: "source \<Rightarrow> bool" where
  "u_dispatch_source_probe ds =
     (if \<not> ds_is_installed ds then True
      else if canceled ds then ds_dkev ds \<noteq> None \<or> ds_cancel_handler ds \<noteq> None
      else if ds_pending_data ds \<noteq> 0 then True
      else ds_needs_rearm ds \<and> \<not> ds_is_armed ds)"

text \<open>Setting the handlers, on the queue of the source; a block comes with the function that invokes it.\<close>

definition u_dispatch_source_set_event_handler2 :: "(nat \<times> nat) option \<Rightarrow> nat \<Rightarrow> kq \<Rightarrow> kq result" where
  "u_dispatch_source_set_event_handler2 bl d s =
     res_bind (get_ds d s) (\<lambda>ds.
       let s1 = (if ds_handler_is_block ds
                 then (case ds_handler_ctxt ds of None \<Rightarrow> s | Some b \<Rightarrow> log_call (Block_release b) s) else s) in
       Ok (put_ds d (ds\<lparr>ds_handler_func := map_option snd bl, ds_handler_ctxt := map_option fst bl,
                        ds_handler_is_block := True\<rparr>) s1))"

definition u_dispatch_source_set_event_handler_f :: "nat option \<Rightarrow> nat \<Rightarrow> kq \<Rightarrow> kq result" where
  "u_dispatch_source_set_event_handler_f f d s =
     res_bind (get_ds d s) (\<lambda>ds.
       let s1 = (if ds_handler_is_block ds
                 then (case ds_handler_ctxt ds of None \<Rightarrow> s | Some b \<Rightarrow> log_call (Block_release b) s) else s) in
       Ok (put_ds d (ds\<lparr>ds_handler_func := f, ds_handler_ctxt := Some (do_ctxt ds), ds_handler_is_block := False\<rparr>) s1))"

definition set_cancel_handler :: "bool \<Rightarrow> nat option \<Rightarrow> nat \<Rightarrow> kq \<Rightarrow> kq result" where
  "set_cancel_handler is_block c d s =
     res_bind (get_ds d s) (\<lambda>ds.
       let s1 = (if ds_cancel_is_block ds
                 then (case ds_cancel_handler ds of None \<Rightarrow> s | Some b \<Rightarrow> log_call (Block_release b) s) else s) in
       Ok (put_ds d (ds\<lparr>ds_cancel_handler := c, ds_cancel_is_block := is_block\<rparr>) s1))"

definition u_dispatch_source_set_cancel_handler2 :: "nat option \<Rightarrow> nat \<Rightarrow> kq \<Rightarrow> kq result" where
  "u_dispatch_source_set_cancel_handler2 = set_cancel_handler True"

definition u_dispatch_source_set_cancel_handler_f :: "nat option \<Rightarrow> nat \<Rightarrow> kq \<Rightarrow> kq result" where
  "u_dispatch_source_set_cancel_handler_f = set_cancel_handler False"

record set_timer_params =
  sp_ds :: nat
  sp_ident :: u32
  sp_values :: timer_source

text \<open>\<open>dispatch_source_set_timer\<close> up to the submission of its parameters to the manager queue.\<close>

definition dispatch_source_set_timer ::
  "host_time_data \<Rightarrow> u64 \<Rightarrow> nat \<Rightarrow> u64 \<Rightarrow> u64 \<Rightarrow> u64 \<Rightarrow> kq \<Rightarrow> (kq \<times> set_timer_params) result" where
  "dispatch_source_set_timer h abs_now d start interval leeway s =
     (let interval = (if interval = 0 then (if ratio_1_to_1 h then 1 else word_of_int \<lceil>frac h\<rceil>)
                      else if sint interval < 0 then word_of_int (2 ^ 63 - 1) else interval) in
      res_bind (get_ds d s) (\<lambda>ds.
      res_bind (dispatch_retain ds) (\<lambda>ds1.
      let ds2 = dispatch_suspend ds1;
          start = (if start = DISPATCH_TIME_NOW then abs_now
                   else if start = DISPATCH_TIME_FOREVER then word_of_int (2 ^ 63 - 1) else start);
          leeway = (if sint leeway < 0 then word_of_int (2 ^ 63 - 1) else leeway);
          flags = tm_flags (ds_timer ds2) in
      Ok (put_ds d ds2 s,
          if sint start < 0 then
            \<lparr>sp_ds = d, sp_ident = of_nat DISPATCH_TIMER_INDEX_WALL,
             sp_values = \<lparr>tm_target = - start, tm_start = - start, tm_interval = interval, tm_leeway = leeway,
                          tm_flags = flags OR DISPATCH_TIMER_WALL_CLOCK\<rparr>\<rparr>
          else
            \<lparr>sp_ds = d, sp_ident = of_nat DISPATCH_TIMER_INDEX_MACH,
             sp_values = \<lparr>tm_target = start, tm_start = start, tm_interval = u_dispatch_time_nano2mach h interval,
                          tm_leeway = u_dispatch_time_nano2mach h leeway,
                          tm_flags = flags AND NOT DISPATCH_TIMER_WALL_CLOCK\<rparr>\<rparr>))))"

text \<open>\<open>dispatch_resume\<close> and \<open>dispatch_release\<close> of a source.\<close>

definition source_resume :: "nat \<Rightarrow> kq \<Rightarrow> kq result" where
  "source_resume d s =
     res_bind (get_ds d s) (\<lambda>ds.
     res_bind (dispatch_resume ds) (\<lambda>(ds1, wakes).
       Ok (if wakes then log_call (Wakeup d) (put_ds d ds1 s) else put_ds d ds1 s)))"

definition source_xrelease :: "nat \<Rightarrow> kq \<Rightarrow> kq result" where
  "source_xrelease d s =
     res_bind (get_ds d s) (\<lambda>ds.
     res_bind (xrelease_count ds) (\<lambda>(ds1, next).
       case next of
         Xrelease_return \<Rightarrow> Ok (put_ds d ds1 s)
       | Xrelease_source \<Rightarrow> u_dispatch_source_xref_release d (put_ds d ds1 s)
       | Xrelease_internal \<Rightarrow> source_release d (put_ds d ds1 s)))"

definition u_dispatch_source_set_timer2 :: "system \<Rightarrow> set_timer_params \<Rightarrow> kq \<Rightarrow> kq result" where
  "u_dispatch_source_set_timer2 sys params s =
     (let d = sp_ds params in
      res_bind (get_ds d s) (\<lambda>ds.
      res_bind (u_dispatch_timer_list_update sys d
                  (put_ds d (ds\<lparr>ds_ident_hack := ucast (sp_ident params), ds_timer := sp_values params\<rparr>) s)) (\<lambda>s1.
      res_bind (source_resume d s1) (source_xrelease d))))"

text \<open>The events that the manager takes from the kernel; what it does for \<open>EVFILT_USER\<close> is to drain its own queue.\<close>

fun u_dispatch_mgr_thread2 :: "kevent list \<Rightarrow> kq \<Rightarrow> kq result" where
  "u_dispatch_mgr_thread2 [] s = Ok s"
| "u_dispatch_mgr_thread2 (kev # kevs) s =
     res_bind (if ke_filter kev = EVFILT_USER then Ok (log_call Drain_mgr_queue s) else u_dispatch_source_drain_kevent kev s)
       (u_dispatch_mgr_thread2 kevs)"

end
