(* ===== verification/Dispatch_Source_Proofs.thy ===== *)
theory Dispatch_Source_Proofs
  imports Dispatch_Source
begin

text \<open>
  The registrations of event sources stay well formed: the kevents in the table, their lists of sources and the sources fit
  together after every operation, and no operation touches a kevent or a source that was freed.
\<close>

section \<open>Outcomes\<close>

text \<open>
  The crashes that are allowed: those that blame the client, and the access past the end of an \<open>fd_set\<close>.
\<close>

definition benign :: "crash \<Rightarrow> bool" where
  "benign e \<longleftrightarrow> (\<exists>m. e = Client_crash m) \<or> e = Crash ''fd_set index''"

definition fine :: "('a \<Rightarrow> bool) \<Rightarrow> 'a result \<Rightarrow> bool" where
  "fine P r \<longleftrightarrow> (case r of Inl e \<Rightarrow> benign e | Inr x \<Rightarrow> P x)"

lemma fine_simps [simp]: "fine P (Inl e) \<longleftrightarrow> benign e" "fine P (Inr x) \<longleftrightarrow> P x"
  by (simp_all add: fine_def)

lemma fine_bind:
  assumes "fine P r" "\<And>x. P x \<Longrightarrow> fine Q (f x)"
  shows "fine Q (res_bind r f)"
  using assms by (cases r) auto

lemma fine_mono: "fine P r \<Longrightarrow> (\<And>x. P x \<Longrightarrow> Q x) \<Longrightarrow> fine Q r"
  by (cases r) auto

lemma benign_simps [simp]: "benign (Client_crash m)" "benign (Crash ''fd_set index'')" "\<not> benign Use_after_free" "\<not> benign Null_dereference"
  by (simp_all add: benign_def)

section \<open>Shapes\<close>

text \<open>
  What the links between sources and kevents depend on: of a source its kevent and whether it is installed, of a kevent its
  sources, its key and its own address.
\<close>

definition ds_shape :: "source \<Rightarrow> nat option \<times> bool" where
  "ds_shape ds = (ds_dkev ds, ds_is_installed ds)"

definition dk_shape :: "dkevent \<Rightarrow> nat list \<times> u64 \<times> int \<times> nat option" where
  "dk_shape dk = (dk_sources dk, ke_ident (dk_kevent dk), ke_filter (dk_kevent dk), ke_udata (dk_kevent dk))"

definition D :: "kq \<Rightarrow> nat \<Rightarrow> (nat option \<times> bool) option" where
  "D s d = map_option ds_shape (kq_ds s d)"

definition K :: "kq \<Rightarrow> nat \<Rightarrow> (nat list \<times> u64 \<times> int \<times> nat option) option" where
  "K s k = map_option dk_shape (kq_dk s k)"

definition refs :: "source \<Rightarrow> int \<times> int \<times> bool \<times> link \<times> vtable" where
  "refs ds = (do_ref_cnt ds, do_xref_cnt ds, ds_needs_rearm ds, do_next ds, do_vtable ds)"

definition R :: "kq \<Rightarrow> nat \<Rightarrow> (int \<times> int \<times> bool \<times> link \<times> vtable) option" where
  "R s d = map_option refs (kq_ds s d)"

definition Tm :: "kq \<Rightarrow> nat \<Rightarrow> (u64 \<times> timer_source) option" where
  "Tm s d = map_option (\<lambda>ds. (ds_ident_hack ds, ds_timer ds)) (kq_ds s d)"

text \<open>States that differ in nothing but pending data, flags and logs.\<close>

definition same_shape :: "kq \<Rightarrow> kq \<Rightarrow> bool" where
  "same_shape s t \<longleftrightarrow> D t = D s \<and> K t = K s \<and> R t = R s \<and> Tm t = Tm s \<and> kq_table t = kq_table s \<and> kq_ready t = kq_ready s"

lemma same_shape_refl [simp]: "same_shape s s"
  by (simp add: same_shape_def)

lemma same_shape_trans: "same_shape s t \<Longrightarrow> same_shape t u \<Longrightarrow> same_shape s u"
  by (simp add: same_shape_def)

lemma fine_shape_trans: "same_shape s t \<Longrightarrow> fine (same_shape t) r \<Longrightarrow> fine (same_shape s) r"
  by (cases r) (auto intro: same_shape_trans)

lemma same_shape_log [simp]: "same_shape s (log_call c s)"
  by (simp add: same_shape_def log_call_def D_def K_def R_def Tm_def fun_eq_iff)

lemma same_shape_put_ds:
  assumes "kq_ds s d = Some ds" "ds_shape ds' = ds_shape ds" "refs ds' = refs ds"
    "ds_ident_hack ds' = ds_ident_hack ds" "ds_timer ds' = ds_timer ds"
  shows "same_shape s (put_ds d ds' s)"
  using assms by (auto simp: same_shape_def put_ds_def D_def K_def R_def Tm_def fun_eq_iff)

lemma same_shape_put_dk:
  assumes "kq_dk s k = Some dk" "dk_shape dk' = dk_shape dk"
  shows "same_shape s (put_dk k dk' s)"
  using assms by (auto simp: same_shape_def put_dk_def D_def K_def R_def Tm_def fun_eq_iff)

lemma same_shape_other [simp]:
  "same_shape s (s\<lparr>kq_changes := c\<rparr>)" "same_shape s (s\<lparr>kq_rfds := a, kq_rfd_ptrs := b\<rparr>)"
  "same_shape s (s\<lparr>kq_wfds := a, kq_wfd_ptrs := b\<rparr>)"
  "same_shape s (s\<lparr>kq_select_workaround := w, kq_rfds := a, kq_rfd_ptrs := b\<rparr>)"
  "same_shape s (s\<lparr>kq_select_workaround := w, kq_wfds := a, kq_wfd_ptrs := b\<rparr>)"
  by (simp_all add: same_shape_def D_def K_def R_def Tm_def fun_eq_iff)

lemma get_ds_fine: "D s d \<noteq> None \<Longrightarrow> fine (\<lambda>ds. kq_ds s d = Some ds) (get_ds d s)"
  by (auto simp: D_def get_ds_def split: option.splits)

lemma get_dk_fine: "K s k \<noteq> None \<Longrightarrow> fine (\<lambda>dk. kq_dk s k = Some dk) (get_dk k s)"
  by (auto simp: K_def get_dk_def split: option.splits)

text \<open>Events change no shape.\<close>

lemma merge_kevent_fine:
  assumes "D s d \<noteq> None"
  shows "fine (same_shape s) (u_dispatch_source_merge_kevent d ke s)"
  unfolding u_dispatch_source_merge_kevent_def
proof (rule fine_bind [OF get_ds_fine [OF assms]])
  fix ds assume "kq_ds s d = Some ds"
  then have "same_shape s (log_call c (put_ds d ds' s))" if "ds_shape ds' = ds_shape ds" "refs ds' = refs ds"
      "ds_ident_hack ds' = ds_ident_hack ds" "ds_timer ds' = ds_timer ds" for c ds'
    using same_shape_put_ds [of s d ds ds'] same_shape_log same_shape_trans that by blast
  then show "fine (same_shape s) (if canceled ds then Ok s
       else
         (let is_error = flag_in EV_ERROR (ke_flags ke);
              fakes_exit = (ke_filter ke = EVFILT_PROC \<and> ke_data ke = ESRCH);
              ke = (if is_error \<and> fakes_exit
                    then ke\<lparr>ke_flags := ke_flags ke AND NOT EV_ERROR, ke_fflags := NOTE_EXIT, ke_data := 0\<rparr> else ke) in
          if is_error \<and> \<not> fakes_exit then Ok s
          else
            (let ds1 = (if ds_is_level ds then ds\<lparr>ds_pending_data := NOT (ke_data ke)\<rparr>
                        else if ds_is_adder ds then ds\<lparr>ds_pending_data := ds_pending_data ds + ke_data ke\<rparr>
                        else ds\<lparr>ds_pending_data := ds_pending_data ds OR (ucast (ke_fflags ke) AND ds_pending_data_mask ds)\<rparr>);
                 ds2 = (if ds_needs_rearm ds1 then ds1\<lparr>ds_is_armed := False\<rparr> else ds1) in
             Ok (log_call (Wakeup d) (put_ds d ds2 s)))))"
    by (simp add: Let_def ds_shape_def refs_def)
qed

lemma merge_all_fine:
  assumes "\<forall>d \<in> set ds. D s d \<noteq> None"
  shows "fine (same_shape s) (merge_all ds ke s)"
  using assms
proof (induction ds arbitrary: s)
  case (Cons d ds)
  have "fine (same_shape s) (res_bind (u_dispatch_source_merge_kevent d ke s) (merge_all ds ke))"
  proof (rule fine_bind)
    show "fine (same_shape s) (u_dispatch_source_merge_kevent d ke s)"
      using Cons.prems by (intro merge_kevent_fine) simp
    fix t assume t: "same_shape s t"
    then have "\<forall>d \<in> set ds. D t d \<noteq> None"
      using Cons.prems by (simp add: same_shape_def)
    then show "fine (same_shape s) (merge_all ds ke t)"
      by (rule fine_shape_trans [OF t Cons.IH])
  qed
  then show ?case by simp
qed simp

definition sources_live :: "kq \<Rightarrow> nat \<Rightarrow> bool" where
  "sources_live s k \<longleftrightarrow> (\<exists>xs i f u. K s k = Some (xs, i, f, u) \<and> (\<forall>d \<in> set xs. D s d \<noteq> None))"

lemma drain_kevent_fine:
  assumes k: "ke_udata ke = Some k" "sources_live s k"
  shows "fine (same_shape s) (u_dispatch_source_drain_kevent ke s)"
proof -
  have nn: "K s k \<noteq> None"
    using k(2) by (auto simp: sources_live_def)
  have "fine (same_shape s) (merge_all (dk_sources dk) ke
      (if flag_in EV_ONESHOT (ke_flags ke)
       then put_dk k (dk\<lparr>dk_kevent := (dk_kevent dk)\<lparr>ke_flags := ke_flags (dk_kevent dk) OR EV_ONESHOT\<rparr>\<rparr>) s else s))" (is "fine _ (merge_all _ _ ?s)")
    if dk: "kq_dk s k = Some dk" for dk
  proof -
    have s: "same_shape s ?s"
      using same_shape_put_dk [OF dk] by (simp add: dk_shape_def)
    then have "\<forall>d \<in> set (dk_sources dk). D ?s d \<noteq> None"
      using k(2) dk by (auto simp: sources_live_def same_shape_def K_def dk_shape_def)
    from fine_shape_trans [OF s merge_all_fine [OF this]] show ?thesis .
  qed
  then show ?thesis
    unfolding u_dispatch_source_drain_kevent_def k(1) option.case Let_def by (rule fine_bind [OF get_dk_fine [OF nn]])
qed

text \<open>Nor does a registration with the kernel, whatever the kernel answers.\<close>

lemma select_delete_fine: "fine (\<lambda>x. same_shape s (fst x)) (select_delete kev s)"
  by (simp add: select_delete_def select_delete_write_def)

lemma update_kq_fine:
  assumes "ke_udata kev = Some k" "sources_live s k"
  shows "fine (same_shape s) (u_dispatch_update_kq sys kev s)"
proof -
  let ?kc = "kev\<lparr>ke_flags := ke_flags kev OR EV_RECEIPT\<rparr>"
  have fallback: "fine (same_shape s) (select_fallback (?kc\<lparr>ke_flags := f, ke_data := e\<rparr>) t)" if "same_shape s t" for f e t
  proof -
    have "sources_live t k"
      using that assms(2) by (simp add: sources_live_def same_shape_def)
    then have "fine (same_shape t) (select_fallback (?kc\<lparr>ke_flags := f, ke_data := e\<rparr>) t)"
      using assms(1) by (auto simp: select_fallback_def intro: drain_kevent_fine)
    with that show ?thesis
      by (rule fine_shape_trans)
  qed
  have call: "same_shape s (t\<lparr>kq_changes := c\<rparr>)" if "same_shape s t" for t c
    using that same_shape_other(1) same_shape_trans by blast
  have "fine (\<lambda>x. same_shape s (fst x)) (if flag_in EV_DELETE (ke_flags ?kc) then select_delete ?kc s else Ok (s, False))"
    using select_delete_fine by simp
  then show ?thesis
    unfolding u_dispatch_update_kq_def Let_def
    by (rule fine_bind) (auto simp: call fallback [simplified] split: option.splits)
qed

lemma kevent_resume_fine:
  assumes "K s k = Some (xs, i, f, Some k)" "\<forall>d \<in> set xs. D s d \<noteq> None"
  shows "fine (same_shape s) (u_dispatch_kevent_resume sys k s)"
proof -
  have live: "sources_live s k" and nn: "K s k \<noteq> None"
    using assms by (auto simp: sources_live_def)
  have put: "fine (same_shape s) (if flag_in EV_DISPATCH (ke_flags (dk_kevent dk))
      then Ok (put_dk k (dk\<lparr>dk_kevent := (dk_kevent dk)\<lparr>ke_flags := ke_flags (dk_kevent dk) AND NOT EV_ADD\<rparr>\<rparr>) t) else Ok t)"
    if "same_shape s t" "kq_dk t k = Some dk" for t dk
    using same_shape_put_dk [OF that(2)] that(1) same_shape_trans by (auto simp: dk_shape_def)
  show ?thesis
    unfolding u_dispatch_kevent_resume_def Let_def
  proof (rule fine_bind [OF get_dk_fine [OF nn]])
    fix dk assume dk: "kq_dk s k = Some dk"
    have "fine (same_shape s) (res_bind (u_dispatch_update_kq sys (dk_kevent dk) s) (\<lambda>s1. res_bind (get_dk k s1) (\<lambda>dk1.
        if flag_in EV_DISPATCH (ke_flags (dk_kevent dk1))
        then Ok (put_dk k (dk1\<lparr>dk_kevent := (dk_kevent dk1)\<lparr>ke_flags := ke_flags (dk_kevent dk1) AND NOT EV_ADD\<rparr>\<rparr>) s1) else Ok s1)))"
    proof (rule fine_bind [OF update_kq_fine [OF _ live]])
      show "ke_udata (dk_kevent dk) = Some k"
        using dk assms(1) by (auto simp: K_def dk_shape_def)
      fix t assume t: "same_shape s t"
      then have "K t k \<noteq> None"
        using nn by (simp add: same_shape_def)
      then show "fine (same_shape s) (res_bind (get_dk k t) (\<lambda>dk1. if flag_in EV_DISPATCH (ke_flags (dk_kevent dk1))
          then Ok (put_dk k (dk1\<lparr>dk_kevent := (dk_kevent dk1)\<lparr>ke_flags := ke_flags (dk_kevent dk1) AND NOT EV_ADD\<rparr>\<rparr>) t) else Ok t))"
        by (rule fine_bind [OF get_dk_fine]) (rule put [OF t])
    qed
    then show "fine (same_shape s) (if custom_filter (ke_filter (dk_kevent dk)) then Ok s
       else if ke_filter (dk_kevent dk) = EVFILT_PROC \<and> flag_in EV_ONESHOT (ke_flags (dk_kevent dk)) then Ok s
       else res_bind (u_dispatch_update_kq sys (dk_kevent dk) s) (\<lambda>s1. res_bind (get_dk k s1) (\<lambda>dk1.
        if flag_in EV_DISPATCH (ke_flags (dk_kevent dk1))
        then Ok (put_dk k (dk1\<lparr>dk_kevent := (dk_kevent dk1)\<lparr>ke_flags := ke_flags (dk_kevent dk1) AND NOT EV_ADD\<rparr>\<rparr>) s1) else Ok s1)))"
      by simp
  qed
qed


section \<open>Well-formed registrations\<close>

type_synonym ds_shapes = "nat \<Rightarrow> (nat option \<times> bool) option"
type_synonym dk_shapes = "nat \<Rightarrow> (nat list \<times> u64 \<times> int \<times> nat option) option"

definition intab :: "nat list list \<Rightarrow> nat \<Rightarrow> bool" where
  "intab tab k \<longleftrightarrow> (\<exists>h<length tab. k \<in> set (tab ! h))"

text \<open>The table: each kevent stands once, in the bucket of its hash, and no two have the same key.\<close>

definition table_shape :: "dk_shapes \<Rightarrow> nat list list \<Rightarrow> bool \<Rightarrow> bool" where
  "table_shape KK tab ready \<longleftrightarrow>
     (if ready then length tab = 256 \<and> (\<forall>k<4. intab tab k) else tab = []) \<and>
     (\<forall>h<length tab. distinct (tab ! h)) \<and>
     (\<forall>h<length tab. \<forall>k \<in> set (tab ! h). \<exists>xs i f u. KK k = Some (xs, i, f, u) \<and> u_dispatch_kevent_hash i f = h) \<and>
     (\<forall>k k' xs xs' i f u u'. intab tab k \<longrightarrow> intab tab k' \<longrightarrow> KK k = Some (xs, i, f, u) \<longrightarrow> KK k' = Some (xs', i, f, u') \<longrightarrow> k = k')"

text \<open>The kevents: a kevent on the heap is in the table exactly while it has sources.\<close>

definition kevents_shape :: "ds_shapes \<Rightarrow> dk_shapes \<Rightarrow> nat list list \<Rightarrow> bool" where
  "kevents_shape DD KK tab \<longleftrightarrow>
     (\<forall>k<4. \<exists>xs. KK k = Some (xs, ke_ident (static_kevent k), ke_filter (static_kevent k), Some k)) \<and>
     (\<forall>k xs i f u. KK k = Some (xs, i, f, u) \<longrightarrow>
        u = Some k \<and> distinct xs \<and> (\<forall>d \<in> set xs. DD d = Some (Some k, True)) \<and>
        (4 \<le> k \<longrightarrow> (intab tab k \<longleftrightarrow> xs \<noteq> [])) \<and> (custom_filter f \<longrightarrow> 4 \<le> k \<longrightarrow> \<not> intab tab k \<and> i = 0))"

text \<open>The sources: an installed one is on the list of its kevent, one not yet installed has a kevent of its own.\<close>

definition sources_shape :: "ds_shapes \<Rightarrow> dk_shapes \<Rightarrow> nat list list \<Rightarrow> bool" where
  "sources_shape DD KK tab \<longleftrightarrow>
     (\<forall>d k. DD d = Some (Some k, True) \<longrightarrow> intab tab k \<and> (\<exists>xs i f u. KK k = Some (xs, i, f, u) \<and> d \<in> set xs)) \<and>
     (\<forall>d x. DD d = Some (x, False) \<longrightarrow>
        (\<exists>k i f u. x = Some k \<and> KK k = Some ([], i, f, u) \<and> \<not> intab tab k \<and> 4 \<le> k \<and> (\<forall>d' b. DD d' = Some (Some k, b) \<longrightarrow> d' = d)))"

definition kq_ok :: "kq \<Rightarrow> bool" where
  "kq_ok s \<longleftrightarrow> table_shape (K s) (kq_table s) (kq_ready s) \<and> kevents_shape (D s) (K s) (kq_table s) \<and> sources_shape (D s) (K s) (kq_table s)"

lemma kq_ok_same_shape: "kq_ok s \<Longrightarrow> same_shape s t \<Longrightarrow> kq_ok t"
  by (simp add: kq_ok_def same_shape_def)

lemma shape_simps [simp]:
  "D (put_ds d ds s) = (D s)(d \<mapsto> ds_shape ds)" "K (put_ds d ds s) = K s" "R (put_ds d ds s) = (R s)(d \<mapsto> refs ds)"
  "D (put_dk k dk s) = D s" "K (put_dk k dk s) = (K s)(k \<mapsto> dk_shape dk)" "R (put_dk k dk s) = R s"
  "Tm (put_ds d ds s) = (Tm s)(d \<mapsto> (ds_ident_hack ds, ds_timer ds))" "Tm (put_dk k dk s) = Tm s" "Tm (log_call c s) = Tm s"
  "kq_table (put_ds d ds s) = kq_table s" "kq_ready (put_ds d ds s) = kq_ready s"
  "kq_table (put_dk k dk s) = kq_table s" "kq_ready (put_dk k dk s) = kq_ready s"
  "kq_ds (put_ds d ds s) = (kq_ds s)(d \<mapsto> ds)" "kq_dk (put_ds d ds s) = kq_dk s"
  "kq_ds (put_dk k dk s) = kq_ds s" "kq_dk (put_dk k dk s) = (kq_dk s)(k \<mapsto> dk)"
  "D (log_call c s) = D s" "K (log_call c s) = K s" "R (log_call c s) = R s"
  "kq_table (log_call c s) = kq_table s" "kq_ready (log_call c s) = kq_ready s"
  "kq_ds (log_call c s) = kq_ds s" "kq_dk (log_call c s) = kq_dk s"
  by (auto simp: D_def K_def R_def Tm_def put_ds_def put_dk_def log_call_def fun_eq_iff)

lemma shape_free [simp]:
  "D (s\<lparr>kq_dk := (kq_dk s)(k := None)\<rparr>) = D s" "K (s\<lparr>kq_dk := (kq_dk s)(k := None)\<rparr>) = (K s)(k := None)"
  "R (s\<lparr>kq_dk := (kq_dk s)(k := None)\<rparr>) = R s"
  "D (s\<lparr>kq_ds := (kq_ds s)(d := None)\<rparr>) = (D s)(d := None)" "K (s\<lparr>kq_ds := (kq_ds s)(d := None)\<rparr>) = K s"
  "R (s\<lparr>kq_ds := (kq_ds s)(d := None)\<rparr>) = (R s)(d := None)"
  "D (s\<lparr>kq_table := t\<rparr>) = D s" "K (s\<lparr>kq_table := t\<rparr>) = K s" "R (s\<lparr>kq_table := t\<rparr>) = R s"
  "Tm (s\<lparr>kq_dk := (kq_dk s)(k := None)\<rparr>) = Tm s" "Tm (s\<lparr>kq_ds := (kq_ds s)(d := None)\<rparr>) = (Tm s)(d := None)"
  "Tm (s\<lparr>kq_table := t\<rparr>) = Tm s"
  "D (s\<lparr>kq_table := t, kq_ready := r\<rparr>) = D s" "K (s\<lparr>kq_table := t, kq_ready := r\<rparr>) = K s"
  "R (s\<lparr>kq_table := t, kq_ready := r\<rparr>) = R s" "Tm (s\<lparr>kq_table := t, kq_ready := r\<rparr>) = Tm s"
  by (auto simp: D_def K_def R_def Tm_def fun_eq_iff)

text \<open>The hash table finds a kevent exactly when one with the key is registered.\<close>

lemma hash_bound: "u_dispatch_kevent_hash i f < 256"
proof -
  have "i AND (DSL_HASH_SIZE - 1) = take_bit 8 i"
    by (simp add: DSL_HASH_SIZE_def take_bit_eq_mask mask_eq_exp_minus_1)
  then show ?thesis
    by (simp add: u_dispatch_kevent_hash_def unsigned_take_bit_eq take_bit_nat_less_exp [of 8, simplified])
qed

definition find_spec :: "kq \<Rightarrow> u64 \<Rightarrow> int \<Rightarrow> (nat \<Rightarrow> bool) \<Rightarrow> nat option \<Rightarrow> bool" where
  "find_spec s i f A r \<longleftrightarrow>
     (case r of None \<Rightarrow> \<forall>k xs u. A k \<longrightarrow> K s k \<noteq> Some (xs, i, f, u) | Some k \<Rightarrow> A k \<and> (\<exists>xs u. K s k = Some (xs, i, f, u)))"

lemma find_spec_mono:
  "find_spec s i f A r \<Longrightarrow> (\<And>k. A k \<Longrightarrow> B k) \<Longrightarrow> (\<And>k xs u. B k \<Longrightarrow> K s k = Some (xs, i, f, u) \<Longrightarrow> A k) \<Longrightarrow> find_spec s i f B r"
  by (cases r) (simp add: find_spec_def, metis, simp add: find_spec_def)

lemma find_in_bucket_fine:
  assumes "\<forall>k \<in> set ks. K s k \<noteq> None"
  shows "fine (find_spec s i f (\<lambda>k. k \<in> set ks)) (find_in_bucket i f ks s)"
  using assms
proof (induction ks)
  case (Cons k ks)
  have "K s k \<noteq> None"
    using Cons.prems by simp
  then show ?case
    unfolding find_in_bucket.simps
  proof (rule fine_bind [OF get_dk_fine])
    fix dk assume dk: "kq_dk s k = Some dk"
    have "fine (find_spec s i f (\<lambda>k. k \<in> set ks)) (find_in_bucket i f ks s)"
      using Cons by simp
    then have "fine (find_spec s i f (\<lambda>k'. k' \<in> set (k # ks))) (find_in_bucket i f ks s)"
      if "\<not> (ke_ident (dk_kevent dk) = i \<and> ke_filter (dk_kevent dk) = f)"
      by (rule fine_mono) (use that dk in \<open>auto simp: K_def dk_shape_def elim!: find_spec_mono\<close>)
    then show "fine (find_spec s i f (\<lambda>k'. k' \<in> set (k # ks)))
       (if ke_ident (dk_kevent dk) = i \<and> ke_filter (dk_kevent dk) = f then Ok (Some k) else find_in_bucket i f ks s)"
      using dk by (auto simp: find_spec_def K_def dk_shape_def)
  qed
qed (simp add: find_spec_def)

lemma kevent_find_fine:
  assumes "table_shape (K s) (kq_table s) True"
  shows "fine (find_spec s i f (intab (kq_table s))) (u_dispatch_kevent_find i f s)"
proof -
  let ?h = "u_dispatch_kevent_hash i f"
  have len: "?h < length (kq_table s)"
    using assms hash_bound [of i f] by (simp add: table_shape_def)
  have bucket: "\<forall>k \<in> set (kq_table s ! ?h). K s k \<noteq> None"
    using assms len by (fastforce simp: table_shape_def)
  have other: "k \<in> set (kq_table s ! ?h)" if "intab (kq_table s) k" "K s k = Some (xs, i, f, u)" for k xs u
    using that assms by (fastforce simp: table_shape_def intab_def)
  show ?thesis
    unfolding u_dispatch_kevent_find_def
    by (rule fine_mono [OF find_in_bucket_fine [OF bucket]])
      (erule find_spec_mono; use len other in \<open>auto simp: intab_def\<close>)
qed


text \<open>The changes of shape that the operations make.\<close>

definition shape_ok :: "ds_shapes \<Rightarrow> dk_shapes \<Rightarrow> nat list list \<Rightarrow> bool \<Rightarrow> bool" where
  "shape_ok DD KK tab ready \<longleftrightarrow> table_shape KK tab ready \<and> kevents_shape DD KK tab \<and> sources_shape DD KK tab"

lemma kq_ok_shape: "kq_ok s \<longleftrightarrow> shape_ok (D s) (K s) (kq_table s) (kq_ready s)"
  by (simp add: kq_ok_def shape_ok_def)

lemma shape_okD:
  assumes "shape_ok DD KK tab ready"
  shows "intab tab k \<Longrightarrow> \<exists>xs i f u. KK k = Some (xs, i, f, u)"
    and "KK k = Some (xs, i, f, u) \<Longrightarrow> u = Some k \<and> distinct xs \<and> (\<forall>d \<in> set xs. DD d = Some (Some k, True))"
    and "KK k = Some (xs, i, f, u) \<Longrightarrow> 4 \<le> k \<Longrightarrow> (intab tab k \<longleftrightarrow> xs \<noteq> [])"
    and "KK k = Some (xs, i, f, u) \<Longrightarrow> custom_filter f \<Longrightarrow> 4 \<le> k \<Longrightarrow> \<not> intab tab k \<and> i = 0"
    and "DD d = Some (Some k, True) \<Longrightarrow> intab tab k \<and> ready \<and> (\<exists>xs i f u. KK k = Some (xs, i, f, u) \<and> d \<in> set xs)"
    and "DD d = Some (x, False) \<Longrightarrow>
        (\<exists>k i f u. x = Some k \<and> KK k = Some ([], i, f, u) \<and> \<not> intab tab k \<and> 4 \<le> k \<and> (\<forall>d' b. DD d' = Some (Some k, b) \<longrightarrow> d' = d))"
    and "k < 4 \<Longrightarrow> \<exists>xs. KK k = Some (xs, ke_ident (static_kevent k), ke_filter (static_kevent k), Some k)"
    and "ready \<Longrightarrow> k < 4 \<Longrightarrow> intab tab k" "ready \<Longrightarrow> length tab = 256"
    and "intab tab k \<Longrightarrow> intab tab k' \<Longrightarrow> KK k = Some (xs, i, f, u) \<Longrightarrow> KK k' = Some (xs', i, f, u') \<Longrightarrow> k = k'"
proof -
  have t: "table_shape KK tab ready" and ke: "kevents_shape DD KK tab" and so: "sources_shape DD KK tab"
    using assms by (simp_all add: shape_ok_def)
  show "\<exists>xs i f u. KK k = Some (xs, i, f, u)" if "intab tab k"
    using t that unfolding table_shape_def intab_def by blast
  show "u = Some k \<and> distinct xs \<and> (\<forall>d \<in> set xs. DD d = Some (Some k, True))" if "KK k = Some (xs, i, f, u)"
    using ke that unfolding kevents_shape_def by blast
  show "intab tab k \<longleftrightarrow> xs \<noteq> []" if "KK k = Some (xs, i, f, u)" "4 \<le> k"
    using ke that unfolding kevents_shape_def by blast
  show "\<not> intab tab k \<and> i = 0" if "KK k = Some (xs, i, f, u)" "custom_filter f" "4 \<le> k"
    using ke that unfolding kevents_shape_def by blast
  show "intab tab k \<and> ready \<and> (\<exists>xs i f u. KK k = Some (xs, i, f, u) \<and> d \<in> set xs)" if "DD d = Some (Some k, True)"
    using so t that unfolding sources_shape_def table_shape_def intab_def by (auto split: if_splits)
  show "\<exists>k i f u. x = Some k \<and> KK k = Some ([], i, f, u) \<and> \<not> intab tab k \<and> 4 \<le> k \<and> (\<forall>d' b. DD d' = Some (Some k, b) \<longrightarrow> d' = d)"
    if "DD d = Some (x, False)"
    using so that unfolding sources_shape_def by blast
  show "\<exists>xs. KK k = Some (xs, ke_ident (static_kevent k), ke_filter (static_kevent k), Some k)" if "k < 4"
    using ke that unfolding kevents_shape_def by blast
  show "intab tab k" if ready "k < 4"
    using t that by (simp add: table_shape_def)
  show "length tab = 256" if ready
    using t that by (simp add: table_shape_def)
  show "k = k'" if "intab tab k" "intab tab k'" "KK k = Some (xs, i, f, u)" "KK k' = Some (xs', i, f, u')"
    using t that unfolding table_shape_def by blast
qed

text \<open>What a source that is not installed keeps of its own kevent.\<close>

lemma own_kept:
  assumes ok: "shape_ok DD KK tab ready" and e: "DD e = Some (x, False)"
    and kev: "\<And>m i f u. x = Some m \<Longrightarrow> KK m = Some ([], i, f, u) \<Longrightarrow> \<not> intab tab m \<Longrightarrow> KK' m = Some ([], i, f, u) \<and> \<not> intab tab' m"
    and src: "\<And>d' m b. x = Some m \<Longrightarrow> \<not> intab tab' m \<Longrightarrow> DD' d' = Some (Some m, b) \<Longrightarrow> DD d' = Some (Some m, b)"
  shows "\<exists>m i f u. x = Some m \<and> KK' m = Some ([], i, f, u) \<and> \<not> intab tab' m \<and> 4 \<le> m \<and> (\<forall>d' b. DD' d' = Some (Some m, b) \<longrightarrow> d' = e)"
proof -
  obtain m i f u where m: "x = Some m" "KK m = Some ([], i, f, u)" "\<not> intab tab m" "4 \<le> m" "\<forall>d' b. DD d' = Some (Some m, b) \<longrightarrow> d' = e"
    using shape_okD(6) [OF ok e] by blast
  then show ?thesis
    using kev [OF m(1-3)] src [OF m(1)] by blast
qed

lemma static_custom: "k < 4 \<Longrightarrow> custom_filter (ke_filter (static_kevent k))"
  by (simp add: static_kevent_def custom_filter_def)

lemma custom_static:
  assumes ok: "shape_ok DD KK tab ready" and k: "intab tab k" "KK k = Some (xs, i, f, u)"
  shows "custom_filter f \<longleftrightarrow> k < 4"
proof
  assume "k < 4"
  then show "custom_filter f"
    using shape_okD(7) [OF ok, of k] k(2) static_custom [of k] by auto
next
  assume "custom_filter f"
  then show "k < 4"
    using shape_okD(4) [OF ok k(2)] k(1) by (cases "k < 4") auto
qed

text \<open>Changing the list of sources of a kevent changes nothing in the table.\<close>

lemma table_shape_sources:
  assumes "table_shape KK tab ready" "KK k = Some (xs, i, f, u)"
  shows "table_shape (KK(k \<mapsto> (ys, i, f, u))) tab ready"
proof -
  have "\<exists>xs i f u. (KK(k \<mapsto> (ys, i', f', u'))) j = Some (xs, i, f, u) \<and> u_dispatch_kevent_hash i f = h"
    if "\<exists>xs i f u. KK j = Some (xs, i, f, u) \<and> u_dispatch_kevent_hash i f = h" "KK k = Some (xs, i', f', u')" for j h xs i' f' u'
    using that by (cases "j = k") auto
  then show ?thesis
    using assms unfolding table_shape_def by (auto split: if_splits)
qed

lemma table_shape_free:
  assumes "table_shape KK tab ready" "\<not> intab tab k"
  shows "table_shape (KK(k := None)) tab ready"
  using assms unfolding table_shape_def intab_def by (auto split: if_splits)

text \<open>A source leaves the kevent of its own.\<close>

lemma drop_own_shape:
  assumes ok: "shape_ok DD KK tab ready" and d: "DD d = Some (Some own, False)"
  shows "shape_ok (DD(d \<mapsto> (None, True))) (KK(own := None)) tab ready"
proof -
  obtain j g v where own: "KK own = Some ([], j, g, v)" "\<not> intab tab own" "4 \<le> own" "\<And>d' b. DD d' = Some (Some own, b) \<Longrightarrow> d' = d"
    using shape_okD(6) [OF ok d] by blast
  have "table_shape (KK(own := None)) tab ready"
    using ok own(2) by (simp add: shape_ok_def table_shape_free)
  moreover have "kevents_shape (DD(d \<mapsto> (None, True))) (KK(own := None)) tab"
    unfolding kevents_shape_def
  proof (intro conjI allI impI)
    fix m ys i' f' u' assume "(KK(own := None)) m = Some (ys, i', f', u')"
    then have m: "KK m = Some (ys, i', f', u')"
      by (auto split: if_splits)
    show "u' = Some m" "distinct ys" "\<forall>x \<in> set ys. (DD(d \<mapsto> (None, True))) x = Some (Some m, True)"
      using shape_okD(2) [OF ok m] d by auto
    show "intab tab m \<longleftrightarrow> ys \<noteq> []" if "4 \<le> m"
      using shape_okD(3) [OF ok m] that .
    show "\<not> intab tab m" "i' = 0" if "custom_filter f'" "4 \<le> m"
      using shape_okD(4) [OF ok m] that by auto
  qed (use shape_okD(7) [OF ok] own(3) in auto)
  moreover have "sources_shape (DD(d \<mapsto> (None, True))) (KK(own := None)) tab"
    unfolding sources_shape_def
  proof (intro conjI allI impI)
    fix e m assume "(DD(d \<mapsto> (None, True))) e = Some (Some m, True)"
    then have "DD e = Some (Some m, True)" "m \<noteq> own"
      using own(4) by (auto split: if_splits)
    then show "intab tab m" "\<exists>xs i f u. (KK(own := None)) m = Some (xs, i, f, u) \<and> e \<in> set xs"
      using shape_okD(5) [OF ok, of e m] by auto
  next
    fix e x assume e: "(DD(d \<mapsto> (None, True))) e = Some (x, False)"
    then have "DD e = Some (x, False)" "e \<noteq> d"
      by (auto split: if_splits)
    from shape_okD(6) [OF ok this(1)] \<open>e \<noteq> d\<close> d have "x \<noteq> Some own"
      by blast
    then show "\<exists>m i' f' u'. x = Some m \<and> (KK(own := None)) m = Some ([], i', f', u') \<and>
        \<not> intab tab m \<and> 4 \<le> m \<and> (\<forall>d' b. (DD(d \<mapsto> (None, True))) d' = Some (Some m, b) \<longrightarrow> d' = e)"
      by (intro own_kept [OF ok \<open>DD e = Some (x, False)\<close>]) (auto split: if_splits)
  qed
  ultimately show ?thesis
    by (simp add: shape_ok_def)
qed

text \<open>A source without a kevent joins one that is in the table.\<close>

lemma attach_shape:
  assumes ok: "shape_ok DD KK tab ready" and d: "DD d = Some (None, True)"
    and k: "intab tab k" "KK k = Some (xs, i, f, u)" and ys: "distinct ys" "set ys = insert d (set xs)"
  shows "shape_ok (DD(d \<mapsto> (Some k, True))) (KK(k \<mapsto> (ys, i, f, u))) tab ready"
proof -
  have "table_shape (KK(k \<mapsto> (ys, i, f, u))) tab ready"
    using ok k(2) table_shape_sources by (auto simp: shape_ok_def)
  moreover have "kevents_shape (DD(d \<mapsto> (Some k, True))) (KK(k \<mapsto> (ys, i, f, u))) tab"
    unfolding kevents_shape_def
  proof (intro conjI allI impI)
    fix m zs i' f' u' assume m: "(KK(k \<mapsto> (ys, i, f, u))) m = Some (zs, i', f', u')"
    show "u' = Some m" "distinct zs"
      using m shape_okD(2) [OF ok, of m] shape_okD(2) [OF ok k(2)] ys(1) by (auto split: if_splits)
    show "\<forall>x \<in> set zs. (DD(d \<mapsto> (Some k, True))) x = Some (Some m, True)"
      using m shape_okD(2) [OF ok, of m] shape_okD(2) [OF ok k(2)] ys(2) d by (cases "m = k") auto
    show "intab tab m \<longleftrightarrow> zs \<noteq> []" if "4 \<le> m"
      using m that shape_okD(3) [OF ok, of m] k(1) ys(2) by (auto split: if_splits)
    show "\<not> intab tab m" "i' = 0" if "custom_filter f'" "4 \<le> m"
      using m that shape_okD(4) [OF ok, of m] shape_okD(4) [OF ok k(2)] by (auto split: if_splits)
  qed (use shape_okD(7) [OF ok] k(2) in fastforce)
  moreover have "sources_shape (DD(d \<mapsto> (Some k, True))) (KK(k \<mapsto> (ys, i, f, u))) tab"
    unfolding sources_shape_def
  proof (intro conjI allI impI)
    fix e m assume e: "(DD(d \<mapsto> (Some k, True))) e = Some (Some m, True)"
    then show "intab tab m"
      using k(1) shape_okD(5) [OF ok, of e m] by (auto split: if_splits)
    show "\<exists>zs i' f' u'. (KK(k \<mapsto> (ys, i, f, u))) m = Some (zs, i', f', u') \<and> e \<in> set zs"
      using e shape_okD(5) [OF ok, of e m] k(2) ys(2) by (cases "e = d"; cases "m = k") auto
  next
    fix e x assume e: "(DD(d \<mapsto> (Some k, True))) e = Some (x, False)"
    then have "DD e = Some (x, False)"
      by (auto split: if_splits)
    then show "\<exists>m i' f' u'. x = Some m \<and> (KK(k \<mapsto> (ys, i, f, u))) m = Some ([], i', f', u') \<and>
        \<not> intab tab m \<and> 4 \<le> m \<and> (\<forall>d' b. (DD(d \<mapsto> (Some k, True))) d' = Some (Some m, b) \<longrightarrow> d' = e)"
      by (rule own_kept [OF ok]) (use k(1) in \<open>auto split: if_splits\<close>)
  qed
  ultimately show ?thesis
    by (simp add: shape_ok_def)
qed

text \<open>A source leaves a kevent that keeps other sources or is static.\<close>

lemma leave_shape:
  assumes ok: "shape_ok DD KK tab ready" and d: "DD d = Some (Some k, True)" "KK k = Some (xs, i, f, u)"
    and keep: "remove1 d xs \<noteq> [] \<or> k < 4"
  shows "shape_ok (DD(d \<mapsto> (None, True))) (KK(k \<mapsto> (remove1 d xs, i, f, u))) tab ready"
proof -
  have tab: "intab tab k" and dx: "d \<in> set xs"
    using shape_okD(5) [OF ok d(1)] d(2) by auto
  have rest: "distinct (remove1 d xs)" "set (remove1 d xs) = set xs - {d}"
    using shape_okD(2) [OF ok d(2)] by auto
  have "table_shape (KK(k \<mapsto> (remove1 d xs, i, f, u))) tab ready"
    using ok d(2) table_shape_sources by (auto simp: shape_ok_def)
  moreover have "kevents_shape (DD(d \<mapsto> (None, True))) (KK(k \<mapsto> (remove1 d xs, i, f, u))) tab"
    unfolding kevents_shape_def
  proof (intro conjI allI impI)
    fix m zs i' f' u' assume m: "(KK(k \<mapsto> (remove1 d xs, i, f, u))) m = Some (zs, i', f', u')"
    show "u' = Some m" "distinct zs"
      using m shape_okD(2) [OF ok, of m] shape_okD(2) [OF ok d(2)] by (auto split: if_splits)
    show "\<forall>x \<in> set zs. (DD(d \<mapsto> (None, True))) x = Some (Some m, True)"
      using m shape_okD(2) [OF ok, of m] shape_okD(2) [OF ok d(2)] rest(2) d(1) by (cases "m = k") auto
    show "intab tab m \<longleftrightarrow> zs \<noteq> []" if "4 \<le> m"
      using m that shape_okD(3) [OF ok, of m] tab keep by (auto split: if_splits)
    show "\<not> intab tab m" "i' = 0" if "custom_filter f'" "4 \<le> m"
      using m that shape_okD(4) [OF ok, of m] shape_okD(4) [OF ok d(2)] by (auto split: if_splits)
  qed (use shape_okD(7) [OF ok] d(2) in fastforce)
  moreover have "sources_shape (DD(d \<mapsto> (None, True))) (KK(k \<mapsto> (remove1 d xs, i, f, u))) tab"
    unfolding sources_shape_def
  proof (intro conjI allI impI)
    fix e m assume e: "(DD(d \<mapsto> (None, True))) e = Some (Some m, True)"
    then show "intab tab m"
      using shape_okD(5) [OF ok, of e m] by (auto split: if_splits)
    show "\<exists>zs i' f' u'. (KK(k \<mapsto> (remove1 d xs, i, f, u))) m = Some (zs, i', f', u') \<and> e \<in> set zs"
      using e shape_okD(5) [OF ok, of e m] d(2) rest(2) by (cases "e = d"; cases "m = k") auto
  next
    fix e x assume e: "(DD(d \<mapsto> (None, True))) e = Some (x, False)"
    then have "DD e = Some (x, False)"
      by (auto split: if_splits)
    then show "\<exists>m i' f' u'. x = Some m \<and> (KK(k \<mapsto> (remove1 d xs, i, f, u))) m = Some ([], i', f', u') \<and>
        \<not> intab tab m \<and> 4 \<le> m \<and> (\<forall>d' b. (DD(d \<mapsto> (None, True))) d' = Some (Some m, b) \<longrightarrow> d' = e)"
      by (rule own_kept [OF ok]) (use tab in \<open>auto split: if_splits\<close>)
  qed
  ultimately show ?thesis
    by (simp add: shape_ok_def)
qed


text \<open>A new entry of the table.\<close>

lemma intab_append:
  "h < length tab \<Longrightarrow> intab (tab[h := tab ! h @ [k]]) m \<longleftrightarrow> intab tab m \<or> m = k"
  by (auto simp: intab_def nth_list_update)

lemma table_shape_enter:
  assumes t: "table_shape KK tab True" and k: "KK k = None" and new: "\<And>m ys v. intab tab m \<Longrightarrow> KK m \<noteq> Some (ys, i, f, v)"
  shows "table_shape (KK(k \<mapsto> (xs, i, f, u))) (tab[u_dispatch_kevent_hash i f := tab ! u_dispatch_kevent_hash i f @ [k]]) True"
    (is "table_shape ?K ?tab True")
proof -
  let ?h = "u_dispatch_kevent_hash i f"
  have len: "length tab = 256" "?h < length tab"
    using t hash_bound by (simp_all add: table_shape_def)
  have old: "m \<noteq> k" if "intab tab m" for m
    using that t k unfolding table_shape_def intab_def by fastforce
  have dist: "\<forall>h<length ?tab. distinct (?tab ! h)"
    using t len old by (auto simp: table_shape_def nth_list_update intab_def)
  have hash: "\<exists>xs i f u. ?K m = Some (xs, i, f, u) \<and> u_dispatch_kevent_hash i f = h" if "h < length ?tab" "m \<in> set (?tab ! h)" for h m
  proof (cases "m = k")
    case True
    then have "h = ?h"
      using that old len by (auto simp: nth_list_update intab_def split: if_splits)
    then show ?thesis
      using True by auto
  next
    case False
    then have "m \<in> set (tab ! h)"
      using that len by (auto simp: nth_list_update split: if_splits)
    then show ?thesis
      using t that(1) False unfolding table_shape_def by auto
  qed
  have key: "m = m'" if "intab ?tab m" "intab ?tab m'" "?K m = Some (ys, j, g, v)" "?K m' = Some (ys', j, g, v')" for m m' ys ys' j g v v'
    using that len new t unfolding intab_append [OF len(2)] table_shape_def by (auto split: if_splits)
  have "length ?tab = 256 \<and> (\<forall>m<4. intab ?tab m)"
    using len(1) t by (simp add: table_shape_def intab_append [OF len(2)])
  then show ?thesis
    unfolding table_shape_def using dist hash key by simp
qed

lemma enter_shape:
  assumes ok: "shape_ok DD KK tab True" and d: "DD d = Some (None, True)"
    and k: "KK k = None" "4 \<le> k" "\<not> custom_filter f" and new: "\<And>m ys v. intab tab m \<Longrightarrow> KK m \<noteq> Some (ys, i, f, v)"
  shows "shape_ok (DD(d \<mapsto> (Some k, True))) (KK(k \<mapsto> ([d], i, f, Some k)))
     (tab[u_dispatch_kevent_hash i f := tab ! u_dispatch_kevent_hash i f @ [k]]) True" (is "shape_ok ?D ?K ?tab True")
proof -
  have h: "u_dispatch_kevent_hash i f < length tab"
    using shape_okD(9) [OF ok] hash_bound by simp
  note tab = intab_append [OF h]
  have "table_shape ?K ?tab True"
    using ok k(1) new by (intro table_shape_enter) (auto simp: shape_ok_def)
  moreover have "kevents_shape ?D ?K ?tab"
    unfolding kevents_shape_def
  proof (intro conjI allI impI)
    fix m zs i' f' u' assume m: "?K m = Some (zs, i', f', u')"
    show "u' = Some m" "distinct zs"
      using m shape_okD(2) [OF ok, of m] by (auto split: if_splits)
    show "\<forall>x \<in> set zs. ?D x = Some (Some m, True)"
      using m shape_okD(2) [OF ok, of m] d by (cases "m = k") auto
    show "intab ?tab m \<longleftrightarrow> zs \<noteq> []" if "4 \<le> m"
      using m that shape_okD(3) [OF ok, of m] by (auto simp: tab split: if_splits)
    show "\<not> intab ?tab m" "i' = 0" if "custom_filter f'" "4 \<le> m"
      using m that shape_okD(4) [OF ok, of m] k(3) by (auto simp: tab split: if_splits)
  qed (use shape_okD(7) [OF ok] k(2) in fastforce)
  moreover have "sources_shape ?D ?K ?tab"
    unfolding sources_shape_def
  proof (intro conjI allI impI)
    fix e m assume e: "?D e = Some (Some m, True)"
    then show "intab ?tab m"
      using shape_okD(5) [OF ok, of e m] by (auto simp: tab split: if_splits)
    show "\<exists>zs i' f' u'. ?K m = Some (zs, i', f', u') \<and> e \<in> set zs"
      using e shape_okD(5) [OF ok, of e m] k(1) by (cases "e = d"; cases "m = k") auto
  next
    fix e x assume e: "?D e = Some (x, False)"
    then have "DD e = Some (x, False)"
      by (auto split: if_splits)
    then show "\<exists>m i' f' u'. x = Some m \<and> ?K m = Some ([], i', f', u') \<and>
        \<not> intab ?tab m \<and> 4 \<le> m \<and> (\<forall>d' b. ?D d' = Some (Some m, b) \<longrightarrow> d' = e)"
      by (rule own_kept [OF ok]) (use k(1) in \<open>auto simp: tab split: if_splits\<close>)
  qed
  ultimately show ?thesis
    by (simp add: shape_ok_def)
qed

text \<open>The last source leaves a kevent on the heap, which goes.\<close>

lemma nth_update_if: "j < length xs \<Longrightarrow> xs[h := x] ! j = (if h = j then x else xs ! j)"
  by (auto simp: nth_list_update)

lemma intab_remove:
  assumes "table_shape KK tab ready" "KK k = Some (xs, i, f, u)"
  shows "intab (tab[u_dispatch_kevent_hash i f := remove1 k (tab ! u_dispatch_kevent_hash i f)]) m \<longleftrightarrow> intab tab m \<and> m \<noteq> k"
proof -
  have "h = u_dispatch_kevent_hash i f" if "h < length tab" "k \<in> set (tab ! h)" for h
    using assms that unfolding table_shape_def by fastforce
  moreover have "\<forall>h<length tab. distinct (tab ! h)"
    using assms(1) by (simp add: table_shape_def)
  ultimately have "m \<in> set (tab[u_dispatch_kevent_hash i f := remove1 k (tab ! u_dispatch_kevent_hash i f)] ! h) \<longleftrightarrow>
      m \<in> set (tab ! h) \<and> m \<noteq> k" if "h < length tab" for h
    using that by (auto simp: nth_update_if)
  then show ?thesis
    by (auto simp: intab_def)
qed

lemma table_shape_remove:
  assumes t: "table_shape KK tab ready" and k: "KK k = Some (xs, i, f, u)" "4 \<le> k"
  shows "table_shape (KK(k := None)) (tab[u_dispatch_kevent_hash i f := remove1 k (tab ! u_dispatch_kevent_hash i f)]) ready"
    (is "table_shape ?K ?tab ready")
proof -
  note rm = intab_remove [OF t k(1)]
  have "\<exists>xs i f u. ?K m = Some (xs, i, f, u) \<and> u_dispatch_kevent_hash i f = h" if m: "h < length ?tab" "m \<in> set (?tab ! h)" for h m
  proof -
    have "intab ?tab m"
      unfolding intab_def using m by blast
    then have "m \<noteq> k"
      by (simp add: rm)
    moreover have "m \<in> set (tab ! h)"
      using m set_remove1_subset [of k "tab ! h"] by (auto simp: nth_update_if split: if_splits)
    ultimately show ?thesis
      using t m(1) unfolding table_shape_def by auto
  qed
  moreover have "\<forall>h<length ?tab. distinct (?tab ! h)"
    using t by (auto simp: table_shape_def nth_update_if)
  moreover have "if ready then length ?tab = 256 \<and> (\<forall>m<4. intab ?tab m) else ?tab = []"
    using t k(2) by (auto simp: table_shape_def rm)
  moreover have "m = m'" if "intab ?tab m" "intab ?tab m'" "?K m = Some (ys, j, g, v)" "?K m' = Some (ys', j, g, v')" for m m' ys ys' j g v v'
    using that t unfolding rm table_shape_def by (auto split: if_splits)
  ultimately show ?thesis
    unfolding table_shape_def by blast
qed

lemma leave_last_shape:
  assumes ok: "shape_ok DD KK tab ready" and d: "DD d = Some (Some k, True)" "KK k = Some (xs, i, f, u)" "remove1 d xs = []" "4 \<le> k"
  shows "shape_ok (DD(d \<mapsto> (None, True))) (KK(k := None))
     (tab[u_dispatch_kevent_hash i f := remove1 k (tab ! u_dispatch_kevent_hash i f)]) ready" (is "shape_ok ?D ?K ?tab ready")
proof -
  have t: "table_shape KK tab ready"
    using ok by (simp add: shape_ok_def)
  note rm = intab_remove [OF t d(2)]
  have dx: "d \<in> set xs"
    using shape_okD(5) [OF ok d(1)] d(2) by auto
  then have xs: "xs = [d]"
    using d(3) by (cases xs) (auto split: if_splits)
  have only: "e = d" if "DD e = Some (Some k, b)" for e b
    using that shape_okD(5) [OF ok, of e k] shape_okD(6) [OF ok, of e "Some k"] d(2) xs by (cases b) auto
  have "kevents_shape ?D ?K ?tab"
    unfolding kevents_shape_def
  proof (intro conjI allI impI)
    fix m zs i' f' u' assume "?K m = Some (zs, i', f', u')"
    then have m: "KK m = Some (zs, i', f', u')" "m \<noteq> k"
      by (auto split: if_splits)
    show "u' = Some m" "distinct zs" "\<forall>x \<in> set zs. ?D x = Some (Some m, True)"
      using shape_okD(2) [OF ok m(1)] m(2) d(1) by auto
    show "intab ?tab m \<longleftrightarrow> zs \<noteq> []" if "4 \<le> m"
      using shape_okD(3) [OF ok m(1) that] m(2) by (simp add: rm)
    show "\<not> intab ?tab m" "i' = 0" if "custom_filter f'" "4 \<le> m"
      using shape_okD(4) [OF ok m(1) that] by (simp_all add: rm)
  qed (use shape_okD(7) [OF ok] d(4) in auto)
  moreover have "sources_shape ?D ?K ?tab"
    unfolding sources_shape_def
  proof (intro conjI allI impI)
    fix e m assume "?D e = Some (Some m, True)"
    then have e: "DD e = Some (Some m, True)" "m \<noteq> k"
      using only by (auto split: if_splits)
    then show "intab ?tab m" "\<exists>zs i' f' u'. ?K m = Some (zs, i', f', u') \<and> e \<in> set zs"
      using shape_okD(5) [OF ok e(1)] by (auto simp: rm)
  next
    fix e x assume "?D e = Some (x, False)"
    then have e: "DD e = Some (x, False)" "e \<noteq> d"
      by (auto split: if_splits)
    then have "x \<noteq> Some k"
      using only by blast
    then show "\<exists>m i' f' u'. x = Some m \<and> ?K m = Some ([], i', f', u') \<and>
        \<not> intab ?tab m \<and> 4 \<le> m \<and> (\<forall>d' b. ?D d' = Some (Some m, b) \<longrightarrow> d' = e)"
      by (intro own_kept [OF ok e(1)]) (auto simp: rm split: if_splits)
  qed
  ultimately show ?thesis
    using table_shape_remove [OF t d(2,4)] by (simp add: shape_ok_def)
qed

text \<open>A source comes and goes.\<close>

lemma gone_shape:
  assumes ok: "shape_ok DD KK tab ready" and d: "DD d = Some (None, True)"
  shows "shape_ok (DD(d := None)) KK tab ready"
proof -
  have eq: "(DD(d := None)) e = Some (Some k, b) \<longleftrightarrow> DD e = Some (Some k, b)" "(DD(d := None)) e = Some (x, False) \<longleftrightarrow> DD e = Some (x, False)"
    for e k b x
    using d by auto
  show ?thesis
    using ok unfolding shape_ok_def kevents_shape_def sources_shape_def eq .
qed

lemma created_shape:
  assumes ok: "shape_ok DD KK tab ready" and d: "DD d = None" and k: "KK k = None" "4 \<le> k" "custom_filter f \<Longrightarrow> i = 0"
  shows "shape_ok (DD(d \<mapsto> (Some k, False))) (KK(k \<mapsto> ([], i, f, Some k))) tab ready" (is "shape_ok ?D ?K tab ready")
proof -
  have nt: "\<not> intab tab k"
    using shape_okD(1) [OF ok, of k] k(1) by auto
  have nd: "DD e \<noteq> Some (Some k, b)" for e b
    using shape_okD(5) [OF ok, of e k] shape_okD(6) [OF ok, of e "Some k"] k(1) by (cases b) auto
  have "table_shape ?K tab ready"
    using ok nt unfolding shape_ok_def table_shape_def intab_def by (auto split: if_splits)
  moreover have "kevents_shape ?D ?K tab"
    unfolding kevents_shape_def
  proof (intro conjI allI impI)
    fix m zs i' f' u' assume m: "?K m = Some (zs, i', f', u')"
    show "u' = Some m" "distinct zs" "\<forall>x \<in> set zs. ?D x = Some (Some m, True)"
      using m shape_okD(2) [OF ok, of m] d by (auto split: if_splits)
    show "intab tab m \<longleftrightarrow> zs \<noteq> []" if "4 \<le> m"
      using m that shape_okD(3) [OF ok, of m] nt by (auto split: if_splits)
    show "\<not> intab tab m" "i' = 0" if "custom_filter f'" "4 \<le> m"
      using m that shape_okD(4) [OF ok, of m] nt k(3) by (auto split: if_splits)
  qed (use shape_okD(7) [OF ok] k(2) in fastforce)
  moreover have "sources_shape ?D ?K tab"
    unfolding sources_shape_def
  proof (intro conjI allI impI)
    fix e m assume "?D e = Some (Some m, True)"
    then have e: "DD e = Some (Some m, True)" "m \<noteq> k"
      using nd by (auto split: if_splits)
    then show "intab tab m" "\<exists>zs i' f' u'. ?K m = Some (zs, i', f', u') \<and> e \<in> set zs"
      using shape_okD(5) [OF ok e(1)] by auto
  next
    fix e x assume e: "?D e = Some (x, False)"
    show "\<exists>m i' f' u'. x = Some m \<and> ?K m = Some ([], i', f', u') \<and> \<not> intab tab m \<and> 4 \<le> m \<and>
        (\<forall>d' b. ?D d' = Some (Some m, b) \<longrightarrow> d' = e)"
    proof (cases "e = d")
      case True
      then show ?thesis
        using e nt nd k(2) by auto
    next
      case False
      then have e': "DD e = Some (x, False)"
        using e by simp
      then have "x \<noteq> Some k"
        using nd by blast
      with e' show ?thesis
        by (intro own_kept [OF ok e']) (use k(1) in \<open>auto split: if_splits\<close>)
    qed
  qed
  ultimately show ?thesis
    by (simp add: shape_ok_def)
qed

text \<open>The first table holds the static kevents.\<close>

definition first_table :: "nat list list" where
  "first_table = (replicate 256 [])[0 := [0, 2, 3], 1 := [1]]"

lemma init_table:
  "u_dispatch_source_init_tail_queue_array s = s\<lparr>kq_table := first_table, kq_ready := True\<rparr>"
proof -
  have "u_dispatch_kevent_hash 0 0 = 0" "u_dispatch_kevent_hash 1 0 = 1"
    by (simp_all add: u_dispatch_kevent_hash_def DSL_HASH_SIZE_def)
  moreover have "(xs :: nat list list)[1 := a, 0 := b] = xs[0 := b, 1 := a]" for xs a b
    by (rule list_update_swap) simp
  ultimately show ?thesis
    by (simp add: u_dispatch_source_init_tail_queue_array_def Let_def bucket_append_def first_table_def
        add: DISPATCH_TIMER_INDEX_WALL_def DISPATCH_TIMER_INDEX_MACH_def u_dispatch_kevent_timer_def u_dispatch_kevent_data_or_def
          u_dispatch_kevent_data_add_def)
qed

lemma first_table_nth:
  "h < 256 \<Longrightarrow> first_table ! h = (if h = 0 then [0, 2, 3] else if h = 1 then [1] else [])" "length first_table = 256"
  by (simp_all add: first_table_def nth_list_update)

lemma intab_first: "intab first_table k \<longleftrightarrow> k < 4"
proof -
  have "intab first_table k \<longleftrightarrow> k \<in> {0, 1, 2, 3}"
    unfolding intab_def first_table_nth(2)
    by (auto simp: first_table_nth(1) split: if_splits intro: exI [of _ 0] exI [of _ 1])
  then show ?thesis
    by auto
qed

lemma static_key: "k < 4 \<Longrightarrow> u_dispatch_kevent_hash (ke_ident (static_kevent k)) (ke_filter (static_kevent k)) = (if k = 1 then 1 else 0)"
  "k < 4 \<Longrightarrow> k' < 4 \<Longrightarrow> ke_ident (static_kevent k) = ke_ident (static_kevent k') \<Longrightarrow>
     ke_filter (static_kevent k) = ke_filter (static_kevent k') \<Longrightarrow> k = k'"
proof -
  have all: "k = 0 \<or> k = 1 \<or> k = 2 \<or> k = 3" if "k < 4" for k :: nat
    using that by auto
  show "k < 4 \<Longrightarrow> u_dispatch_kevent_hash (ke_ident (static_kevent k)) (ke_filter (static_kevent k)) = (if k = 1 then 1 else 0)"
    using all [of k] by (auto simp: static_kevent_def u_dispatch_kevent_hash_def DSL_HASH_SIZE_def u_dispatch_kevent_data_or_def
        u_dispatch_kevent_data_add_def)
  show "k < 4 \<Longrightarrow> k' < 4 \<Longrightarrow> ke_ident (static_kevent k) = ke_ident (static_kevent k') \<Longrightarrow>
     ke_filter (static_kevent k) = ke_filter (static_kevent k') \<Longrightarrow> k = k'"
    using all [of k] all [of k'] by (auto simp: static_kevent_def u_dispatch_kevent_data_or_def u_dispatch_kevent_data_add_def
        DISPATCH_EVFILT_TIMER_def DISPATCH_EVFILT_CUSTOM_ADD_def DISPATCH_EVFILT_CUSTOM_OR_def)
qed

lemma first_table_shape:
  assumes ok: "shape_ok DD KK tab False"
  shows "shape_ok DD KK first_table True"
proof -
  have tab: "tab = []"
    using ok by (simp add: shape_ok_def table_shape_def)
  then have nt: "\<not> intab tab k" for k
    by (simp add: intab_def)
  have static: "\<exists>xs. KK k = Some (xs, ke_ident (static_kevent k), ke_filter (static_kevent k), Some k)" if "k < 4" for k
    using shape_okD(7) [OF ok that] .
  have "table_shape KK first_table True"
    unfolding table_shape_def first_table_nth(2)
  proof (intro conjI allI impI ballI, simp_all add: intab_first first_table_nth)
    fix h k :: nat assume "h < 256" "k \<in> set (if h = 0 then [0, 2, 3] else if h = 1 then [1] else [])"
    then have "k < 4" "h = (if k = 1 then 1 else 0)"
      by (auto split: if_splits)
    then show "\<exists>xs i f. (\<exists>u. KK k = Some (xs, i, f, u)) \<and> u_dispatch_kevent_hash i f = h"
      using static [of k] static_key(1) [of k] by auto
  next
    fix k k' xs i f u xs' u' assume "k < 4" "k' < 4" "KK k = Some (xs, i, f, u)" "KK k' = Some (xs', i, f, u')"
    then show "k = k'"
      using static [of k] static [of k'] static_key(2) [of k k'] by auto
  qed
  moreover have "kevents_shape DD KK first_table"
    using shape_okD(2,3,4) [OF ok] static unfolding kevents_shape_def intab_first by (simp add: nt)
  moreover have "sources_shape DD KK first_table"
    unfolding sources_shape_def intab_first
  proof (intro conjI allI impI)
    fix d k assume "DD d = Some (Some k, True)"
    then show "k < 4" "\<exists>xs i f u. KK k = Some (xs, i, f, u) \<and> d \<in> set xs"
      using shape_okD(5) [OF ok, of d k] nt by blast+
  next
    fix d x assume "DD d = Some (x, False)"
    then show "\<exists>k i f u. x = Some k \<and> KK k = Some ([], i, f, u) \<and> \<not> k < 4 \<and> 4 \<le> k \<and> (\<forall>d' b. DD d' = Some (Some k, b) \<longrightarrow> d' = d)"
      using shape_okD(6) [OF ok, of d x] unfolding not_less by blast
  qed
  ultimately show ?thesis
    by (simp add: shape_ok_def)
qed

end
