(* ===== verification/Dispatch_Source_Install.thy ===== *)
theory Dispatch_Source_Install
  imports Dispatch_Source_Proofs
begin

text \<open>
  Installing, uninstalling and moving event sources: what each operation on the registrations does to the table of kevents, to the
  lists of timers and to the reference counts, and that it meets no freed source or kevent.
\<close>

section \<open>Installing a source\<close>

definition view where
  "view s = (D s, K s, R s, Tm s, kq_table s, kq_ready s)"

lemma same_shape_view: "same_shape s t \<longleftrightarrow> view t = view s"
  by (auto simp: same_shape_def view_def)

lemma shape_dk:
  "D (s\<lparr>kq_dk := g\<rparr>) = D s" "R (s\<lparr>kq_dk := g\<rparr>) = R s" "Tm (s\<lparr>kq_dk := g\<rparr>) = Tm s"
  "K (s\<lparr>kq_dk := g\<rparr>) = (\<lambda>k. map_option dk_shape (g k))"
  by (auto simp: D_def K_def R_def Tm_def fun_eq_iff)

lemma attach_fine:
  assumes k: "K s k = Some (xs, i, f, Some k)" and d: "D s d = Some (Some k, True)" and live: "\<forall>e \<in> set xs. D s e \<noteq> None"
  shows "fine (\<lambda>t. view t = (D s, (K s)(k \<mapsto> (xs @ [d], i, f, Some k)), R s, Tm s, kq_table s, kq_ready s))
    (kevent_merge_attach sys d k do_resume s)" (is "fine (\<lambda>t. view t = ?v) _")
proof -
  have nn: "K s k \<noteq> None"
    using k by simp
  show ?thesis
    unfolding kevent_merge_attach_def Let_def
  proof (rule fine_bind [OF get_dk_fine [OF nn]])
    fix dk assume dk: "kq_dk s k = Some dk"
    let ?dk1 = "dk\<lparr>dk_sources := dk_sources dk @ [d]\<rparr>"
    let ?dk2 = "?dk1\<lparr>dk_kevent := (dk_kevent ?dk1)\<lparr>ke_flags := ke_flags (dk_kevent ?dk1) OR EV_ADD\<rparr>\<rparr>"
    have sh: "dk_shape ?dk1 = (xs @ [d], i, f, Some k)" "dk_shape ?dk2 = (xs @ [d], i, f, Some k)"
      using dk k by (auto simp: K_def dk_shape_def)
    then have v: "view (put_dk k ?dk1 s) = ?v" "view (put_dk k ?dk2 s) = ?v"
      by (simp_all add: view_def)
    obtain ds where ds: "kq_ds s d = Some ds" "ds_dkev ds = Some k"
      using d by (auto simp: D_def ds_shape_def)
    have "K (put_dk k ?dk2 s) k = Some (xs @ [d], i, f, Some k)" "\<forall>e \<in> set (xs @ [d]). D (put_dk k ?dk2 s) e \<noteq> None"
      using sh(2) live d by (simp_all del: not_None_eq)
    then have "fine (same_shape (put_dk k ?dk2 s)) (u_dispatch_source_kevent_resume sys d (put_dk k ?dk2 s))"
      unfolding u_dispatch_source_kevent_resume_def get_ds_def get_dkev_def
      using kevent_resume_fine ds by (simp del: shape_simps(5))
    then have "fine (\<lambda>t. view t = ?v) (res_bind (u_dispatch_source_kevent_resume sys d (put_dk k ?dk2 s)) (\<lambda>s1.
          res_bind (get_ds d s1) (\<lambda>ds1. Ok (put_ds d (ds1\<lparr>ds_is_armed := True\<rparr>) s1))))"
    proof (rule fine_bind)
      fix t assume t: "same_shape (put_dk k ?dk2 s) t"
      then have vt: "view t = ?v"
        using v(2) by (simp add: same_shape_view)
      then have "D t d \<noteq> None"
        using d by (simp add: view_def)
      then show "fine (\<lambda>t. view t = ?v) (res_bind (get_ds d t) (\<lambda>ds1. Ok (put_ds d (ds1\<lparr>ds_is_armed := True\<rparr>) t)))"
      proof (rule fine_bind [OF get_ds_fine])
        fix ds1 assume "kq_ds t d = Some ds1"
        from same_shape_put_ds [OF this, of "ds1\<lparr>ds_is_armed := True\<rparr>"] vt
        show "fine (\<lambda>t. view t = ?v) (Ok (put_ds d (ds1\<lparr>ds_is_armed := True\<rparr>) t))"
          by (simp add: same_shape_view ds_shape_def refs_def)
      qed
    qed
    with v(1) show "fine (\<lambda>t. view t = ?v) (if do_resume then
         res_bind (u_dispatch_source_kevent_resume sys d (put_dk k ?dk2 s)) (\<lambda>s1.
          res_bind (get_ds d s1) (\<lambda>ds1. Ok (put_ds d (ds1\<lparr>ds_is_armed := True\<rparr>) s1)))
       else Ok (put_dk k ?dk1 s))"
      by simp
  qed
qed

text \<open>The source has found its kevent and is to enter its list.\<close>

definition to_attach :: "ds_shapes \<Rightarrow> nat \<Rightarrow> nat \<Rightarrow> kq \<Rightarrow> kq \<Rightarrow> nat \<Rightarrow> bool" where
  "to_attach DD d own s t k \<longleftrightarrow>
     R t = R s \<and> Tm t = Tm s \<and> kq_ready t \<and> D t = DD(d \<mapsto> (Some k, True)) \<and> (\<forall>m. m \<noteq> own \<longrightarrow> K t m = K s m) \<and>
     (\<exists>xs ys u i f. K t k = Some (xs, i, f, Some k) \<and> K s own = Some (ys, i, f, u) \<and> (\<forall>e \<in> set xs. D t e \<noteq> None) \<and>
        shape_ok (D t) ((K t)(k \<mapsto> (xs @ [d], i, f, Some k))) (kq_table t) True)"

lemma custom_keys: "custom_filter f \<Longrightarrow> \<exists>m<4. ke_ident (static_kevent m) = 0 \<and> ke_filter (static_kevent m) = f"
  by (auto simp: custom_filter_def static_kevent_def u_dispatch_kevent_data_or_def u_dispatch_kevent_data_add_def
      intro: exI [of _ 0] exI [of _ 2] exI [of _ 3])

lemma merge_insert:
  assumes ok: "shape_ok DD (K s) (kq_table s) True" and d: "DD d = Some (Some own, False)"
    and s: "kq_ready s" "D s = DD(d \<mapsto> (Some own, True))" and own: "K s own = Some ([], i, f, u)" "4 \<le> own"
    and new: "\<And>m ys v. intab (kq_table s) m \<Longrightarrow> K s m \<noteq> Some (ys, i, f, v)"
    and odk: "ke_ident (dk_kevent odk) = i" "ke_filter (dk_kevent odk) = f"
  shows "to_attach DD d own s (u_dispatch_kevent_insert own odk s) own"
proof -
  have u: "u = Some own"
    using shape_okD(2) [OF ok own(1)] by simp
  have "\<not> custom_filter f"
  proof
    assume c: "custom_filter f"
    then have "i = 0"
      using shape_okD(4) [OF ok own(1) c own(2)] by simp
    then obtain m where m: "m < 4" "ke_ident (static_kevent m) = i" "ke_filter (static_kevent m) = f"
      using custom_keys [OF c] by blast
    then have "intab (kq_table s) m"
      by (intro shape_okD(8) [OF ok]) simp
    then show False
      using shape_okD(7) [OF ok m(1)] new m(2,3) by auto
  qed
  then have "shape_ok (DD(d \<mapsto> (None, True), d \<mapsto> (Some own, True))) ((K s)(own := None, own \<mapsto> ([d], i, f, Some own)))
       ((kq_table s)[u_dispatch_kevent_hash i f := kq_table s ! u_dispatch_kevent_hash i f @ [own]]) True"
    using new own(2) by (intro enter_shape [OF drop_own_shape [OF ok d]]) (auto split: if_splits)
  then show ?thesis
    using own(1) s unfolding u to_attach_def by (auto simp: u_dispatch_kevent_insert_def bucket_append_def odk intro!: exI [of _ "[]"])
qed

lemma merge_found:
  assumes ok: "shape_ok DD (K s) (kq_table s) True" and d: "DD d = Some (Some own, False)"
    and s: "kq_ready s" "D s = DD(d \<mapsto> (Some own, True))" "kq_ds s d = Some ds" and own: "K s own = Some (ys, i, f, u)" "\<not> intab (kq_table s) own"
    and k: "intab (kq_table s) k" "K s k = Some (xs, i, f, v)"
  shows "fine (\<lambda>(t, k, r). to_attach DD d own s t k) (kevent_merge_found d ds own okev k s)"
proof -
  have v: "v = Some k" "distinct xs" "\<forall>e \<in> set xs. DD e = Some (Some k, True)"
    using shape_okD(2) [OF ok k(2)] by auto
  have ne: "k \<noteq> own" "d \<notin> set xs"
    using k(1) own(2) v(3) d by auto
  have sh: "shape_ok (DD(d \<mapsto> (None, True), d \<mapsto> (Some k, True))) ((K s)(own := None, k \<mapsto> (xs @ [d], i, f, v))) (kq_table s) True"
    using k ne v(2) by (intro attach_shape [OF drop_own_shape [OF ok d]]) auto
  have nk: "K s k \<noteq> None"
    using k(2) by simp
  have ds: "ds_is_installed ds" "R s d = Some (refs ds)" "Tm s d = Some (ds_ident_hack ds, ds_timer ds)"
    using s(2,3) by (auto simp: D_def R_def Tm_def ds_shape_def dest!: fun_cong [of _ _ d])
  show ?thesis
    unfolding kevent_merge_found_def Let_def
  proof (rule fine_bind [OF get_dk_fine [OF nk]])
    fix dk assume "kq_dk s k = Some dk"
    then have dk: "dk_sources dk = xs" "ke_ident (dk_kevent dk) = i" "ke_filter (dk_kevent dk) = f" "ke_udata (dk_kevent dk) = Some k"
      using k(2) v(1) by (auto simp: K_def dk_shape_def)
    let ?s1 = "put_dk k (dk\<lparr>dk_kevent := (dk_kevent dk)\<lparr>ke_fflags := ke_fflags (dk_kevent dk) OR ke_fflags okev\<rparr>\<rparr>) s"
    let ?t = "put_ds d (ds\<lparr>ds_dkev := Some k\<rparr>) (?s1\<lparr>kq_dk := (kq_dk ?s1)(own := None)\<rparr>)"
    have t: "D ?t = DD(d \<mapsto> (Some k, True))" "K ?t = (K s)(own := None)" "R ?t = R s" "Tm ?t = Tm s" "kq_ready ?t" "kq_table ?t = kq_table s"
      using s(1,2) ds dk k(2) v(1)
      by (auto simp: shape_dk ds_shape_def dk_shape_def refs_def fun_eq_iff K_def [of s])
    have "to_attach DD d own s ?t k"
      unfolding to_attach_def t using sh own(1) k(2) v ne t(5) by auto
    then show "fine (\<lambda>(t, k, r). to_attach DD d own s t k) (Ok (?t, k, NOT (ke_fflags (dk_kevent dk)) AND ke_fflags okev \<noteq> 0))"
      by simp
  qed
qed

lemma merge_find_fine:
  assumes ok: "shape_ok DD (K s) (kq_table s) True" and d: "DD d = Some (Some own, False)"
    and s: "kq_ready s" "D s = DD(d \<mapsto> (Some own, True))" "kq_ds s d = Some ds"
  shows "fine (\<lambda>(t, k, r). to_attach DD d own s t k) (kevent_merge_find d ds s)"
proof -
  have ds: "ds_dkev ds = Some own"
    using s(2,3) by (auto simp: D_def ds_shape_def dest!: fun_cong [of _ _ d])
  obtain i f u where own: "K s own = Some ([], i, f, u)" "\<not> intab (kq_table s) own" "4 \<le> own"
    using shape_okD(6) [OF ok d] by blast
  then have nn: "K s own \<noteq> None"
    by simp
  have tab: "table_shape (K s) (kq_table s) True"
    using ok by (simp add: shape_ok_def)
  have "fine (\<lambda>(t, k, r). to_attach DD d own s t k) (case found of
         Some k \<Rightarrow> kevent_merge_found d ds own (dk_kevent odk) k s
       | None \<Rightarrow> Ok (u_dispatch_kevent_insert own odk s, own, True))"
    if found: "find_spec s i f (intab (kq_table s)) found" and odk: "ke_ident (dk_kevent odk) = i" "ke_filter (dk_kevent odk) = f" for found odk
  proof (cases found)
    case None
    then show ?thesis
      using found by (auto simp: find_spec_def intro: merge_insert [OF ok d s(1,2) own(1,3) _ odk])
  next
    case (Some k)
    then obtain xs v where k: "intab (kq_table s) k" "K s k = Some (xs, i, f, v)"
      using found by (auto simp: find_spec_def)
    from merge_found [OF ok d s own(1,2) k] show ?thesis
      by (simp add: Some)
  qed
  moreover have "ke_ident (dk_kevent odk) = i" "ke_filter (dk_kevent odk) = f" if "kq_dk s own = Some odk" for odk
    using own(1) that by (auto simp: K_def dk_shape_def)
  ultimately show ?thesis
    unfolding kevent_merge_find_def get_dkev_def ds option.case res_bind.simps
    by (intro fine_bind [OF get_dk_fine [OF nn]] fine_bind [OF kevent_find_fine [OF tab]]) simp
qed

text \<open>The filter of the kevent that a source has, and what the operations on other sources keep.\<close>

definition filter_of :: "kq \<Rightarrow> nat \<Rightarrow> int option" where
  "filter_of s d = (case D s d of Some (Some k, b) \<Rightarrow> map_option (\<lambda>(xs, i, f, u). f) (K s k) | _ \<Rightarrow> None)"

definition keeps :: "kq \<Rightarrow> kq \<Rightarrow> bool" where
  "keeps s t \<longleftrightarrow> kq_ok t \<and> R t = R s \<and> Tm t = Tm s \<and> filter_of t = filter_of s"

lemma filter_of_cong: "D t = D s \<Longrightarrow> K t = K s \<Longrightarrow> filter_of t = filter_of s"
  by (auto simp: filter_of_def fun_eq_iff split: option.split prod.split)

lemma keeps_same_shape: "kq_ok s \<Longrightarrow> same_shape s t \<Longrightarrow> keeps s t"
  using kq_ok_same_shape [of s t] filter_of_cong [of t s] by (simp add: keeps_def same_shape_def)

lemma keeps_trans: "keeps s t \<Longrightarrow> keeps t u \<Longrightarrow> keeps s u"
  by (simp add: keeps_def)

text \<open>The new place of a source in the table of kevents.\<close>

definition placed :: "kq \<Rightarrow> nat \<Rightarrow> kq \<Rightarrow> bool" where
  "placed s d t \<longleftrightarrow>
     (\<exists>own k xs ys i f u v. D s d = Some (Some own, False) \<and> K s own = Some (ys, i, f, u) \<and> 4 \<le> own \<and>
        D t = (D s)(d \<mapsto> (Some k, True)) \<and> K t k = Some (xs @ [d], i, f, v) \<and> (\<forall>m. m \<noteq> own \<longrightarrow> m \<noteq> k \<longrightarrow> K t m = K s m) \<and>
        (k \<noteq> own \<longrightarrow> K s k = Some (xs, i, f, v)))"

lemma to_attach_placed:
  assumes ok: "shape_ok DD (K s) tab ready" and at: "to_attach DD d own s t k" and d: "DD d = Some (Some own, False)"
    and K: "K t k = Some (xs, i, f, Some k)" and u: "view u = (D t, (K t)(k \<mapsto> (xs @ [d], i, f, Some k)), R t, Tm t, kq_table t, kq_ready t)"
    and s0: "D s0 = DD" "K s0 = K s" "R s0 = R s" "Tm s0 = Tm s"
  shows "keeps s0 u \<and> placed s0 d u"
proof
  obtain ys w where own: "K s own = Some (ys, i, f, w)" "shape_ok (D t) ((K t)(k \<mapsto> (xs @ [d], i, f, Some k))) (kq_table t) True"
    "kq_ready t" "D t = DD(d \<mapsto> (Some k, True))" "R t = R s" "Tm t = Tm s" "\<forall>m. m \<noteq> own \<longrightarrow> K t m = K s m"
    using at K unfolding to_attach_def by auto
  have us: "D u = D t" "K u = (K t)(k \<mapsto> (xs @ [d], i, f, Some k))" "R u = R t" "Tm u = Tm t" "kq_table u = kq_table t" "kq_ready u = kq_ready t"
    using u by (simp_all add: view_def)
  have four: "4 \<le> own" and only: "e = d" if "DD e = Some (Some own, b)" for e b
    using shape_okD(6) [OF ok d] d that by auto
  have "filter_of u e = filter_of s0 e" for e
  proof (cases "e = d")
    case True
    then show ?thesis
      using own(1,4) us d s0 by (simp add: filter_of_def)
  next
    case False
    then have "D s0 e \<noteq> Some (Some own, b)" for b
      using only s0 by auto
    then have "K u m = K s0 m \<or> m = k" if "D s0 e = Some (Some m, b)" for m b
      using that own(7) us(2) s0 by auto
    moreover have "K s0 k = Some (xs, i, f, Some k)" if "k \<noteq> own"
      using K own(7) s0 that by simp
    ultimately show ?thesis
      using False own(4) us(1,2) s0 \<open>\<And>b. D s0 e \<noteq> Some (Some own, b)\<close>
      by (cases "k = own") (auto simp: filter_of_def fun_upd_def split: option.splits prod.splits)
  qed
  then show "keeps s0 u"
    using own(2,3,5,6) us s0 by (auto simp: keeps_def kq_ok_shape)
  have "K s0 k = Some (xs, i, f, Some k)" if "k \<noteq> own"
    using K own(7) s0 that by simp
  then show "placed s0 d u"
    unfolding placed_def using own d us s0 four [OF d] by (intro exI conjI) auto
qed

lemma kevent_merge_fine:
  assumes ok: "kq_ok s" and d: "D s d = Some (x, b)"
  shows "fine (\<lambda>t. keeps s t \<and> (if b then t = s else placed s d t)) (u_dispatch_kevent_merge sys d s)"
proof -
  have live: "D s d \<noteq> None"
    using d by simp
  have keep: "keeps s s"
    using ok by (simp add: keeps_def)
  show ?thesis
  proof (cases b)
    case True
    then show ?thesis
      using d keep unfolding u_dispatch_kevent_merge_def
      by (intro fine_bind [OF get_ds_fine [OF live]]) (auto simp: D_def ds_shape_def)
  next
    case False
    then obtain own where own: "D s d = Some (Some own, False)"
      using d ok shape_okD(6) [of "D s"] by (fastforce simp: kq_ok_shape)
    let ?tab = "if kq_ready s then kq_table s else first_table"
    have tab: "shape_ok (D s) (K s) ?tab True"
      using ok first_table_shape [of "D s" "K s" "kq_table s"] by (auto simp: kq_ok_shape)
    have "fine (\<lambda>t. keeps s t \<and> placed s d t) (res_bind (kevent_merge_find d (ds\<lparr>ds_is_installed := True\<rparr>) s2)
        (\<lambda>(s3, k, do_resume). kevent_merge_attach sys d k do_resume s3))"
      if ds: "kq_ds s d = Some ds" and s2: "s2 = (if kq_ready s then put_ds d (ds\<lparr>ds_is_installed := True\<rparr>) s
            else (put_ds d (ds\<lparr>ds_is_installed := True\<rparr>) s)\<lparr>kq_table := first_table, kq_ready := True\<rparr>)" for ds s2
    proof -
      have v: "D s2 = (D s)(d \<mapsto> (Some own, True))" "K s2 = K s" "R s2 = R s" "Tm s2 = Tm s" "kq_table s2 = ?tab" "kq_ready s2"
        "kq_ds s2 d = Some (ds\<lparr>ds_is_installed := True\<rparr>)"
        using ds own unfolding s2 by (auto simp: ds_shape_def refs_def D_def R_def Tm_def fun_eq_iff put_ds_def K_def)
      show ?thesis
      proof (rule fine_bind [OF merge_find_fine [where DD = "D s" and own = own, OF _ own _ _ v(7)]])
        show "shape_ok (D s) (K s2) (kq_table s2) True" "kq_ready s2" "D s2 = (D s)(d \<mapsto> (Some own, True))"
          using tab v by simp_all
        fix p :: "kq \<times> nat \<times> bool" assume p: "case p of (t, k, r) \<Rightarrow> to_attach (D s) d own s2 t k"
        then obtain t k r where t: "p = (t, k, r)" "to_attach (D s) d own s2 t k"
          by (cases p) auto
        then obtain xs i f where k: "K t k = Some (xs, i, f, Some k)" "D t d = Some (Some k, True)" "\<forall>e \<in> set xs. D t e \<noteq> None"
          unfolding to_attach_def by auto
        show "fine (\<lambda>t. keeps s t \<and> placed s d t) (case p of (s3, k, do_resume) \<Rightarrow> kevent_merge_attach sys d k do_resume s3)"
          unfolding t(1) prod.case
          by (rule fine_mono [OF attach_fine [OF k]]) (rule to_attach_placed [OF _ t(2) own k(1)], use tab v in auto)
      qed
    qed
    then show ?thesis
      using own False d unfolding u_dispatch_kevent_merge_def Let_def init_table
      by (intro fine_bind [OF get_ds_fine [OF live]]) (auto simp: D_def ds_shape_def)
  qed
qed

section \<open>Uninstalling a source\<close>

lemma sources_mask_fine: "\<forall>e \<in> set xs. D s e \<noteq> None \<Longrightarrow> fine (\<lambda>_. True) (sources_mask xs s)"
proof (induction xs)
  case (Cons e xs)
  then have "D s e \<noteq> None" and IH: "fine (\<lambda>_. True) (sources_mask xs s)"
    by auto
  then show ?case
    unfolding sources_mask.simps by (intro fine_bind [OF get_ds_fine] fine_bind [OF IH]) simp_all
qed simp

lemma dispose_fine:
  assumes k: "K s k = Some ([], i, f, Some k)"
  shows "fine (\<lambda>t. view t = (if custom_filter f then view s else (D s, (K s)(k := None), R s, Tm s,
      (kq_table s)[u_dispatch_kevent_hash i f := remove1 k (kq_table s ! u_dispatch_kevent_hash i f)], kq_ready s)))
    (u_dispatch_kevent_dispose sys k s)" (is "fine ?P _")
proof -
  have nn: "K s k \<noteq> None"
    using k by simp
  show ?thesis
    unfolding u_dispatch_kevent_dispose_def Let_def
  proof (rule fine_bind [OF get_dk_fine [OF nn]])
    fix dk assume dk: "kq_dk s k = Some dk"
    then have key: "ke_ident (dk_kevent dk) = i" "ke_filter (dk_kevent dk) = f" "ke_udata (dk_kevent dk) = Some k" "dk_sources dk = []"
      using k by (auto simp: K_def dk_shape_def)
    let ?kev = "(dk_kevent dk)\<lparr>ke_flags := ke_flags (dk_kevent dk) OR EV_DELETE\<rparr>"
    have put: "same_shape s (put_dk k (dk\<lparr>dk_kevent := ?kev\<rparr>) s)"
      using same_shape_put_dk [OF dk] by (simp add: dk_shape_def)
    have "sources_live (put_dk k (dk\<lparr>dk_kevent := ?kev\<rparr>) s) k"
      using k put by (auto simp: sources_live_def same_shape_def)
    then have "fine (same_shape s) (u_dispatch_update_kq sys ?kev (put_dk k (dk\<lparr>dk_kevent := ?kev\<rparr>) s))"
      using key(3) by (intro fine_shape_trans [OF put] update_kq_fine [of _ k]) auto
    then have "fine (same_shape s)
           (if ke_filter (dk_kevent dk) = EVFILT_PROC \<and> flag_in EV_ONESHOT (ke_flags (dk_kevent dk)) then Ok s
            else if \<not> flag_in EV_DELETE (ke_flags (dk_kevent dk)) then u_dispatch_update_kq sys ?kev (put_dk k (dk\<lparr>dk_kevent := ?kev\<rparr>) s)
            else Ok s)"
      by simp
    then have "fine ?P (res_bind
           (if ke_filter (dk_kevent dk) = EVFILT_PROC \<and> flag_in EV_ONESHOT (ke_flags (dk_kevent dk)) then Ok s
            else if \<not> flag_in EV_DELETE (ke_flags (dk_kevent dk)) then u_dispatch_update_kq sys ?kev (put_dk k (dk\<lparr>dk_kevent := ?kev\<rparr>) s)
            else Ok s)
           (\<lambda>s1. Ok ((bucket_remove (u_dispatch_kevent_hash (ke_ident (dk_kevent dk)) (ke_filter (dk_kevent dk))) k s1)
             \<lparr>kq_dk := (kq_dk (bucket_remove (u_dispatch_kevent_hash (ke_ident (dk_kevent dk)) (ke_filter (dk_kevent dk))) k s1))(k := None)\<rparr>)))"
      if "\<not> custom_filter f"
      by (rule fine_bind) (use that in \<open>auto simp: same_shape_def view_def key bucket_remove_def shape_dk K_def fun_eq_iff\<close>)
    then show "fine ?P (if custom_filter (ke_filter (dk_kevent dk)) then Ok s
       else
         res_bind
           (if ke_filter (dk_kevent dk) = EVFILT_PROC \<and> flag_in EV_ONESHOT (ke_flags (dk_kevent dk)) then Ok s
            else if \<not> flag_in EV_DELETE (ke_flags (dk_kevent dk)) then u_dispatch_update_kq sys ?kev (put_dk k (dk\<lparr>dk_kevent := ?kev\<rparr>) s)
            else Ok s)
           (\<lambda>s1. Ok ((bucket_remove (u_dispatch_kevent_hash (ke_ident (dk_kevent dk)) (ke_filter (dk_kevent dk))) k s1)
             \<lparr>kq_dk := (kq_dk (bucket_remove (u_dispatch_kevent_hash (ke_ident (dk_kevent dk)) (ke_filter (dk_kevent dk))) k s1))(k := None)\<rparr>)))"
      using key(2) by simp
  qed
qed

lemma kevent_without_fine:
  assumes k: "K s k = Some (xs, i, f, Some k)" "kq_dk s k = Some dk" and live: "\<forall>e \<in> set xs. D s e \<noteq> None"
  shows "fine (\<lambda>t. view t = (if custom_filter f \<or> xs \<noteq> [] then view s else (D s, (K s)(k := None), R s, Tm s,
      (kq_table s)[u_dispatch_kevent_hash i f := remove1 k (kq_table s ! u_dispatch_kevent_hash i f)], kq_ready s)))
    (kevent_without sys ds k dk s)"
proof (cases "xs = []")
  case True
  then have "dk_sources dk = []"
    using k by (auto simp: K_def dk_shape_def)
  then show ?thesis
    using dispose_fine [of s k i f sys] k(1) True by (simp add: kevent_without_def)
next
  case False
  have xs: "dk_sources dk = xs"
    using k by (auto simp: K_def dk_shape_def)
  have "fine (\<lambda>t. view t = view s) (u_dispatch_kevent_resume sys k
       (put_dk k (dk\<lparr>dk_kevent := (dk_kevent dk)\<lparr>ke_flags := ke_flags (dk_kevent dk) OR EV_ADD, ke_fflags := m\<rparr>\<rparr>) s))" (is "fine _ (u_dispatch_kevent_resume _ _ ?s)") for m
  proof -
    have put: "same_shape s ?s"
      using same_shape_put_dk [OF k(2)] by (simp add: dk_shape_def)
    then have "fine (same_shape ?s) (u_dispatch_kevent_resume sys k ?s)"
      using k(1) live by (intro kevent_resume_fine) (auto simp: same_shape_def)
    with put show ?thesis
      by (elim fine_mono) (simp add: same_shape_view)
  qed
  then show ?thesis
    using False unfolding kevent_without_def xs Let_def by (auto intro!: fine_bind [OF sources_mask_fine [OF live]])
qed

text \<open>What \<open>_dispatch_kevent_release\<close> leaves of the source.\<close>

definition removed :: "kq \<Rightarrow> nat \<Rightarrow> kq \<Rightarrow> bool" where
  "removed s d t \<longleftrightarrow> kq_ok t \<and> D t = (D s)(d \<mapsto> (None, True)) \<and> Tm t = Tm s \<and> filter_of t = (filter_of s)(d := None) \<and>
     (\<forall>m<4. \<forall>xs i f u. K s m = Some (xs, i, f, u) \<longrightarrow> K t m = Some (remove1 d xs, i, f, u))"

lemma leave_filter:
  assumes ok: "shape_ok (D s) (K s) (kq_table s) (kq_ready s)" and k: "K s k = Some (xs, i, f, u)" "D s d = Some (Some k, True)"
    and t: "D t = (D s)(d \<mapsto> (None, True))" "\<And>m. m \<noteq> k \<Longrightarrow> K t m = K s m"
    and keep: "K t k = Some (ys, i, f, u) \<or> (\<forall>e. e \<noteq> d \<longrightarrow> D s e \<noteq> Some (Some k, True)) \<and> 4 \<le> k"
  shows "filter_of t = (filter_of s)(d := None)"
proof
  fix e
  have "\<exists>ys. K t m = Some (ys, j, g, v)" if "D s e = Some (Some m, b)" "e \<noteq> d" "K s m = Some (zs, j, g, v)" for m b zs j g v
  proof (cases "m = k")
    case True
    moreover have b: "b"
      using shape_okD(6) [OF ok, of e "Some k"] that(1) k shape_okD(5) [OF ok k(2)] True by (cases b) auto
    ultimately have "\<not> (\<forall>e. e \<noteq> d \<longrightarrow> D s e \<noteq> Some (Some k, True))"
      using that(1,2) by auto
    then show ?thesis
      using keep that(3) k True by auto
  qed (use t(2) that in simp)
  moreover have "K s m = None \<Longrightarrow> D s e \<noteq> Some (Some m, b)" for m b
    using shape_okD(5) [OF ok, of e m] shape_okD(6) [OF ok, of e "Some m"] by (cases b) auto
  ultimately show "filter_of t e = ((filter_of s)(d := None)) e"
    using t(1) by (auto simp: filter_of_def split: option.splits prod.splits) fastforce+
qed

lemma removed_stays:
  assumes sh: "shape_ok (D s) (K s) (kq_table s) (kq_ready s)" and d: "D s d = Some (Some k, True)" and k: "K s k = Some (xs, i, f, u)"
    and keep: "remove1 d xs \<noteq> [] \<or> k < 4"
    and vt: "D t = (D s)(d \<mapsto> (None, True))" "K t = (K s)(k \<mapsto> (remove1 d xs, i, f, u))" "Tm t = Tm s" "kq_table t = kq_table s" "kq_ready t = kq_ready s"
  shows "removed s d t"
proof -
  have "kq_ok t"
    using leave_shape [OF sh d k keep] unfolding kq_ok_shape vt by simp
  moreover have "filter_of t = (filter_of s)(d := None)"
    by (rule leave_filter [OF sh k d vt(1)]) (use vt(2) in auto)
  moreover have "K t m = Some (remove1 d ys, j, g, w)" if "K s m = Some (ys, j, g, w)" for m ys j g w
  proof (cases "m = k")
    case False
    then have "d \<notin> set ys"
      using shape_okD(2) [OF sh that] d by auto
    then show ?thesis
      using vt(2) that False by (simp add: remove1_idem)
  qed (use vt(2) that k in auto)
  ultimately show ?thesis
    using vt by (auto simp: removed_def)
qed

lemma removed_goes:
  assumes sh: "shape_ok (D s) (K s) (kq_table s) (kq_ready s)" and d: "D s d = Some (Some k, True)" and k: "K s k = Some (xs, i, f, u)" "d \<in> set xs"
    and last: "remove1 d xs = []" and four: "4 \<le> k"
    and vt: "D t = (D s)(d \<mapsto> (None, True))" "K t = (K s)(k := None)" "Tm t = Tm s"
      "kq_table t = (kq_table s)[u_dispatch_kevent_hash i f := remove1 k (kq_table s ! u_dispatch_kevent_hash i f)]" "kq_ready t = kq_ready s"
  shows "removed s d t"
proof -
  have "kq_ok t"
    using leave_last_shape [OF sh d k(1) last four] unfolding kq_ok_shape vt .
  moreover have only: "D s e \<noteq> Some (Some k, True)" if "e \<noteq> d" for e
  proof -
    have "xs = [d]"
      using last k(2) by (cases xs) (auto split: if_splits)
    then show ?thesis
      using shape_okD(5) [OF sh, of e k] k(1) that by auto
  qed
  moreover have "filter_of t = (filter_of s)(d := None)"
    by (rule leave_filter [OF sh k(1) d vt(1)]) (use vt only four in auto)
  moreover have "K t m = Some (remove1 d ys, j, g, w)" if "K s m = Some (ys, j, g, w)" "m < 4" for m ys j g w
  proof -
    have "d \<notin> set ys"
      using shape_okD(2) [OF sh that(1)] d that(2) four by auto
    then show ?thesis
      using vt(2) that four by (simp add: remove1_idem)
  qed
  ultimately show ?thesis
    using vt by (auto simp: removed_def)
qed

lemma source_release_keep:
  assumes "kq_ds s d = Some ds" "1 < do_ref_cnt ds" "do_ref_cnt ds < DISPATCH_OBJECT_GLOBAL_REFCNT"
  shows "source_release d s = Ok (put_ds d (ds\<lparr>do_ref_cnt := do_ref_cnt ds - 1\<rparr>) s)"
  using assms by (simp add: source_release_def get_ds_def release_count_def Let_def)

lemma release_fine:
  assumes ok: "kq_ok s" and d: "D s d = Some (Some k, True)" and r: "R s d = Some (n, x, b, v)" "1 < n" "n < DISPATCH_OBJECT_GLOBAL_REFCNT"
  shows "fine (\<lambda>t. removed s d t \<and> R t = (R s)(d \<mapsto> (n - 1, x, False, v))) (u_dispatch_kevent_release sys d s)"
proof -
  have sh: "shape_ok (D s) (K s) (kq_table s) (kq_ready s)"
    using ok by (simp add: kq_ok_shape)
  obtain xs i f u where k: "K s k = Some (xs, i, f, u)" "intab (kq_table s) k" "d \<in> set xs"
    using shape_okD(5) [OF sh d] by auto
  have u: "u = Some k" "distinct xs" "\<forall>e \<in> set xs. D s e = Some (Some k, True)"
    using shape_okD(2) [OF sh k(1)] by auto
  obtain ds where ds: "kq_ds s d = Some ds" "ds_dkev ds = Some k" "ds_is_installed ds"
    using d by (auto simp: D_def ds_shape_def)
  obtain dk where dk: "kq_dk s k = Some dk" "dk_shape dk = (xs, i, f, Some k)"
    using k(1) u(1) by (auto simp: K_def)
  let ?dk = "dk\<lparr>dk_sources := remove1 d (dk_sources dk)\<rparr>"
  let ?s = "put_dk k ?dk (put_ds d (ds\<lparr>ds_dkev := None\<rparr>) s)"
  have vs: "view ?s = ((D s)(d \<mapsto> (None, True)), (K s)(k \<mapsto> (remove1 d xs, i, f, u)), R s, Tm s, kq_table s, kq_ready s)"
    using ds dk u(1) by (auto simp: view_def ds_shape_def dk_shape_def refs_def R_def Tm_def fun_eq_iff)
  have "fine (\<lambda>t. removed s d t \<and> R t = R s) (kevent_without sys ds k ?dk ?s)"
  proof (rule fine_mono [OF kevent_without_fine [of ?s k "remove1 d xs" i f]])
    show "K ?s k = Some (remove1 d xs, i, f, Some k)" "kq_dk ?s k = Some ?dk" "\<forall>e \<in> set (remove1 d xs). D ?s e \<noteq> None"
      using vs u by (auto simp: view_def)
    fix t assume t: "view t = (if custom_filter f \<or> remove1 d xs \<noteq> [] then view ?s else (D ?s, (K ?s)(k := None), R ?s, Tm ?s,
      (kq_table ?s)[u_dispatch_kevent_hash i f := remove1 k (kq_table ?s ! u_dispatch_kevent_hash i f)], kq_ready ?s))"
    have "removed s d t" if "custom_filter f \<or> remove1 d xs \<noteq> []"
      using t vs that custom_static [OF sh k(2,1)] by (intro removed_stays [OF sh d k(1)]) (auto simp: view_def)
    moreover have "removed s d t" if "\<not> (custom_filter f \<or> remove1 d xs \<noteq> [])"
      using t vs that custom_static [OF sh k(2,1)] by (intro removed_goes [OF sh d k(1,3)]) (auto simp: view_def)
    moreover have "R t = R s"
      using t vs by (auto simp: view_def split: if_splits)
    ultimately show "removed s d t \<and> R t = R s"
      by blast
  qed
  then have "fine (\<lambda>t. removed s d t \<and> R t = (R s)(d \<mapsto> (n - 1, x, False, v))) (res_bind (kevent_without sys ds k ?dk ?s) (\<lambda>s2.
     res_bind (get_ds d s2) (\<lambda>ds1. source_release d (put_ds d (ds1\<lparr>ds_is_armed := False, ds_needs_rearm := False\<rparr>) s2))))"
  proof (rule fine_bind)
    fix t assume t: "removed s d t \<and> R t = R s"
    then obtain ds1 where ds1: "kq_ds t d = Some ds1" "refs ds1 = (n, x, b, v)" "ds_shape ds1 = (None, True)"
      using r(1) by (fastforce simp: removed_def D_def R_def dest!: fun_cong [of _ _ d])
    let ?t = "put_ds d (ds1\<lparr>ds_is_armed := False, ds_needs_rearm := False, do_ref_cnt := n - 1\<rparr>) t"
    have "D ?t = D t" "K ?t = K t" "Tm ?t = Tm t" "R ?t = (R s)(d \<mapsto> (n - 1, x, False, v))" "kq_table ?t = kq_table t" "kq_ready ?t = kq_ready t"
      using t ds1 by (auto simp: ds_shape_def refs_def Tm_def D_def fun_eq_iff)
    then have "removed s d ?t \<and> R ?t = (R s)(d \<mapsto> (n - 1, x, False, v))"
      using t by (auto simp: removed_def kq_ok_shape filter_of_cong [of ?t t])
    then show "fine (\<lambda>t. removed s d t \<and> R t = (R s)(d \<mapsto> (n - 1, x, False, v)))
        (res_bind (get_ds d t) (\<lambda>ds1. source_release d (put_ds d (ds1\<lparr>ds_is_armed := False, ds_needs_rearm := False\<rparr>) t)))"
      using ds1 r(2,3) by (simp add: get_ds_def source_release_keep refs_def put_ds_def)
  qed
  then show ?thesis
    using ds dk(1) unfolding u_dispatch_kevent_release_def get_ds_def get_dkev_def get_dk_def Let_def by simp
qed

section \<open>The lists of timers\<close>

definition srcs :: "kq \<Rightarrow> nat \<Rightarrow> nat list" where
  "srcs s k = (case K s k of None \<Rightarrow> [] | Some (xs, i, f, u) \<Rightarrow> xs)"

definition target_of :: "kq \<Rightarrow> nat \<Rightarrow> u64" where
  "target_of s d = (case Tm s d of None \<Rightarrow> 0 | Some (i, tm) \<Rightarrow> tm_target tm)"

definition wall_of :: "kq \<Rightarrow> nat \<Rightarrow> bool" where
  "wall_of s d = (case Tm s d of None \<Rightarrow> False | Some (i, tm) \<Rightarrow> flag_in DISPATCH_TIMER_WALL_CLOCK (tm_flags tm))"

definition list_of :: "kq \<Rightarrow> nat \<Rightarrow> nat" where
  "list_of s d = (if wall_of s d then 0 else 1)"

text \<open>Where \<open>_dispatch_timer_list_update\<close> puts a timer, given the times of all timers.\<close>

definition fires_first :: "(nat \<Rightarrow> u64) \<Rightarrow> u64 \<Rightarrow> nat \<Rightarrow> bool" where
  "fires_first tgt t e \<longleftrightarrow> tgt e \<noteq> 0 \<and> tgt e \<le> t"

definition place :: "(nat \<Rightarrow> u64) \<Rightarrow> nat \<Rightarrow> nat list \<Rightarrow> nat list" where
  "place tgt d xs =
     (if tgt d = 0 then xs @ [d]
      else takeWhile (fires_first tgt (tgt d)) xs @ d # dropWhile (fires_first tgt (tgt d)) xs)"

lemma place_set [simp]: "set (place tgt d xs) = insert d (set xs)"
  unfolding place_def
  by (simp, metis Un_insert_right set_append takeWhile_dropWhile_id)

lemma place_distinct: "distinct (place tgt d xs) \<longleftrightarrow> distinct xs \<and> d \<notin> set xs"
proof -
  have "mset (takeWhile P xs) + mset (dropWhile P xs) = mset xs" for P
    by (metis mset_append takeWhile_dropWhile_id)
  then have "mset (place tgt d xs) = mset (d # xs)"
    by (simp add: place_def)
  then have "distinct (place tgt d xs) \<longleftrightarrow> distinct (d # xs)"
    by (rule mset_eq_imp_distinct_iff)
  then show ?thesis
    by auto
qed

lemma timer_insert_place:
  assumes "\<forall>e \<in> set xs. D s e \<noteq> None"
  shows "timer_insert t d xs s = Ok (takeWhile (fires_first (target_of s) t) xs @ d # dropWhile (fires_first (target_of s) t) xs)"
  using assms
proof (induction xs)
  case (Cons e xs)
  then obtain ds where "kq_ds s e = Some ds"
    by (auto simp: D_def)
  then show ?case
    using Cons by (auto simp: get_ds_def fires_first_def target_of_def Tm_def not_less)
qed simp

text \<open>The outcome of \<open>_dispatch_timer_list_update\<close>.\<close>

definition listed :: "kq \<Rightarrow> nat \<Rightarrow> kq \<Rightarrow> bool" where
  "listed s d t \<longleftrightarrow> keeps s t \<and> D t d = Some (Some (list_of s d), True) \<and> (\<forall>e. e \<noteq> d \<longrightarrow> D t e = D s e) \<and>
     (\<forall>m<2. srcs t m = (if m = list_of s d then place (target_of s) d (remove1 d (srcs s m)) else remove1 d (srcs s m)))"

lemma timer_kevent:
  assumes ok: "shape_ok DD KK tab ready" and k: "intab tab k" "KK k = Some (xs, i, DISPATCH_EVFILT_TIMER, u)"
  shows "k < 2"
proof -
  have k4: "k < 4"
    using custom_static [OF ok k] by (simp add: custom_filter_def)
  have "ke_filter (static_kevent k) = DISPATCH_EVFILT_TIMER"
    using shape_okD(7) [OF ok k4] k(2) by auto
  then have "k \<noteq> 2" "k \<noteq> 3"
    by (auto simp: static_kevent_def u_dispatch_kevent_data_or_def u_dispatch_kevent_data_add_def DISPATCH_EVFILT_TIMER_def
        DISPATCH_EVFILT_CUSTOM_ADD_def DISPATCH_EVFILT_CUSTOM_OR_def)
  then show ?thesis
    using k4 by simp
qed

lemma timer_filter: "shape_ok DD KK tab ready \<Longrightarrow> k < 2 \<Longrightarrow> KK k = Some (xs, i, f, u) \<Longrightarrow> f = DISPATCH_EVFILT_TIMER"
  using shape_okD(7) [of DD KK tab ready k]
  by (auto simp: static_kevent_def u_dispatch_kevent_data_or_def u_dispatch_kevent_data_add_def)

lemma moved_listed:
  assumes sh: "shape_ok (D s) (K s) (kq_table s) (kq_ready s)" and d: "D s d = Some (Some k, True)" and k: "K s k = Some (xs, i, DISPATCH_EVFILT_TIMER, u)"
    and k': "((K s)(k \<mapsto> (remove1 d xs, i, DISPATCH_EVFILT_TIMER, u))) k' = Some (ys, j, DISPATCH_EVFILT_TIMER, v)" "k' = list_of s d"
    and t: "kq_ok t" "D t = (D s)(d \<mapsto> (Some k', True))" "R t = R s" "Tm t = Tm s"
      "K t = (K s)(k \<mapsto> (remove1 d xs, i, DISPATCH_EVFILT_TIMER, u), k' \<mapsto> (place (target_of s) d ys, j, DISPATCH_EVFILT_TIMER, v))"
  shows "listed s d t"
proof -
  have other: "remove1 d (srcs s m) = srcs s m" if "m \<noteq> k" for m
    using that shape_okD(2) [OF sh, of m] d by (auto simp: srcs_def intro!: remove1_idem split: option.splits)
  have ys: "ys = remove1 d (srcs s k')"
    using k k'(1) other [of k'] by (cases "k' = k") (auto simp: srcs_def)
  have "srcs t m = (if m = k' then place (target_of s) d (remove1 d (srcs s m)) else remove1 d (srcs s m))" for m
    using t(5) k other [of m] by (cases "m = k'"; cases "m = k") (simp_all add: ys srcs_def)
  moreover have "filter_of t e = filter_of s e" for e
  proof (cases "e = d")
    case True
    then show ?thesis
      using t(2,5) d k by (simp add: filter_of_def)
  next
    case False
    have "map_option (\<lambda>(xs, i, f, u). f) (K t m) = map_option (\<lambda>(xs, i, f, u). f) (K s m)" for m
      using t(5) k k'(1) by (cases "m = k'"; cases "m = k") auto
    then show ?thesis
      using False t(2) by (auto simp: filter_of_def split: option.split prod.split)
  qed
  ultimately show ?thesis
    using t k'(2) by (auto simp: listed_def keeps_def)
qed

text \<open>Moving a timer from its list to the one for its clock.\<close>

lemma move_fine:
  assumes ok: "kq_ok s" and d: "D s d = Some (Some k, True)" "kq_ds s d = Some ds" and f: "filter_of s d = Some DISPATCH_EVFILT_TIMER"
    and dk: "kq_dk s k = Some dk"
  defines "s3 \<equiv> put_ds d (ds\<lparr>ds_dkev := Some (timer_index ds)\<rparr>) (put_dk k (dk\<lparr>dk_sources := remove1 d (dk_sources dk)\<rparr>) s)"
  shows "fine (listed s d) (timer_enter d ds (timer_index ds) s3)"
proof -
  let ?k = "timer_index ds"
  have sh: "shape_ok (D s) (K s) (kq_table s) (kq_ready s)"
    using ok by (simp add: kq_ok_shape)
  obtain xs i u where k: "K s k = Some (xs, i, DISPATCH_EVFILT_TIMER, u)" "intab (kq_table s) k" "d \<in> set xs" "kq_ready s"
    using shape_okD(5) [OF sh d(1)] f d(1) by (auto simp: filter_of_def)
  have k2: "k < 2"
    by (rule timer_kevent [OF sh k(2,1)])
  have tm: "Tm s d = Some (ds_ident_hack ds, ds_timer ds)" "ds_shape ds = (Some k, True)" "R s d = Some (refs ds)"
    using d by (auto simp: Tm_def D_def R_def)
  have idx: "?k = list_of s d" "?k < 2" "tm_target (ds_timer ds) = target_of s d"
    using tm by (simp_all add: timer_index_def list_of_def wall_of_def target_of_def DISPATCH_TIMER_INDEX_WALL_def DISPATCH_TIMER_INDEX_MACH_def)
  let ?K = "(K s)(k \<mapsto> (remove1 d xs, i, DISPATCH_EVFILT_TIMER, u))"
  have v3: "D s3 = (D s)(d \<mapsto> (Some ?k, True))" "K s3 = ?K" "R s3 = R s" "Tm s3 = Tm s" "kq_table s3 = kq_table s" "kq_ready s3 = kq_ready s"
    using d k(1) dk tm unfolding s3_def by (auto simp: ds_shape_def dk_shape_def refs_def K_def)
  have left: "shape_ok ((D s)(d \<mapsto> (None, True))) ?K (kq_table s) (kq_ready s)"
    using k2 by (intro leave_shape [OF sh d(1) k(1)]) simp
  obtain ys j v where k': "?K ?k = Some (ys, j, DISPATCH_EVFILT_TIMER, v)"
    using shape_okD(7) [OF left, of ?k] timer_filter [OF left, of ?k] idx(2) by fastforce
  have tab: "intab (kq_table s) ?k"
    using shape_okD(8) [OF left k(4), of ?k] idx(2) by simp
  have ys: "distinct ys" "d \<notin> set ys" "\<forall>e \<in> set ys. D s3 e \<noteq> None"
    using shape_okD(2) [OF left k'] v3(1) by (auto split: if_splits)
  have placed: "(if tm_target (ds_timer ds) \<noteq> 0 then timer_insert (tm_target (ds_timer ds)) d ys s3 else Ok (ys @ [d])) =
      Ok (place (target_of s) d ys)"
  proof -
    have "target_of s3 = target_of s"
      by (simp add: target_of_def v3(4) fun_eq_iff)
    then show ?thesis
      using timer_insert_place [OF ys(3)] by (simp add: place_def idx(3))
  qed
  have att: "shape_ok ((D s)(d \<mapsto> (None, True), d \<mapsto> (Some ?k, True))) (?K(?k \<mapsto> (place (target_of s) d ys, j, DISPATCH_EVFILT_TIMER, v))) (kq_table s) (kq_ready s)"
    using ys by (intro attach_shape [OF left _ tab k']) (auto simp: place_distinct)
  obtain dk' where dk': "kq_dk s3 ?k = Some dk'" "dk_shape dk' = (ys, j, DISPATCH_EVFILT_TIMER, v)"
    using k' unfolding v3(2) [symmetric] K_def [of s3] by auto
  let ?t = "put_dk ?k (dk'\<lparr>dk_sources := place (target_of s) d ys\<rparr>) s3"
  have vt: "D ?t = (D s)(d \<mapsto> (Some ?k, True))" "K ?t = ?K(?k \<mapsto> (place (target_of s) d ys, j, DISPATCH_EVFILT_TIMER, v))" "R ?t = R s" "Tm ?t = Tm s"
    "kq_table ?t = kq_table s" "kq_ready ?t = kq_ready s"
    using v3 dk'(2) by (auto simp: dk_shape_def)
  have "listed s d ?t"
    by (rule moved_listed [OF sh d(1) k(1) k' idx(1) _ vt(1,3,4,2)]) (use att vt in \<open>simp add: kq_ok_shape\<close>)
  then show ?thesis
    using dk' placed by (auto simp: timer_enter_def get_dk_def dk_shape_def split: if_splits)
qed

lemma placed_timer:
  assumes ok: "kq_ok s" and t: "placed s d t" "keeps s t" and f: "filter_of s d = Some DISPATCH_EVFILT_TIMER"
  shows "D t d = Some (Some 0, True)" "\<forall>e. e \<noteq> d \<longrightarrow> D t e = D s e" "srcs t 0 = srcs s 0 @ [d]" "srcs t 1 = srcs s 1" "\<forall>m<2. d \<notin> set (srcs s m)"
proof -
  have sh: "shape_ok (D s) (K s) (kq_table s) (kq_ready s)" and sht: "shape_ok (D t) (K t) (kq_table t) (kq_ready t)"
    using ok t(2) by (simp_all add: kq_ok_shape keeps_def)
  obtain own k xs ys i f u v where p: "D s d = Some (Some own, False)" "K s own = Some (ys, i, f, u)" "4 \<le> own"
        "D t = (D s)(d \<mapsto> (Some k, True))" "K t k = Some (xs @ [d], i, f, v)" "\<forall>m. m \<noteq> own \<longrightarrow> m \<noteq> k \<longrightarrow> K t m = K s m"
        "k \<noteq> own \<longrightarrow> K s k = Some (xs, i, f, v)"
    using t(1) unfolding placed_def by blast
  have f: "f = DISPATCH_EVFILT_TIMER"
    using f p(1,2) by (simp add: filter_of_def)
  then have "i = 0"
    using shape_okD(4) [OF sh p(2)] p(3) by (simp add: custom_filter_def)
  have "intab (kq_table t) k"
    using shape_okD(5) [OF sht, of d k] p(4) by simp
  from timer_kevent [OF sht this] have "k < 2"
    using p(5) f by simp
  have k: "k = 0"
  proof (rule ccontr)
    assume "k \<noteq> 0"
    then have "k = 1"
      using \<open>k < 2\<close> by simp
    then show False
      using shape_okD(7) [OF sht, of k] p(5) \<open>i = 0\<close> by (simp add: static_kevent_def u_dispatch_kevent_data_or_def u_dispatch_kevent_data_add_def)
  qed
  show "D t d = Some (Some 0, True)" "\<forall>e. e \<noteq> d \<longrightarrow> D t e = D s e" "srcs t 0 = srcs s 0 @ [d]" "srcs t 1 = srcs s 1"
    using p k by (simp_all add: srcs_def)
  have "d \<notin> set (srcs s m)" for m
    using shape_okD(2) [OF sh, of m] p(1) by (cases "K s m") (force simp: srcs_def)+
  then show "\<forall>m<2. d \<notin> set (srcs s m)"
    by simp
qed

lemma list_update_fine:
  assumes ok: "kq_ok s" and d: "D s d = Some (x, b)" and f: "x \<noteq> None \<Longrightarrow> filter_of s d = Some DISPATCH_EVFILT_TIMER"
  shows "fine (\<lambda>t. if x = None then t = s else listed s d t) (u_dispatch_timer_list_update sys d s)"
proof (cases "x = None")
  case True
  then show ?thesis
    using d by (auto simp: u_dispatch_timer_list_update_def D_def ds_shape_def get_ds_def)
next
  case False
  then have ft: "filter_of s d = Some DISPATCH_EVFILT_TIMER"
    using f by simp
  have merged: "fine (\<lambda>t. keeps s t \<and> (\<exists>k. D t d = Some (Some k, True)) \<and> (\<forall>e. e \<noteq> d \<longrightarrow> D t e = D s e) \<and>
      (\<forall>m<2. remove1 d (srcs t m) = remove1 d (srcs s m))) (u_dispatch_kevent_merge sys d s)"
  proof (rule fine_mono [OF kevent_merge_fine [OF ok d]])
    fix t assume t: "keeps s t \<and> (if b then t = s else placed s d t)"
    show "keeps s t \<and> (\<exists>k. D t d = Some (Some k, True)) \<and> (\<forall>e. e \<noteq> d \<longrightarrow> D t e = D s e) \<and> (\<forall>m<2. remove1 d (srcs t m) = remove1 d (srcs s m))"
    proof (cases b)
      case True
      then show ?thesis
        using t d False by auto
    next
      case nb: False
      then have "placed s d t" "keeps s t"
        using t by simp_all
      from placed_timer [OF ok this ft] \<open>keeps s t\<close> show ?thesis
        by (auto simp: less_2_cases_iff remove1_append remove1_idem)
    qed
  qed
  obtain ds0 where ds0: "kq_ds s d = Some ds0" "ds_dkev ds0 \<noteq> None"
    using d False by (auto simp: D_def ds_shape_def)
  have "fine (listed s d) (timer_move d s1)"
    if s1: "keeps s s1" "D s1 d = Some (Some k, True)" "\<forall>e. e \<noteq> d \<longrightarrow> D s1 e = D s e" "\<forall>m<2. remove1 d (srcs s1 m) = remove1 d (srcs s m)" for s1 k
  proof -
    have ok1: "kq_ok s1" and f1: "filter_of s1 d = Some DISPATCH_EVFILT_TIMER"
      using s1(1) ft by (simp_all add: keeps_def)
    obtain ds where ds: "kq_ds s1 d = Some ds" "ds_dkev ds = Some k"
      using s1(2) by (auto simp: D_def ds_shape_def)
    obtain dk where dk: "kq_dk s1 k = Some dk"
      using shape_okD(5) [of "D s1" "K s1"] s1(2) ok1 by (fastforce simp: kq_ok_shape K_def)
    have "listed s d t" if "listed s1 d t" for t
      using that s1 by (auto simp: listed_def keeps_def list_of_def wall_of_def target_of_def [abs_def])
    from fine_mono [OF move_fine [OF ok1 s1(2) ds(1) f1 dk] this]
    show ?thesis
      using ds dk by (simp add: timer_move_def get_ds_def get_dkev_def get_dk_def Let_def u_dispatch_kevent_timer_def)
  qed
  then show ?thesis
    using ds0 False unfolding u_dispatch_timer_list_update_def get_ds_def [of d s]
    by (auto intro!: fine_bind [OF merged])
qed

end
