(* ===== verification/Dispatch_Timers.thy ===== *)
theory Dispatch_Timers
  imports Dispatch_Source_Install
begin

text \<open>
  The timers among the event sources: the lists of the two clocks stay sorted, the loop that fires timers ends after the timers that
  are due, and the time it computes for the next turn is the earliest one.
\<close>

lemma placed_other:
  assumes ok: "kq_ok s" and t: "placed s d t" "keeps s t" and f: "filter_of s d \<noteq> Some DISPATCH_EVFILT_TIMER" and m: "m < 2"
  shows "srcs t m = srcs s m"
proof -
  have sht: "shape_ok (D t) (K t) (kq_table t) (kq_ready t)"
    using t(2) by (simp add: kq_ok_shape keeps_def)
  obtain own k xs ys i f u v where p: "D s d = Some (Some own, False)" "K s own = Some (ys, i, f, u)" "4 \<le> own"
        "K t k = Some (xs @ [d], i, f, v)" "\<forall>m. m \<noteq> own \<longrightarrow> m \<noteq> k \<longrightarrow> K t m = K s m"
    using t(1) unfolding placed_def by blast
  have "f \<noteq> DISPATCH_EVFILT_TIMER"
    using f p(1,2) by (simp add: filter_of_def)
  then have "\<not> k < 2"
    using timer_filter [OF sht _ p(4)] by blast
  then show ?thesis
    using p(3,5) m by (simp add: srcs_def)
qed

section \<open>Sorted timers\<close>

text \<open>The order of a list of timers: by time, the timers without a time at the end.\<close>

definition not_later :: "(nat \<Rightarrow> u64) \<Rightarrow> nat \<Rightarrow> nat \<Rightarrow> bool" where
  "not_later tgt a b \<longleftrightarrow> tgt b = 0 \<or> tgt a \<noteq> 0 \<and> tgt a \<le> tgt b"

definition sorted_timers :: "(nat \<Rightarrow> u64) \<Rightarrow> nat list \<Rightarrow> bool" where
  "sorted_timers tgt = sorted_wrt (not_later tgt)"

lemma sorted_timers_remove: "sorted_timers tgt xs \<Longrightarrow> sorted_timers tgt (remove1 d xs)"
  unfolding sorted_timers_def
  by (induction xs) (auto dest: notin_set_remove1 [rotated] simp: in_set_remove1 intro: set_remove1_subset [THEN subsetD])

lemma sorted_timers_cong: "sorted_timers tgt xs \<Longrightarrow> (\<And>e. e \<in> set xs \<Longrightarrow> tgt' e = tgt e) \<Longrightarrow> sorted_timers tgt' xs"
  unfolding sorted_timers_def by (erule sorted_wrt_mono_rel [rotated]) (simp add: not_later_def)

lemma place_sorted:
  assumes "sorted_timers tgt xs"
  shows "sorted_timers tgt (place tgt d xs)"
proof (cases "tgt d = 0")
  case True
  then show ?thesis
    using assms by (auto simp: place_def sorted_timers_def sorted_wrt_append not_later_def)
next
  case False
  let ?P = "fires_first tgt (tgt d)"
  have xs: "sorted_wrt (not_later tgt) (takeWhile ?P xs @ dropWhile ?P xs)"
    using assms by (simp add: sorted_timers_def)
  have before: "not_later tgt e d" if "e \<in> set (takeWhile ?P xs)" for e
    using set_takeWhileD [OF that] by (simp add: fires_first_def not_later_def)
  have after: "not_later tgt d e" if "e \<in> set (dropWhile ?P xs)" for e
  proof (cases "dropWhile ?P xs")
    case Nil
    with that show ?thesis
      by (metis empty_iff empty_set)
  next
    case (Cons e0 ys)
    then have "\<not> ?P e0"
      using hd_dropWhile [of ?P xs] by auto
    moreover have "e = e0 \<or> not_later tgt e0 e"
      using xs that Cons by (auto simp: sorted_wrt_append)
    ultimately show ?thesis
      using False by (auto simp: fires_first_def not_later_def)
  qed
  show ?thesis
    using xs [unfolded sorted_wrt_append] before after False by (auto simp: place_def sorted_timers_def sorted_wrt_append)
qed

definition ident_of :: "kq \<Rightarrow> nat \<Rightarrow> u64" where
  "ident_of s d = (case Tm s d of None \<Rightarrow> 0 | Some (i, tm) \<Rightarrow> i)"

text \<open>
  The timers: those not installed have no time, and those in the two lists are sorted and stand in the list of their clock.
\<close>

definition timers_ok :: "kq \<Rightarrow> bool" where
  "timers_ok s \<longleftrightarrow>
     (\<forall>d x. D s d = Some (x, False) \<longrightarrow> target_of s d = 0 \<and> (filter_of s d = Some DISPATCH_EVFILT_TIMER \<longrightarrow> ident_of s d = 0)) \<and>
     (\<forall>k<2. sorted_timers (target_of s) (srcs s k) \<and>
        (\<forall>d \<in> set (srcs s k). ident_of s d = of_nat k \<and> (target_of s d \<noteq> 0 \<longrightarrow> list_of s d = k)))"

definition kinv :: "kq \<Rightarrow> bool" where
  "kinv s \<longleftrightarrow> kq_ok s \<and> timers_ok s"

text \<open>A change of nothing but the registrations, which stay well formed.\<close>

definition steady :: "kq \<Rightarrow> kq \<Rightarrow> bool" where
  "steady s t \<longleftrightarrow> kinv t \<and> R t = R s \<and> filter_of t = filter_of s"

lemma steady_refl: "kinv s \<Longrightarrow> steady s s"
  by (simp add: steady_def)

lemma steady_trans: "steady s t \<Longrightarrow> steady t u \<Longrightarrow> steady s u"
  by (simp add: steady_def)

lemma steady_kinv: "steady s t \<Longrightarrow> kinv t"
  by (simp add: steady_def)

lemma of_Tm_cong:
  "Tm t e = Tm s e \<Longrightarrow> target_of t e = target_of s e"
  "Tm t e = Tm s e \<Longrightarrow> ident_of t e = ident_of s e"
  "Tm t e = Tm s e \<Longrightarrow> list_of t e = list_of s e"
  by (simp_all add: target_of_def ident_of_def list_of_def wall_of_def)

lemma srcs_cong: "K t k = K s k \<Longrightarrow> srcs t k = srcs s k"
  by (simp add: srcs_def)

lemma kinv_shape: "kinv s \<Longrightarrow> shape_ok (D s) (K s) (kq_table s) (kq_ready s)"
  by (simp add: kinv_def kq_ok_shape)

lemma in_srcs: "kq_ok s \<Longrightarrow> d \<in> set (srcs s k) \<Longrightarrow> D s d = Some (Some k, True)"
  using shape_okD(2) [of "D s" "K s" "kq_table s" "kq_ready s" k] by (cases "K s k") (auto simp: kq_ok_shape srcs_def)

lemma distinct_srcs: "kq_ok s \<Longrightarrow> distinct (srcs s k)"
  using shape_okD(2) [of "D s" "K s" "kq_table s" "kq_ready s" k] by (cases "K s k") (auto simp: kq_ok_shape srcs_def)

lemma timers_okI:
  assumes "\<And>d x. D s d = Some (x, False) \<Longrightarrow> target_of s d = 0 \<and> (filter_of s d = Some DISPATCH_EVFILT_TIMER \<longrightarrow> ident_of s d = 0)"
    and "\<And>k. k < 2 \<Longrightarrow> sorted_timers (target_of s) (srcs s k)"
    and "\<And>d k. k < 2 \<Longrightarrow> d \<in> set (srcs s k) \<Longrightarrow> ident_of s d = of_nat k \<and> (target_of s d \<noteq> 0 \<longrightarrow> list_of s d = k)"
  shows "timers_ok s"
  using assms by (simp add: timers_ok_def)

lemma timers_okD:
  assumes "timers_ok s"
  shows "D s d = Some (x, False) \<Longrightarrow> target_of s d = 0" "D s d = Some (x, False) \<Longrightarrow> filter_of s d = Some DISPATCH_EVFILT_TIMER \<Longrightarrow> ident_of s d = 0"
    and "k < 2 \<Longrightarrow> sorted_timers (target_of s) (srcs s k)"
    and "k < 2 \<Longrightarrow> d \<in> set (srcs s k) \<Longrightarrow> ident_of s d = of_nat k" "k < 2 \<Longrightarrow> d \<in> set (srcs s k) \<Longrightarrow> target_of s d \<noteq> 0 \<Longrightarrow> list_of s d = k"
  using assms by (auto simp: timers_ok_def)

lemma steady_same_shape:
  assumes "kinv s" "same_shape s t"
  shows "steady s t"
proof -
  have eq: "D t = D s" "K t = K s" "R t = R s" "Tm t = Tm s" "filter_of t = filter_of s"
    using assms(2) filter_of_cong [of t s] by (simp_all add: same_shape_def)
  then have of: "target_of t = target_of s" "ident_of t = ident_of s" "list_of t = list_of s" "srcs t = srcs s"
    by (auto intro!: ext of_Tm_cong srcs_cong)
  show ?thesis
    using assms kq_ok_same_shape [of s t] unfolding steady_def kinv_def timers_ok_def eq of by simp
qed

lemma steady_merge:
  assumes inv: "kinv s" and d: "D s d \<noteq> None"
  shows "fine (steady s) (u_dispatch_kevent_merge sys d s)"
proof -
  have ok: "kq_ok s" and tm: "timers_ok s"
    using inv by (simp_all add: kinv_def)
  obtain x b where xb: "D s d = Some (x, b)"
    using d by auto
  show ?thesis
  proof (rule fine_mono [OF kevent_merge_fine [OF ok xb]])
    fix t assume t: "keeps s t \<and> (if b then t = s else placed s d t)"
    show "steady s t"
    proof (cases b)
      case True
      then show ?thesis
        using t inv steady_refl by simp
    next
      case False
      with t have p: "keeps s t" "placed s d t" and kt: "kq_ok t" "R t = R s" "Tm t = Tm s" "filter_of t = filter_of s"
        by (simp_all add: keeps_def)
      have of: "target_of t = target_of s" "ident_of t = ident_of s" "list_of t = list_of s"
        using kt(3) by (auto intro!: ext of_Tm_cong)
      have Dt: "e \<noteq> d \<and> D s e = Some (y, False)" if "D t e = Some (y, False)" for e y
        using p(2) that by (auto simp: placed_def split: if_splits)
      have new: "target_of s d = 0" "filter_of s d = Some DISPATCH_EVFILT_TIMER \<Longrightarrow> ident_of s d = 0"
        using timers_okD(1,2) [OF tm] xb False by auto
      have lists: "srcs t k = srcs s k \<or> k = 0 \<and> filter_of s d = Some DISPATCH_EVFILT_TIMER \<and> srcs t k = srcs s k @ [d]" if "k < 2" for k
      proof (cases "filter_of s d = Some DISPATCH_EVFILT_TIMER")
        case True
        then show ?thesis
          using placed_timer [OF ok p(2,1) True] \<open>k < 2\<close> by (auto simp: less_2_cases_iff)
      next
        case nt: False
        then show ?thesis
          using placed_other [OF ok p(2,1) nt \<open>k < 2\<close>] by simp
      qed
      have "timers_ok t"
      proof (rule timers_okI, unfold of kt(4))
        show "target_of s e = 0 \<and> (filter_of s e = Some DISPATCH_EVFILT_TIMER \<longrightarrow> ident_of s e = 0)" if "D t e = Some (y, False)" for e y
          using Dt [OF that] timers_okD(1,2) [OF tm] by blast
        show "sorted_timers (target_of s) (srcs t k)" if "k < 2" for k
          using lists [OF that] timers_okD(3) [OF tm that] new(1) place_sorted [of "target_of s" "srcs s k" d] by (auto simp: place_def)
        show "ident_of s e = of_nat k \<and> (target_of s e \<noteq> 0 \<longrightarrow> list_of s e = k)" if "k < 2" "e \<in> set (srcs t k)" for e k
          using lists [OF that(1)] that(2) timers_okD(4,5) [OF tm that(1)] new by auto
      qed
      then show ?thesis
        using kt by (simp add: steady_def kinv_def)
    qed
  qed
qed

lemma removed_kinv:
  assumes inv: "kinv s" and t: "removed s d t"
  shows "kinv t"
proof -
  have kt: "kq_ok t" "D t = (D s)(d \<mapsto> (None, True))" "Tm t = Tm s" "filter_of t = (filter_of s)(d := None)"
    using t by (simp_all add: removed_def)
  have tm: "timers_ok s"
    using inv by (simp add: kinv_def)
  have of: "target_of t = target_of s" "ident_of t = ident_of s" "list_of t = list_of s"
    using kt(3) by (auto intro!: ext of_Tm_cong)
  have srcs: "srcs t k = remove1 d (srcs s k)" if "k < 2" for k
    using t that shape_okD(7) [OF kinv_shape [OF inv], of k] by (fastforce simp: removed_def srcs_def)
  have "timers_ok t"
  proof (rule timers_okI, unfold of)
    show "target_of s e = 0 \<and> (filter_of t e = Some DISPATCH_EVFILT_TIMER \<longrightarrow> ident_of s e = 0)" if "D t e = Some (y, False)" for e y
      using that timers_okD(1,2) [OF tm, of e y] kt(2,4) by (auto split: if_splits)
    show "sorted_timers (target_of s) (srcs t k)" if "k < 2" for k
      using srcs [OF that] timers_okD(3) [OF tm that] sorted_timers_remove by simp
    show "ident_of s e = of_nat k \<and> (target_of s e \<noteq> 0 \<longrightarrow> list_of s e = k)" if "k < 2" "e \<in> set (srcs t k)" for e k
      using srcs [OF that(1)] that(2) timers_okD(4,5) [OF tm that(1)] set_remove1_subset by fastforce
  qed
  then show ?thesis
    using kt(1) by (simp add: kinv_def)
qed

section \<open>Running the timers\<close>

lemma filter_of_None:
  assumes "kq_ok s" "D s d = Some (x, b)"
  shows "filter_of s d = None \<longleftrightarrow> x = None"
proof (cases x)
  case (Some k)
  have "K s k \<noteq> None"
    using assms Some shape_okD(5,6) [of "D s" "K s"] by (cases b) (fastforce simp: kq_ok_shape)+
  then show ?thesis
    using assms(2) Some by (auto simp: filter_of_def)
qed (use assms in \<open>simp add: filter_of_def\<close>)

text \<open>A timer gets a new time and its new place.\<close>

lemma retimed_steady:
  assumes inv: "kinv s" and other: "\<And>e. e \<noteq> d \<Longrightarrow> Tm t e = Tm s e" and self: "ident_of t d = of_nat (list_of t d)"
    and kt: "kq_ok t" "R t = R s" "filter_of t = filter_of s" "\<And>e. e \<noteq> d \<Longrightarrow> D t e = D s e" "\<And>x. D t d \<noteq> Some (x, False)"
    and lists: "\<And>k. k < 2 \<Longrightarrow> srcs t k = remove1 d (srcs s k) \<or> k = list_of t d \<and> srcs t k = place (target_of t) d (remove1 d (srcs s k))"
  shows "steady s t"
proof -
  have ok: "kq_ok s" and tm: "timers_ok s"
    using inv by (simp_all add: kinv_def)
  have of: "target_of t e = target_of s e" "ident_of t e = ident_of s e" "list_of t e = list_of s e" if "e \<noteq> d" for e
    using other [OF that] by (auto intro!: of_Tm_cong)
  have not_in: "d \<notin> set (remove1 d (srcs s k))" for k
    using distinct_srcs [OF ok] by simp
  have sorted: "sorted_timers (target_of t) (remove1 d (srcs s k))" if "k < 2" for k
    using sorted_timers_remove [OF timers_okD(3) [OF tm that]] by (rule sorted_timers_cong) (use not_in of in metis)
  have "timers_ok t"
  proof (rule timers_okI)
    show "target_of t e = 0 \<and> (filter_of t e = Some DISPATCH_EVFILT_TIMER \<longrightarrow> ident_of t e = 0)" if "D t e = Some (y, False)" for e y
      using that kt(3-5) timers_okD(1,2) [OF tm, of e y] of [of e] by metis
    show "sorted_timers (target_of t) (srcs t k)" if "k < 2" for k
      using lists [OF that] sorted [OF that] place_sorted by metis
    show "ident_of t e = of_nat k \<and> (target_of t e \<noteq> 0 \<longrightarrow> list_of t e = k)" if "k < 2" "e \<in> set (srcs t k)" for e k
    proof (cases "e = d")
      case True
      then show ?thesis
        using lists [OF that(1)] that(2) not_in [of k] self by auto
    next
      case False
      then have "e \<in> set (srcs s k)"
        using lists [OF that(1)] that(2) set_remove1_subset [of d "srcs s k"] by auto
      then show ?thesis
        using timers_okD(4,5) [OF tm that(1)] of [OF False] by simp
    qed
  qed
  then show ?thesis
    using kt by (simp add: steady_def kinv_def)
qed

lemma steady_update:
  assumes inv: "kinv s" and ds: "kq_ds s d = Some ds" and ds': "ds_shape ds' = ds_shape ds" "refs ds' = refs ds"
    and ident: "ds_ident_hack ds' = of_nat (timer_index ds')" and f: "filter_of s d \<noteq> None \<Longrightarrow> filter_of s d = Some DISPATCH_EVFILT_TIMER"
  shows "fine (\<lambda>t. steady s t \<and> (if ds_dkev ds = None then t = put_ds d ds' s else listed (put_ds d ds' s) d t))
    (u_dispatch_timer_list_update sys d (put_ds d ds' s))"
proof -
  let ?s = "put_ds d ds' s"
  have ok: "kq_ok s"
    using inv by (simp add: kinv_def)
  have vs: "D ?s = D s" "K ?s = K s" "R ?s = R s" "kq_table ?s = kq_table s" "kq_ready ?s = kq_ready s"
    using ds ds' by (auto simp: D_def R_def fun_eq_iff)
  then have fs: "filter_of ?s = filter_of s" and oks: "kq_ok ?s" and srcs: "srcs ?s = srcs s"
    using filter_of_cong [of ?s s] ok by (auto simp: kq_ok_shape intro!: ext srcs_cong)
  have D0: "D s d = Some (ds_dkev ds, ds_is_installed ds)" and d: "D ?s d = Some (ds_dkev ds, ds_is_installed ds)"
    using ds ds'(1) by (simp_all add: ds_shape_def D_def)
  have f': "filter_of ?s d = Some DISPATCH_EVFILT_TIMER" if "ds_dkev ds \<noteq> None"
    using that f filter_of_None [OF oks d] fs by auto
  have self: "ident_of t d = of_nat (list_of t d)" if "Tm t = Tm ?s" for t
    using ident that by (auto simp: list_of_def wall_of_def ident_of_def timer_index_def DISPATCH_TIMER_INDEX_WALL_def DISPATCH_TIMER_INDEX_MACH_def)
  show ?thesis
  proof (rule fine_mono [OF list_update_fine [OF oks d f']])
    fix t assume t: "if ds_dkev ds = None then t = ?s else listed ?s d t"
    have "steady s ?s" if none: "ds_dkev ds = None"
    proof (rule retimed_steady [OF inv _ self [OF refl] oks vs(3) fs])
      show "D ?s d \<noteq> Some (x, False)" for x
        using D0 none shape_okD(6) [OF kinv_shape [OF inv], of d x] unfolding vs(1) by auto
      have "d \<notin> set (srcs s k)" for k
        using in_srcs [OF ok, of d k] D0 none by auto
      then show "srcs ?s k = remove1 d (srcs s k) \<or> k = list_of ?s d \<and> srcs ?s k = place (target_of ?s) d (remove1 d (srcs s k))" for k
        by (simp add: srcs remove1_idem)
    qed (simp_all add: vs)
    moreover have "steady s t" if "ds_dkev ds \<noteq> None"
    proof (rule retimed_steady [OF inv])
      have l: "listed ?s d t"
        using t that by simp
      then have Tm: "Tm t = Tm ?s"
        by (simp add: listed_def keeps_def)
      from self [OF this] show "ident_of t d = of_nat (list_of t d)" .
      show "kq_ok t" "R t = R s" "filter_of t = filter_of s" "D t d \<noteq> Some (x, False)" for x
        using l vs fs by (auto simp: listed_def keeps_def)
      show "Tm t e = Tm s e" "D t e = D s e" if "e \<noteq> d" for e
        using l that vs Tm by (auto simp: listed_def)
      have "target_of t = target_of ?s" "list_of t = list_of ?s"
        using Tm by (auto intro!: ext of_Tm_cong)
      then show "srcs t k = remove1 d (srcs s k) \<or> k = list_of t d \<and> srcs t k = place (target_of t) d (remove1 d (srcs s k))" if "k < 2" for k
        using l that by (auto simp: listed_def srcs)
    qed
    ultimately show "steady s t \<and> (if ds_dkev ds = None then t = ?s else listed ?s d t)"
      using t by auto
  qed
qed

lemma timer_insert_crash: "timer_insert t d xs s = Inl e \<Longrightarrow> e = Use_after_free"
  by (induction xs arbitrary: e)
    (auto simp: get_ds_def split: option.splits if_splits elim!: res_bind.elims)

lemma timer_move_crash: "timer_move d s = Inl e \<Longrightarrow> \<not> benign e"
  using timer_insert_crash
  by (fastforce simp: timer_move_def timer_enter_def get_ds_def get_dk_def get_dkev_def Let_def split: option.splits if_splits elim!: res_bind.elims)

lemma timer_move_frame:
  assumes "timer_move d s = Ok t" "kq_ds s d = Some ds"
  shows "kq_calls t = kq_calls s" "kq_ds t = (kq_ds s)(d \<mapsto> ds\<lparr>ds_dkev := Some (timer_index ds)\<rparr>)"
  using assms
  by (auto simp: timer_move_def timer_enter_def get_ds_def res_bind_Ok_iff Let_def put_dk_def put_ds_def u_dispatch_kevent_timer_def)

lemma list_update_installed:
  assumes "kq_ds s d = Some ds" "ds_dkev ds = Some k" "ds_is_installed ds"
  shows "u_dispatch_timer_list_update sys d s = timer_move d s"
  using assms by (simp add: u_dispatch_timer_list_update_def u_dispatch_kevent_merge_def get_ds_def)

text \<open>How often a timer that is due fires, and its next time.\<close>

definition fires :: "u64 \<Rightarrow> source \<Rightarrow> u64" where
  "fires now ds =
     (if flag_in (DISPATCH_TIMER_ONESHOT OR DISPATCH_TIMER_ABSOLUTE) (tm_flags (ds_timer ds)) then 1
      else (now - tm_target (ds_timer ds)) div tm_interval (ds_timer ds) + 1)"

lemma fire_timer_simps [simp]:
  "ds_shape (fire_timer now ds) = ds_shape ds" "refs (fire_timer now ds) = refs ds" "ds_ident_hack (fire_timer now ds) = ds_ident_hack ds"
  "tm_flags (ds_timer (fire_timer now ds)) = tm_flags (ds_timer ds)" "tm_interval (ds_timer (fire_timer now ds)) = tm_interval (ds_timer ds)"
  "timer_index (fire_timer now ds) = timer_index ds" "ds_dkev (fire_timer now ds) = ds_dkev ds" "ds_is_installed (fire_timer now ds) = ds_is_installed ds"
  "ds_pending_data (fire_timer now ds) = ds_pending_data ds + fires now ds"
  by (simp_all add: fire_timer_def Let_def ds_shape_def refs_def timer_index_def fires_def)

lemma next_time:
  fixes t now i :: u64
  assumes "t \<le> now" "0 < i" "unat now + unat i < 2 ^ 64"
  shows "now < t + ((now - t) div i + 1) * i"
proof -
  define m where "m = (unat now - unat t) div unat i"
  have i: "0 < unat i"
    using assms(2) by (simp add: word_less_nat_alt)
  have m: "unat ((now - t) div i) = m"
    using assms(1) by (simp add: m_def unat_div unat_sub)
  have tn: "unat t \<le> unat now"
    using assms(1) by (simp add: word_le_nat_alt)
  have le: "m * unat i \<le> unat now - unat t" and gt: "unat now - unat t < (m + 1) * unat i"
    using i by (simp_all add: m_def dividend_less_div_times add.commute)
  have eq: "t + ((now - t) div i + 1) * i = of_nat (unat t + (m + 1) * unat i)"
    using m by (simp add: algebra_simps flip: m)
  have "unat t + (m + 1) * unat i < 2 ^ 64"
    using le tn assms(3) by simp
  then have "unat (t + ((now - t) div i + 1) * i) = unat t + (m + 1) * unat i"
    unfolding eq by (simp only: unsigned_of_nat) (simp add: take_bit_nat_eq_self)
  then show ?thesis
    using gt tn unfolding word_less_nat_alt by simp
qed

lemma fire_timer_target:
  assumes "tm_target (ds_timer ds) \<le> now" "0 < tm_interval (ds_timer ds)" "unat now + unat (tm_interval (ds_timer ds)) < 2 ^ 64"
  shows "tm_target (ds_timer (fire_timer now ds)) = 0 \<or> now < tm_target (ds_timer (fire_timer now ds))"
  using next_time [OF assms] by (simp add: fire_timer_def Let_def)

definition due :: "kq \<Rightarrow> u64 \<Rightarrow> nat \<Rightarrow> bool" where
  "due s now d \<longleftrightarrow> target_of s d \<noteq> 0 \<and> target_of s d \<le> now"

definition due_set :: "kq \<Rightarrow> nat \<Rightarrow> u64 \<Rightarrow> nat set" where
  "due_set s k now = {d \<in> set (srcs s k). due s now d}"

definition intervals_ok :: "kq \<Rightarrow> nat \<Rightarrow> u64 \<Rightarrow> bool" where
  "intervals_ok s k now \<longleftrightarrow>
     (\<forall>d \<in> set (srcs s k). \<exists>ds. kq_ds s d = Some ds \<and> 0 < tm_interval (ds_timer ds) \<and> unat now + unat (tm_interval (ds_timer ds)) < 2 ^ 64)"

lemma due_cong: "Tm t d = Tm s d \<Longrightarrow> due t now d = due s now d"
  by (simp add: due_def of_Tm_cong(1) [of t d s])

text \<open>One timer that is due: its time moves on, its place changes, and it is woken.\<close>

lemma fire_step:
  assumes inv: "kinv s" and k: "k < 2" "d \<in> set (srcs s k)" and ds: "kq_ds s d = Some ds" and due: "due s now d"
    and int: "0 < tm_interval (ds_timer ds)" "unat now + unat (tm_interval (ds_timer ds)) < 2 ^ 64"
  shows "\<exists>t. u_dispatch_timer_list_update sys d (put_ds d (fire_timer now ds) s) = Ok t \<and> steady s t \<and> set (srcs t k) = set (srcs s k) \<and>
    due_set t k now = due_set s k now - {d} \<and> kq_calls t = kq_calls s \<and>
    kq_ds t = (kq_ds s)(d \<mapsto> (fire_timer now ds)\<lparr>ds_dkev := Some (timer_index ds)\<rparr>)"
proof -
  let ?ds = "fire_timer now ds"
  let ?s = "put_ds d ?ds s"
  have ok: "kq_ok s" and tm: "timers_ok s"
    using inv by (simp_all add: kinv_def)
  have D: "D s d = Some (Some k, True)"
    using in_srcs [OF ok k(2)] .
  then have dk: "ds_dkev ds = Some k" "ds_is_installed ds"
    using ds by (auto simp: D_def ds_shape_def)
  have Tm: "Tm s d = Some (ds_ident_hack ds, ds_timer ds)"
    using ds by (simp add: Tm_def)
  have tgt: "target_of s d = tm_target (ds_timer ds)"
    using Tm by (simp add: target_of_def)
  have idx: "timer_index ds = k" "ds_ident_hack ds = of_nat k"
    using timers_okD(4,5) [OF tm k] due Tm
    by (auto simp: due_def ident_of_def list_of_def wall_of_def timer_index_def DISPATCH_TIMER_INDEX_WALL_def DISPATCH_TIMER_INDEX_MACH_def)
  obtain xs i u where K: "K s k = Some (xs, i, DISPATCH_EVFILT_TIMER, u)"
    using shape_okD(5) [OF kinv_shape [OF inv] D] timer_filter [OF kinv_shape [OF inv] k(1)] by blast
  have f: "filter_of s d = Some DISPATCH_EVFILT_TIMER"
    using D K by (simp add: filter_of_def)
  have "fine (\<lambda>t. steady s t \<and> (if ds_dkev ds = None then t = ?s else listed ?s d t)) (u_dispatch_timer_list_update sys d ?s)"
    by (rule steady_update [OF inv ds]) (use idx f in simp_all)
  moreover have upd: "u_dispatch_timer_list_update sys d ?s = timer_move d ?s"
    using dk by (intro list_update_installed [of _ _ ?ds k]) simp_all
  ultimately obtain t where t: "timer_move d ?s = Ok t" "steady s t" "listed ?s d t"
    using dk(1) timer_move_crash by (cases "timer_move d ?s") auto
  have fr: "kq_calls t = kq_calls ?s" "kq_ds t = (kq_ds ?s)(d \<mapsto> ?ds\<lparr>ds_dkev := Some (timer_index ?ds)\<rparr>)"
    using timer_move_frame [OF t(1), of ?ds] by simp_all
  have l: "list_of ?s d = k"
    using idx(1) by (auto simp: list_of_def wall_of_def timer_index_def DISPATCH_TIMER_INDEX_WALL_def DISPATCH_TIMER_INDEX_MACH_def split: if_splits)
  have "srcs ?s k = srcs s k"
    by (rule srcs_cong) simp
  then have srcs: "set (srcs t k) = set (srcs s k)"
    using t(3) k l distinct_srcs [OF ok, of k] by (auto simp: listed_def)
  have "\<not> due t now d"
    using fire_timer_target [OF _ int] due tgt fr(2) by (auto simp: due_def target_of_def Tm_def)
  moreover have "due t now e = due s now e" if "e \<noteq> d" for e
    using that t(3) by (intro due_cong) (simp add: listed_def keeps_def)
  ultimately have "due t now e \<longleftrightarrow> due s now e \<and> e \<noteq> d" for e
    by (cases "e = d") simp_all
  then have "due_set t k now = due_set s k now - {d}"
    unfolding due_set_def srcs by auto
  then show ?thesis
    using t upd srcs fr by (auto simp: put_ds_def)
qed

text \<open>The first timer tells whether any is due.\<close>

lemma head_due:
  assumes "kinv s" "k < 2" "srcs s k = d # xs" "\<not> due s now d"
  shows "due_set s k now = {}"
proof -
  have "sorted_timers (target_of s) (d # xs)"
    using assms timers_okD(3) [of s k] by (simp add: kinv_def)
  then show ?thesis
    using assms(3,4) by (auto simp: due_set_def due_def sorted_timers_def not_later_def)
qed

definition timers_run :: "kq \<Rightarrow> nat \<Rightarrow> u64 \<Rightarrow> kq \<Rightarrow> bool" where
  "timers_run s k now t \<longleftrightarrow> steady s t \<and> due_set t k now = {} \<and> set (srcs t k) = set (srcs s k) \<and>
     (\<exists>ws. kq_calls t = kq_calls s @ map Wakeup ws \<and> distinct ws \<and> set ws = due_set s k now) \<and>
     (\<forall>d ds. kq_ds s d = Some ds \<longrightarrow>
        (\<exists>ds'. kq_ds t d = Some ds' \<and> ds_pending_data ds' = ds_pending_data ds + (if d \<in> due_set s k now then fires now ds else 0)))"

lemma timers_run_refl: "kinv s \<Longrightarrow> due_set s k now = {} \<Longrightarrow> timers_run s k now s"
  by (auto simp: timers_run_def steady_refl)

lemma timers_run_step:
  assumes st: "steady s t" "set (srcs t k) = set (srcs s k)" "due_set t k now = due_set s k now - {d}" "d \<in> due_set s k now"
    and calls: "kq_calls t = kq_calls s @ [Wakeup d]" and ds: "kq_ds s d = Some ds" "kq_ds t = (kq_ds s)(d \<mapsto> (fire_timer now ds)\<lparr>ds_dkev := x\<rparr>)"
    and run: "timers_run t k now u"
  shows "timers_run s k now u"
proof -
  obtain ws where ws: "kq_calls u = kq_calls t @ map Wakeup ws" "distinct ws" "set ws = due_set s k now - {d}"
    using run st(3) by (auto simp: timers_run_def)
  then have "kq_calls u = kq_calls s @ map Wakeup (d # ws) \<and> distinct (d # ws) \<and> set (d # ws) = due_set s k now"
    using calls st(4) by auto
  moreover have "\<exists>e'. kq_ds u b = Some e' \<and> ds_pending_data e' = ds_pending_data e + (if b \<in> due_set s k now then fires now e else 0)"
    if "kq_ds s b = Some e" for b e
  proof (cases "b = d")
    case True
    then have "kq_ds t b = Some ((fire_timer now ds)\<lparr>ds_dkev := x\<rparr>)" "e = ds"
      using ds that by simp_all
    then show ?thesis
      using run st(3,4) True unfolding timers_run_def by fastforce
  next
    case False
    then have "kq_ds t b = Some e"
      using ds(2) that by simp
    then show ?thesis
      using run st(3) False unfolding timers_run_def by fastforce
  qed
  ultimately show ?thesis
    using run st steady_trans [OF st(1)] unfolding timers_run_def by blast
qed

theorem run_timers2_runs:
  assumes "kinv s" "k < 2" "intervals_ok s k now" "card (due_set s k now) < n"
  shows "\<exists>t. u_dispatch_run_timers2 sys k now n s = Some (Ok t) \<and> timers_run s k now t"
  using assms
proof (induction n arbitrary: s)
  case (Suc n)
  have sh: "shape_ok (D s) (K s) (kq_table s) (kq_ready s)"
    by (rule kinv_shape [OF Suc.prems(1)])
  obtain dk where dk: "kq_dk s k = Some dk" "dk_sources dk = srcs s k"
    using shape_okD(7) [OF sh, of k] Suc.prems(2) by (auto simp: K_def dk_shape_def srcs_def)
  show ?case
  proof (cases "srcs s k")
    case Nil
    then have "timers_run s k now s"
      by (intro timers_run_refl [OF Suc.prems(1)]) (simp add: due_set_def)
    then show ?thesis
      using dk Nil by (simp add: get_dk_def u_dispatch_kevent_timer_def)
  next
    case (Cons d xs)
    then have d: "d \<in> set (srcs s k)"
      by simp
    then obtain ds where ds: "kq_ds s d = Some ds" and int: "0 < tm_interval (ds_timer ds)" "unat now + unat (tm_interval (ds_timer ds)) < 2 ^ 64"
      using Suc.prems(3) by (auto simp: intervals_ok_def)
    have ident: "ds_ident_hack ds = of_nat k"
      using timers_okD(4) [of s k d] Suc.prems(1,2) d ds by (simp add: kinv_def ident_of_def Tm_def)
    have head: "get_dk (u_dispatch_kevent_timer k) s = Ok dk" "dk_sources dk = d # xs" "get_ds d s = Ok ds"
      using dk Cons ds by (simp_all add: get_dk_def get_ds_def u_dispatch_kevent_timer_def)
    have tgt: "target_of s d = tm_target (ds_timer ds)"
      using ds by (simp add: target_of_def Tm_def)
    show ?thesis
    proof (cases "due s now d")
      case False
      then have "timers_run s k now s"
        using head_due [OF Suc.prems(1,2) Cons] by (intro timers_run_refl [OF Suc.prems(1)])
      then show ?thesis
        using head ident tgt False int by (auto simp: due_def)
    next
      case True
      obtain t where t: "u_dispatch_timer_list_update sys d (put_ds d (fire_timer now ds) s) = Ok t" "steady s t" "set (srcs t k) = set (srcs s k)"
          "due_set t k now = due_set s k now - {d}" "kq_calls t = kq_calls s"
          "kq_ds t = (kq_ds s)(d \<mapsto> (fire_timer now ds)\<lparr>ds_dkev := Some (timer_index ds)\<rparr>)"
        using fire_step [OF Suc.prems(1,2) d ds True int] by blast
      let ?t = "log_call (Wakeup d) t"
      have in_due: "d \<in> due_set s k now"
        using d True by (simp add: due_set_def)
      have st: "steady s ?t"
        using steady_trans [OF t(2) steady_same_shape [OF steady_kinv [OF t(2)]]] by simp
      have eq: "srcs ?t k = srcs t k" "due_set ?t k now = due_set t k now"
        by (auto simp: due_set_def srcs_def due_def target_of_def)
      have "card (due_set s k now - {d}) < n"
        using Suc.prems(4) card_Diff1_less [OF _ in_due] by (simp add: due_set_def)
      moreover have "intervals_ok ?t k now"
        using Suc.prems(3) ds int unfolding intervals_ok_def eq(1) t(3) by (auto simp: t(6))
      ultimately obtain u where u: "u_dispatch_run_timers2 sys k now n ?t = Some (Ok u)" "timers_run ?t k now u"
        using Suc.IH [OF steady_kinv [OF st] Suc.prems(2)] eq(2) t(4) by auto
      have "timers_run s k now u"
        by (rule timers_run_step [OF st _ _ in_due _ ds _ u(2)]) (use t eq in \<open>simp_all add: log_call_def\<close>)
      moreover have "u_dispatch_run_timers2 sys k now (Suc n) s = Some (Ok u)"
        using head ident tgt True int t(1) u(1) by (auto simp: due_def not_less)
      ultimately show ?thesis
        by blast
    qed
  qed
qed simp

text \<open>With any bound on its turns the loop keeps the registrations well formed.\<close>

lemma run_timers2_fine:
  assumes "kinv s" "k < 2" "u_dispatch_run_timers2 sys k now n s = Some r"
  shows "fine (steady s) r"
  using assms
proof (induction n arbitrary: s)
  case (Suc n)
  have sh: "shape_ok (D s) (K s) (kq_table s) (kq_ready s)" and ok: "kq_ok s" and tm: "timers_ok s"
    using kinv_shape [OF Suc.prems(1)] Suc.prems(1) by (simp_all add: kinv_def)
  obtain dk where dk: "kq_dk s k = Some dk" "dk_sources dk = srcs s k"
    using shape_okD(7) [OF sh, of k] Suc.prems(2) by (auto simp: K_def dk_shape_def srcs_def)
  show ?case
  proof (cases "srcs s k")
    case Nil
    then show ?thesis
      using dk Suc.prems by (auto simp: get_dk_def u_dispatch_kevent_timer_def steady_refl)
  next
    case (Cons d xs)
    then have d: "d \<in> set (srcs s k)" and D: "D s d = Some (Some k, True)"
      using in_srcs [OF ok, of d k] by simp_all
    then obtain ds where ds: "kq_ds s d = Some ds"
      by (auto simp: D_def)
    have ident: "ds_ident_hack ds = of_nat k"
      using timers_okD(4) [OF tm Suc.prems(2) d] ds by (simp add: ident_of_def Tm_def)
    have idx: "timer_index ds = k" if "tm_target (ds_timer ds) \<noteq> 0"
      using timers_okD(5) [OF tm Suc.prems(2) d] ds that
      by (auto simp: target_of_def Tm_def list_of_def wall_of_def timer_index_def DISPATCH_TIMER_INDEX_WALL_def DISPATCH_TIMER_INDEX_MACH_def)
    have f: "filter_of s d = Some DISPATCH_EVFILT_TIMER"
      using shape_okD(5) [OF sh D] timer_filter [OF sh Suc.prems(2)] D by (fastforce simp: filter_of_def)
    let ?u = "u_dispatch_timer_list_update sys d (put_ds d (fire_timer now ds) s)"
    have upd: "fine (steady s) ?u" if "tm_target (ds_timer ds) \<noteq> 0"
      by (rule fine_mono [OF steady_update [OF Suc.prems(1) ds]]) (use idx [OF that] ident f in auto)
    have step: "fine (steady s) r" if t: "?u = Ok t" "u_dispatch_run_timers2 sys k now n (log_call (Wakeup d) t) = Some r" "tm_target (ds_timer ds) \<noteq> 0" for t
    proof -
      have st: "steady s (log_call (Wakeup d) t)"
        using upd [OF t(3)] t(1) steady_trans steady_same_shape [OF steady_kinv, of s t] by fastforce
      from Suc.IH [OF steady_kinv [OF st] Suc.prems(2) t(2)] show ?thesis
        by (rule fine_mono) (rule steady_trans [OF st])
    qed
    let ?idle = "tm_target (ds_timer ds) = 0 \<or> tm_interval (ds_timer ds) = 0 \<or> tm_target (ds_timer ds) > now"
    have eq: "Some r = (if ?idle then Some (Ok s)
        else case ?u of Inl e \<Rightarrow> Some (Inl e) | Inr t \<Rightarrow> u_dispatch_run_timers2 sys k now n (log_call (Wakeup d) t))"
      unfolding Suc.prems(3) [symmetric] using dk Cons ds ident by (simp add: get_dk_def get_ds_def u_dispatch_kevent_timer_def)
    show ?thesis
    proof (cases ?idle)
      case True
      then show ?thesis
        using eq Suc.prems(1) by (auto simp: steady_refl)
    next
      case False
      then have t0: "tm_target (ds_timer ds) \<noteq> 0"
        by blast
      show ?thesis
      proof (cases ?u)
        case (Inl e)
        then show ?thesis
          using eq False upd [OF t0] by auto
      next
        case (Inr t)
        then have "u_dispatch_run_timers2 sys k now n (log_call (Wakeup d) t) = Some r"
          using eq False by auto
        then show ?thesis
          by (rule step [OF Inr _ t0])
      qed
    qed
  qed
qed simp

lemma run_timers_fine:
  assumes "kinv s" "u_dispatch_run_timers sys wall mach n s = Some r"
  shows "fine (steady s) r"
proof (cases "u_dispatch_run_timers2 sys DISPATCH_TIMER_INDEX_WALL wall n s")
  case (Some q)
  then have q: "fine (steady s) q"
    by (rule run_timers2_fine [OF assms(1), rotated]) (simp add: DISPATCH_TIMER_INDEX_WALL_def)
  show ?thesis
  proof (cases q)
    case (Inr t)
    then have "steady s t" "u_dispatch_run_timers2 sys DISPATCH_TIMER_INDEX_MACH mach n t = Some r"
      using q Some assms(2) by (simp_all add: u_dispatch_run_timers_def)
    from fine_mono [OF run_timers2_fine [OF steady_kinv [OF this(1)] _ this(2)] steady_trans [OF this(1)]] show ?thesis
      by (simp add: DISPATCH_TIMER_INDEX_MACH_def)
  qed (use q Some assms(2) in \<open>auto simp: u_dispatch_run_timers_def\<close>)
qed (use assms(2) in \<open>simp add: u_dispatch_run_timers_def\<close>)

section \<open>The next time\<close>

definition suspended :: "kq \<Rightarrow> nat \<Rightarrow> bool" where
  "suspended s d \<longleftrightarrow> (\<exists>ds. kq_ds s d = Some ds \<and> DISPATCH_OBJECT_SUSPENDED ds)"

definition waiting :: "kq \<Rightarrow> nat \<Rightarrow> nat set" where
  "waiting s k = {d \<in> set (srcs s k). target_of s d \<noteq> 0 \<and> \<not> suspended s d}"

text \<open>The timers of a list that wait, by the first that does not wait suspended.\<close>

definition earliest :: "kq \<Rightarrow> nat \<Rightarrow> source option \<Rightarrow> bool" where
  "earliest s k r \<longleftrightarrow>
     (case r of
        None \<Rightarrow> waiting s k = {}
      | Some ds \<Rightarrow>
          if tm_target (ds_timer ds) = 0 then waiting s k = {}
          else \<exists>d \<in> waiting s k. kq_ds s d = Some ds \<and> (\<forall>e \<in> waiting s k. target_of s d \<le> target_of s e))"

lemma first_unsuspended_earliest:
  assumes "\<forall>d \<in> set xs. D s d \<noteq> None" "distinct xs"
  shows "\<exists>t r. first_unsuspended xs s = Ok (t, r) \<and> same_shape s t \<and> suspended t = suspended s \<and>
    (case r of None \<Rightarrow> \<forall>d \<in> set xs. target_of s d \<noteq> 0 \<and> suspended s d
     | Some ds \<Rightarrow> \<exists>ys d zs. xs = ys @ d # zs \<and> kq_ds s d = Some ds \<and> (\<forall>e \<in> set ys. suspended s e) \<and> (target_of s d = 0 \<or> \<not> suspended s d))"
  using assms
proof (induction xs arbitrary: s)
  case (Cons d xs)
  obtain ds where ds: "kq_ds s d = Some ds"
    using Cons.prems by (auto simp: D_def)
  then have tgt: "target_of s d = tm_target (ds_timer ds)" and sus: "suspended s d = DISPATCH_OBJECT_SUSPENDED ds"
    by (simp_all add: target_of_def Tm_def suspended_def)
  show ?case
  proof (cases "target_of s d = 0 \<or> \<not> suspended s d")
    case True
    then have "first_unsuspended (d # xs) s = Ok (s, Some ds)"
      using ds tgt sus by (auto simp: get_ds_def)
    then show ?thesis
      using True ds by (auto intro!: exI [of _ "[]"])
  next
    case False
    let ?s = "put_ds d (ds\<lparr>ds_is_armed := False\<rparr>) s"
    have sh: "same_shape s ?s"
      using ds by (intro same_shape_put_ds) (simp_all add: ds_shape_def refs_def)
    have sus': "suspended ?s = suspended s"
      using ds by (auto simp: suspended_def DISPATCH_OBJECT_SUSPENDED_def fun_eq_iff)
    have tgt': "target_of ?s = target_of s"
      using sh by (auto simp: same_shape_def intro!: ext of_Tm_cong)
    have "D ?s = D s"
      using sh by (simp add: same_shape_def)
    then have live: "\<forall>d \<in> set xs. D ?s d \<noteq> None"
      using Cons.prems(1) by (simp only:) simp
    obtain t r where t: "first_unsuspended xs ?s = Ok (t, r)" "same_shape ?s t" "suspended t = suspended ?s"
      "case r of None \<Rightarrow> \<forall>d \<in> set xs. target_of ?s d \<noteq> 0 \<and> suspended ?s d
        | Some b \<Rightarrow> \<exists>ys e zs. xs = ys @ e # zs \<and> kq_ds ?s e = Some b \<and> (\<forall>e \<in> set ys. suspended ?s e) \<and> (target_of ?s e = 0 \<or> \<not> suspended ?s e)"
      using Cons.IH [OF live] Cons.prems(2) by (simp only: distinct.simps) blast
    have head: "first_unsuspended (d # xs) s = first_unsuspended xs ?s"
      using ds tgt sus False by (auto simp: get_ds_def)
    have "case r of None \<Rightarrow> \<forall>d \<in> set (d # xs). target_of s d \<noteq> 0 \<and> suspended s d
     | Some b \<Rightarrow> \<exists>ys e zs. d # xs = ys @ e # zs \<and> kq_ds s e = Some b \<and> (\<forall>e \<in> set ys. suspended s e) \<and> (target_of s e = 0 \<or> \<not> suspended s e)"
    proof (cases r)
      case (Some b)
      then obtain ys e zs where p: "xs = ys @ e # zs" "kq_ds ?s e = Some b" "\<forall>e \<in> set ys. suspended s e" "target_of s e = 0 \<or> \<not> suspended s e"
        using t(4) unfolding tgt' sus' by auto
      have "kq_ds s e = Some b"
        using p(1,2) Cons.prems(2) by (auto split: if_splits)
      then show ?thesis
        using p False Some by (auto intro!: exI [of _ "d # ys"])
    qed (use t(4) False tgt' sus' in simp)
    then show ?thesis
      using head t(1-3) same_shape_trans [OF sh] sus' by auto
  qed
qed simp

lemma list_earliest:
  assumes inv: "kinv s" and k: "k < 2"
  shows "\<exists>t r. first_unsuspended (srcs s k) s = Ok (t, r) \<and> same_shape s t \<and> suspended t = suspended s \<and> earliest s k r"
proof -
  have ok: "kq_ok s" and sorted: "sorted_timers (target_of s) (srcs s k)"
    using inv timers_okD(3) [OF _ k] by (simp_all add: kinv_def)
  have "\<forall>d \<in> set (srcs s k). D s d \<noteq> None"
    using in_srcs [OF ok] by fastforce
  from first_unsuspended_earliest [OF this distinct_srcs [OF ok]]
  obtain t r where t: "first_unsuspended (srcs s k) s = Ok (t, r)" "same_shape s t" "suspended t = suspended s"
    "case r of None \<Rightarrow> \<forall>d \<in> set (srcs s k). target_of s d \<noteq> 0 \<and> suspended s d
     | Some ds \<Rightarrow> \<exists>ys d zs. srcs s k = ys @ d # zs \<and> kq_ds s d = Some ds \<and> (\<forall>e \<in> set ys. suspended s e) \<and> (target_of s d = 0 \<or> \<not> suspended s d)"
    by blast
  have "earliest s k r"
  proof (cases r)
    case None
    then show ?thesis
      using t(4) by (auto simp: earliest_def waiting_def)
  next
    case (Some ds)
    then obtain ys d zs where p: "srcs s k = ys @ d # zs" "kq_ds s d = Some ds" "\<forall>e \<in> set ys. suspended s e" "target_of s d = 0 \<or> \<not> suspended s d"
      using t(4) by auto
    have tgt: "tm_target (ds_timer ds) = target_of s d"
      using p(2) by (simp add: target_of_def Tm_def)
    have later: "e = d \<or> not_later (target_of s) d e" if "e \<in> waiting s k" for e
      using that p(1,3) sorted by (auto simp: waiting_def sorted_timers_def sorted_wrt_append)
    then show ?thesis
      using Some p tgt by (auto simp: earliest_def waiting_def not_later_def)
  qed
  then show ?thesis
    using t by blast
qed

definition clock :: "u64 \<Rightarrow> u64 \<Rightarrow> nat \<Rightarrow> u64" where
  "clock wall_now mach_now k = (if k = 0 then wall_now else mach_now)"

lemma waiting_cong: "same_shape s t \<Longrightarrow> suspended t = suspended s \<Longrightarrow> waiting t k = waiting s k"
  by (auto simp: waiting_def same_shape_def srcs_def target_of_def)

lemma target_cong: "same_shape s t \<Longrightarrow> target_of t = target_of s"
  by (auto simp: same_shape_def intro!: ext of_Tm_cong)

text \<open>What the loop over the lists finds: a timer that is due, or the shortest time to wait.\<close>

definition shortest :: "kq \<Rightarrow> u64 \<Rightarrow> u64 \<Rightarrow> nat set \<Rightarrow> u64 \<Rightarrow> u64 option \<Rightarrow> bool" where
  "shortest s wn mn ks delta r \<longleftrightarrow>
     (case r of
        None \<Rightarrow> \<exists>k \<in> ks. \<exists>d \<in> waiting s k. target_of s d \<le> clock wn mn k
      | Some x \<Rightarrow> x \<le> delta \<and> (\<forall>k \<in> ks. \<forall>d \<in> waiting s k. clock wn mn k < target_of s d \<and> x \<le> target_of s d - clock wn mn k) \<and>
          (x = delta \<or> (\<exists>k \<in> ks. \<exists>d \<in> waiting s k. x = target_of s d - clock wn mn k)))"

lemma shortest_cong:
  assumes "same_shape s t" "suspended t = suspended s"
  shows "shortest t wn mn ks delta r = shortest s wn mn ks delta r"
  unfolding shortest_def waiting_cong [OF assms] target_cong [OF assms(1)] ..

lemma shortest_skip: "shortest s wn mn (set ks) delta r \<Longrightarrow> waiting s k = {} \<Longrightarrow> shortest s wn mn (set (k # ks)) delta r"
  by (cases r) (auto simp: shortest_def)

lemma shortest_take:
  assumes "shortest s wn mn (set ks) (min (target_of s d - clock wn mn k) delta) r" "d \<in> waiting s k" "clock wn mn k < target_of s d"
    "\<forall>e \<in> waiting s k. target_of s d \<le> target_of s e"
  shows "shortest s wn mn (set (k # ks)) delta r"
proof (cases r)
  case None
  then show ?thesis
    using assms(1) by (auto simp: shortest_def)
next
  case (Some x)
  have sub: "target_of s d - clock wn mn k \<le> target_of s e - clock wn mn k \<and> clock wn mn k < target_of s e" if "e \<in> waiting s k" for e
    using assms(3,4) that by (auto simp: word_le_nat_alt word_less_nat_alt unat_sub_if' dest!: bspec)
  have x: "x \<le> target_of s d - clock wn mn k" "x \<le> delta"
    using assms(1) Some by (auto simp: shortest_def)
  then show ?thesis
    using assms(1,2) Some sub by (fastforce simp: shortest_def min_def split: if_splits)
qed

lemma next_fire_delta_shortest:
  assumes "kinv s" "set ks \<subseteq> {0, 1}"
  shows "\<exists>t r. next_fire_delta u_dispatch_get_host_time_init wn mn ks delta s = Ok (t, r) \<and> same_shape s t \<and> suspended t = suspended s \<and>
    shortest s wn mn (set ks) delta r"
  using assms
proof (induction ks arbitrary: delta s)
  case Nil
  then show ?case
    by (simp add: shortest_def)
next
  case (Cons k ks)
  have k: "k < 2" and ks: "set ks \<subseteq> {0, 1}"
    using Cons.prems(2) by auto
  obtain t r where t: "first_unsuspended (srcs s k) s = Ok (t, r)" "same_shape s t" "suspended t = suspended s" "earliest s k r"
    using list_earliest [OF Cons.prems(1) k] by blast
  have "kinv t"
    using steady_same_shape [OF Cons.prems(1) t(2)] by (simp add: steady_def)
  from Cons.IH [OF this ks] have rest: "\<exists>u q. next_fire_delta u_dispatch_get_host_time_init wn mn ks x t = Ok (u, q) \<and> same_shape s u \<and>
      suspended u = suspended s \<and> shortest s wn mn (set ks) x q" for x
    using same_shape_trans [OF t(2)] unfolding shortest_cong [OF t(2,3)] t(3) by blast
  obtain dk where dk: "get_dk (u_dispatch_kevent_timer k) s = Ok dk" "dk_sources dk = srcs s k"
    using shape_okD(7) [OF kinv_shape [OF Cons.prems(1)], of k] k by (auto simp: K_def dk_shape_def srcs_def get_dk_def u_dispatch_kevent_timer_def)
  show ?case
  proof (cases "\<exists>ds. r = Some ds \<and> tm_target (ds_timer ds) \<noteq> 0")
    case False
    then have "waiting s k = {}" and step: "next_fire_delta u_dispatch_get_host_time_init wn mn (k # ks) delta s =
        next_fire_delta u_dispatch_get_host_time_init wn mn ks delta t"
      using t(1,4) dk by (auto simp: earliest_def Let_def split: option.splits)
    then show ?thesis
      using rest [of delta] shortest_skip by (metis (no_types, lifting))
  next
    case True
    then obtain ds d where ds: "r = Some ds" "tm_target (ds_timer ds) \<noteq> 0" "d \<in> waiting s k" "kq_ds s d = Some ds"
        "\<forall>e \<in> waiting s k. target_of s d \<le> target_of s e"
      using t(4) by (auto simp: earliest_def)
    have tgt: "tm_target (ds_timer ds) = target_of s d" "flag_in DISPATCH_TIMER_WALL_CLOCK (tm_flags (ds_timer ds)) \<longleftrightarrow> k = 0"
      using ds(2,3,4) timers_okD(5) [of s k d] Cons.prems(1) k
      by (auto simp: target_of_def Tm_def waiting_def kinv_def list_of_def wall_of_def split: if_splits)
    show ?thesis
    proof (cases "target_of s d \<le> clock wn mn k")
      case due: True
      then have "next_fire_delta u_dispatch_get_host_time_init wn mn (k # ks) delta s = Ok (t, None)"
        using t(1) dk ds(1,2) tgt by (auto simp: clock_def Let_def)
      moreover have "shortest s wn mn (set (k # ks)) delta None"
        using due ds(3) by (auto simp: shortest_def)
      ultimately show ?thesis
        using t(2,3) by blast
    next
      case wait: False
      then have "next_fire_delta u_dispatch_get_host_time_init wn mn (k # ks) delta s =
          next_fire_delta u_dispatch_get_host_time_init wn mn ks (min (target_of s d - clock wn mn k) delta) t"
        using t(1) dk ds(1,2) tgt by (auto simp: clock_def Let_def mach2nano_linux min_def)
      then show ?thesis
        using rest [of "min (target_of s d - clock wn mn k) delta"] shortest_take [OF _ ds(3) _ ds(5)] wait
        by (metis (no_types, lifting) not_le)
    qed
  qed
qed

text \<open>The time a timer has left.\<close>

definition time_left :: "kq \<Rightarrow> u64 \<Rightarrow> u64 \<Rightarrow> nat \<Rightarrow> nat \<Rightarrow> u64" where
  "time_left s wn mn k d = (if target_of s d \<le> clock wn mn k then 0 else target_of s d - clock wn mn k)"

definition nanoseconds :: "timespec \<Rightarrow> u64" where
  "nanoseconds ts = tv_sec ts * NSEC_PER_SEC + tv_nsec ts"

definition next_fire :: "kq \<Rightarrow> u64 \<Rightarrow> u64 \<Rightarrow> timespec option \<Rightarrow> bool" where
  "next_fire s wn mn r \<longleftrightarrow>
     (case r of
        None \<Rightarrow> \<forall>k<2. \<forall>d \<in> waiting s k. FOREVER_NSEC < time_left s wn mn k d
      | Some ts \<Rightarrow> tv_nsec ts < NSEC_PER_SEC \<and>
          (\<exists>k<2. \<exists>d \<in> waiting s k. nanoseconds ts = time_left s wn mn k d \<and>
             (\<forall>j<2. \<forall>e \<in> waiting s j. time_left s wn mn k d \<le> time_left s wn mn j e)))"

lemma get_next_timer_fire:
  assumes "kinv s"
  shows "\<exists>t r. u_dispatch_get_next_timer_fire u_dispatch_get_host_time_init wn mn s = Ok (t, r) \<and> same_shape s t \<and> next_fire s wn mn r"
proof -
  let ?x = "next_fire_delta u_dispatch_get_host_time_init wn mn [DISPATCH_TIMER_INDEX_WALL, DISPATCH_TIMER_INDEX_MACH] (NOT 0) s"
  have ks: "set [DISPATCH_TIMER_INDEX_WALL, DISPATCH_TIMER_INDEX_MACH] = {..<2}"
    by (auto simp: DISPATCH_TIMER_INDEX_WALL_def DISPATCH_TIMER_INDEX_MACH_def)
  have "set [DISPATCH_TIMER_INDEX_WALL, DISPATCH_TIMER_INDEX_MACH] \<subseteq> {0, 1}"
    by (simp add: DISPATCH_TIMER_INDEX_WALL_def DISPATCH_TIMER_INDEX_MACH_def)
  from next_fire_delta_shortest [OF assms this, of wn mn "NOT 0"]
  obtain t r where t: "?x = Ok (t, r)" "same_shape s t" "shortest s wn mn {..<2} (NOT 0) r"
    unfolding ks by blast
  show ?thesis
  proof (cases r)
    case None
    then obtain k d where "k < 2" "d \<in> waiting s k" "target_of s d \<le> clock wn mn k"
      using t(3) by (auto simp: shortest_def)
    then have "next_fire s wn mn (Some \<lparr>tv_sec = 0, tv_nsec = 0\<rparr>)"
      by (auto simp: next_fire_def nanoseconds_def time_left_def NSEC_PER_SEC_def intro!: exI [of _ k] bexI [of _ d])
    then show ?thesis
      using t None by (auto simp: u_dispatch_get_next_timer_fire_def simp del: next_fire_delta.simps)
  next
    case (Some x)
    then have x: "\<And>k d. k < 2 \<Longrightarrow> d \<in> waiting s k \<Longrightarrow> clock wn mn k < target_of s d \<and> x \<le> target_of s d - clock wn mn k"
      and eq: "x = NOT 0 \<or> (\<exists>k<2. \<exists>d \<in> waiting s k. x = target_of s d - clock wn mn k)"
      using t(3) by (auto simp: shortest_def)
    show ?thesis
    proof (cases "FOREVER_NSEC < x")
      case True
      then have "next_fire s wn mn None"
        using x by (fastforce simp: next_fire_def time_left_def not_le)
      then show ?thesis
        using t Some True by (auto simp: u_dispatch_get_next_timer_fire_def simp del: next_fire_delta.simps)
    next
      case False
      then have "x \<noteq> NOT 0"
        by (auto simp: FOREVER_NSEC_def)
      then obtain k d where kd: "k < 2" "d \<in> waiting s k" "x = target_of s d - clock wn mn k"
        using eq by blast
      have left: "time_left s wn mn j e = target_of s e - clock wn mn j" if "j < 2" "e \<in> waiting s j" for j e
        using x [OF that] by (auto simp: time_left_def)
      let ?ts = "\<lparr>tv_sec = x div NSEC_PER_SEC, tv_nsec = x mod NSEC_PER_SEC\<rparr>"
      have "nanoseconds ?ts = x" "tv_nsec ?ts < NSEC_PER_SEC"
        by (simp_all add: nanoseconds_def div_mult_mod_eq word_mod_less_divisor NSEC_PER_SEC_def)
      then have "next_fire s wn mn (Some ?ts)"
        unfolding next_fire_def using kd x left by (auto intro!: exI [of _ k] bexI [of _ d])
      then show ?thesis
        using t Some False by (auto simp: u_dispatch_get_next_timer_fire_def simp del: next_fire_delta.simps)
    qed
  qed
qed

end
