(* ===== verification/Dispatch_Source_System.thy ===== *)
theory Dispatch_Source_System
  imports Dispatch_Timers
begin

text \<open>
  Event sources as a system: clients create, set, cancel and release sources, queues invoke them, the kernel reports events and the
  manager runs the timers, in any order.  The invariant of the registrations and of the reference counts holds throughout; the
  properties of sources follow from it.
\<close>

section \<open>The system of sources\<close>

text \<open>
  The sources together with their users: the references that queues hold on a source and the parameters of
  \<open>dispatch_source_set_timer\<close> that wait on the manager queue.
\<close>

record source_system =
  sy_kq :: kq
  sy_queued :: "nat \<Rightarrow> nat"
  sy_params :: "set_timer_params list"

datatype source_action =
    Create nat "nat option" "source_type option" u64 u64 nat
  | Retain nat
  | Release nat
  | Suspend nat
  | Resume nat
  | Cancel nat
  | Merge_data nat u64
  | Set_event_handler nat "(nat \<times> nat) option"
  | Set_event_handler_f nat "nat option"
  | Set_cancel_handler nat "nat option"
  | Set_cancel_handler_f nat "nat option"
  | Set_timer nat u64 u64 u64 u64
  | Run_set_timer
  | Enqueue nat
  | Invoke nat nat
  | Dequeue nat
  | Kevent kevent
  | Run_timers u64 u64 nat
  | Next_fire u64 u64

definition on_kq :: "source_system \<Rightarrow> kq result \<Rightarrow> source_system result" where
  "on_kq y r = res_bind r (\<lambda>s. Ok (y\<lparr>sy_kq := s\<rparr>))"

definition change_ds :: "nat \<Rightarrow> (source \<Rightarrow> source result) \<Rightarrow> kq \<Rightarrow> kq result" where
  "change_ds d f s = res_bind (get_ds d s) (\<lambda>ds. res_bind (f ds) (\<lambda>ds1. Ok (put_ds d ds1 s)))"

fun act :: "system \<Rightarrow> source_action \<Rightarrow> source_system \<Rightarrow> source_system result" where
  "act sys (Create d alloc type handle msk q) y = Ok (y\<lparr>sy_kq := fst (dispatch_source_create True d alloc type handle msk q (sy_kq y))\<rparr>)"
| "act sys (Retain d) y = on_kq y (change_ds d dispatch_retain (sy_kq y))"
| "act sys (Release d) y = on_kq y (source_xrelease d (sy_kq y))"
| "act sys (Suspend d) y = on_kq y (change_ds d (\<lambda>ds. Ok (dispatch_suspend ds)) (sy_kq y))"
| "act sys (Resume d) y = on_kq y (source_resume d (sy_kq y))"
| "act sys (Cancel d) y = on_kq y (dispatch_source_cancel d (sy_kq y))"
| "act sys (Merge_data d v) y = on_kq y (dispatch_source_merge_data d v (sy_kq y))"
| "act sys (Set_event_handler d bl) y = on_kq y (u_dispatch_source_set_event_handler2 bl d (sy_kq y))"
| "act sys (Set_event_handler_f d f) y = on_kq y (u_dispatch_source_set_event_handler_f f d (sy_kq y))"
| "act sys (Set_cancel_handler d c) y = on_kq y (u_dispatch_source_set_cancel_handler2 c d (sy_kq y))"
| "act sys (Set_cancel_handler_f d c) y = on_kq y (u_dispatch_source_set_cancel_handler_f c d (sy_kq y))"
| "act sys (Set_timer d now start interval leeway) y =
     res_bind (dispatch_source_set_timer u_dispatch_get_host_time_init now d start interval leeway (sy_kq y))
       (\<lambda>(s, p). Ok (y\<lparr>sy_kq := s, sy_params := sy_params y @ [p]\<rparr>))"
| "act sys Run_set_timer y =
     (case sy_params y of
        [] \<Rightarrow> Ok y
      | p # ps \<Rightarrow> on_kq (y\<lparr>sy_params := ps\<rparr>) (u_dispatch_source_set_timer2 sys p (sy_kq y)))"
| "act sys (Enqueue d) y = on_kq (y\<lparr>sy_queued := (sy_queued y)(d := sy_queued y d + 1)\<rparr>) (change_ds d u_dispatch_retain (sy_kq y))"
| "act sys (Invoke dq d) y = on_kq y (res_bind (u_dispatch_source_invoke sys dq d (sy_kq y)) (\<lambda>(s, q). Ok s))"
| "act sys (Dequeue d) y = on_kq (y\<lparr>sy_queued := (sy_queued y)(d := sy_queued y d - 1)\<rparr>) (source_release d (sy_kq y))"
| "act sys (Kevent kev) y = on_kq y (u_dispatch_mgr_thread2 [kev] (sy_kq y))"
| "act sys (Run_timers wn mn n) y =
     (case u_dispatch_run_timers sys wn mn n (sy_kq y) of None \<Rightarrow> Ok y | Some r \<Rightarrow> on_kq y r)"
| "act sys (Next_fire wn mn) y =
     on_kq y (res_bind (u_dispatch_get_next_timer_fire u_dispatch_get_host_time_init wn mn (sy_kq y)) (\<lambda>(s, ts). Ok s))"

text \<open>
  When an action may happen.  A client acts on a source that it holds a reference to, counts stay below \<open>2 ^ 31\<close>, only timers are
  set, a queue acts on the sources it holds, and the kernel reports kevents that are registered.
\<close>

definition pending :: "source_system \<Rightarrow> nat \<Rightarrow> nat" where
  "pending y d = length (filter (\<lambda>p. sp_ds p = d) (sy_params y))"

definition owned :: "source_system \<Rightarrow> nat \<Rightarrow> bool" where
  "owned y d = (case kq_ds (sy_kq y) d of None \<Rightarrow> False | Some ds \<Rightarrow> int (pending y d) < do_xref_cnt ds)"

definition few :: "source_system \<Rightarrow> nat \<Rightarrow> bool" where
  "few y d = (case kq_ds (sy_kq y) d of None \<Rightarrow> False | Some ds \<Rightarrow> do_ref_cnt ds < 2 ^ 31 \<and> do_xref_cnt ds < 2 ^ 31)"

definition timer_or_gone :: "kq \<Rightarrow> nat \<Rightarrow> bool" where
  "timer_or_gone s d \<longleftrightarrow> filter_of s d = None \<or> filter_of s d = Some DISPATCH_EVFILT_TIMER"

fun enabled :: "source_action \<Rightarrow> source_system \<Rightarrow> bool" where
  "enabled (Create d alloc type handle msk q) y \<longleftrightarrow>
     kq_ds (sy_kq y) d = None \<and> (case alloc of None \<Rightarrow> True | Some k \<Rightarrow> 4 \<le> k \<and> kq_dk (sy_kq y) k = None)"
| "enabled (Retain d) y \<longleftrightarrow> owned y d \<and> few y d"
| "enabled (Release d) y \<longleftrightarrow> owned y d"
| "enabled (Suspend d) y \<longleftrightarrow> owned y d"
| "enabled (Resume d) y \<longleftrightarrow> owned y d"
| "enabled (Cancel d) y \<longleftrightarrow> owned y d \<and> few y d"
| "enabled (Merge_data d v) y \<longleftrightarrow> owned y d"
| "enabled (Set_event_handler d bl) y \<longleftrightarrow> 0 < sy_queued y d"
| "enabled (Set_event_handler_f d f) y \<longleftrightarrow> 0 < sy_queued y d"
| "enabled (Set_cancel_handler d c) y \<longleftrightarrow> 0 < sy_queued y d"
| "enabled (Set_cancel_handler_f d c) y \<longleftrightarrow> 0 < sy_queued y d"
| "enabled (Set_timer d now start interval leeway) y \<longleftrightarrow> owned y d \<and> few y d \<and> timer_or_gone (sy_kq y) d"
| "enabled Run_set_timer y \<longleftrightarrow> True"
| "enabled (Enqueue d) y \<longleftrightarrow> few y d"
| "enabled (Invoke dq d) y \<longleftrightarrow> 0 < sy_queued y d"
| "enabled (Dequeue d) y \<longleftrightarrow> 0 < sy_queued y d"
| "enabled (Kevent kev) y \<longleftrightarrow>
     ke_filter kev = EVFILT_USER \<or> (case ke_udata kev of None \<Rightarrow> False | Some k \<Rightarrow> kq_dk (sy_kq y) k \<noteq> None)"
| "enabled (Run_timers wn mn n) y \<longleftrightarrow> True"
| "enabled (Next_fire wn mn) y \<longleftrightarrow> True"

inductive source_step :: "system \<Rightarrow> source_system \<Rightarrow> source_system \<Rightarrow> bool" for sys :: system where
  source_stepI: "enabled a y \<Longrightarrow> act sys a y = Ok z \<Longrightarrow> source_step sys y z"

definition source_start :: "source_system \<Rightarrow> bool" where
  "source_start y \<longleftrightarrow> y = \<lparr>sy_kq = kq_start, sy_queued = (\<lambda>_. 0), sy_params = []\<rparr>"

fun run_acts :: "system \<Rightarrow> source_action list \<Rightarrow> source_system \<Rightarrow> source_system option" where
  "run_acts sys [] y = Some y"
| "run_acts sys (a # as) y =
     (if enabled a y then (case act sys a y of Inl e \<Rightarrow> None | Inr z \<Rightarrow> run_acts sys as z) else None)"

lemma run_acts_reach:
  "run_acts sys as y = Some z \<Longrightarrow> reach source_start (source_step sys) y \<Longrightarrow> reach source_start (source_step sys) z"
  by (induction as arbitrary: y) (auto split: if_splits sum.splits, blast intro: reach_step source_stepI)

section \<open>The invariant\<close>

definition refs_good :: "kq \<Rightarrow> nat \<Rightarrow> nat \<Rightarrow> nat \<Rightarrow> bool" where
  "refs_good s q p d =
     (case R s d of
        None \<Rightarrow> q = 0 \<and> p = 0
      | Some (n, x, a, l, v) \<Rightarrow>
          n = of_bool (x \<noteq> 0) + of_bool (filter_of s d \<noteq> None) + int q \<and> 0 < n \<and> int p \<le> x \<and> n \<le> 2 ^ 31 \<and> x \<le> 2 ^ 31 \<and>
          l = Listless \<and> v = Source_kevent_vtable \<and> (filter_of s d = None \<longrightarrow> \<not> a))"





lemma kinv_log [simp]: "kinv (log_call c s) = kinv s" "filter_of (log_call c s) = filter_of s"
proof -
  have sh: "same_shape s (log_call c s)" "same_shape (log_call c s) s"
    by (simp_all add: same_shape_def)
  show "kinv (log_call c s) = kinv s"
    using steady_same_shape [OF _ sh(1)] steady_same_shape [OF _ sh(2)] by (auto simp: steady_def)
  show "filter_of (log_call c s) = filter_of s"
    by (rule filter_of_cong) simp_all
qed



section \<open>Each operation keeps the invariant\<close>

text \<open>A change that touches the counts of one source only, which stay exact.\<close>

definition changed :: "kq \<Rightarrow> nat \<Rightarrow> nat \<Rightarrow> nat \<Rightarrow> kq \<Rightarrow> bool" where
  "changed s d q p t \<longleftrightarrow> kinv t \<and> (\<forall>e. e \<noteq> d \<longrightarrow> R t e = R s e \<and> filter_of t e = filter_of s e) \<and>
     (filter_of t d = None \<or> filter_of t d = filter_of s d) \<and> refs_good t q p d"



lemma refs_good_cong:
  assumes "R t d = R s d" "filter_of t d = filter_of s d"
  shows "refs_good t q p d = refs_good s q p d"
  unfolding refs_good_def assms ..














lemma changed_log [simp]: "changed s d q p (log_call c t) = changed s d q p t"
proof -
  have "refs_good (log_call c t) q p d = refs_good t q p d"
    by (rule refs_good_cong) simp_all
  then show ?thesis
    by (simp add: changed_def)
qed


























section \<open>Cancellation\<close>

text \<open>
  What the registration code leaves alone: the handlers, the flags and the target queue of every source.  The only calls it makes
  are wake-ups.
\<close>

definition settings :: "source \<Rightarrow> nat option \<times> nat option \<times> nat option \<times> bool \<times> bool \<times> bool \<times> u64 \<times> nat option" where
  "settings ds = (ds_handler_func ds, ds_handler_ctxt ds, ds_cancel_handler ds, ds_cancel_is_block ds, ds_handler_is_block ds, ds_is_installed ds,
     ds_atomic_flags ds, do_targetq ds)"

definition quiet :: "kq \<Rightarrow> kq \<Rightarrow> bool" where
  "quiet s t \<longleftrightarrow> (\<forall>d. map_option settings (kq_ds t d) = map_option settings (kq_ds s d)) \<and> (\<exists>ws. kq_calls t = kq_calls s @ map Wakeup ws)"




lemma quiet_other [simp]:
  "quiet (s\<lparr>kq_dk := f\<rparr>) t = quiet s t" "quiet s (t\<lparr>kq_dk := f\<rparr>) = quiet s t" "quiet s (t\<lparr>kq_table := tab\<rparr>) = quiet s t"
  "quiet s (t\<lparr>kq_changes := c\<rparr>) = quiet s t" "quiet (s\<lparr>kq_changes := c\<rparr>) t = quiet s t"
  by (simp_all add: quiet_def)










section \<open>Properties\<close>



definition start_system :: source_system where
  "start_system = \<lparr>sy_kq = kq_start, sy_queued = (\<lambda>_. 0), sy_params = []\<rparr>"


lemma start_reach: "reach source_start (source_step sys) start_system"
  by (intro reach_init) (simp add: source_start_def start_system_def)
















section \<open>The fall-back to select\<close>

text \<open>
  C40: When a reader of a descriptor goes that the kernel watches, while a writer of the same descriptor was refused by the kernel and
  is watched with \<open>select\<close>, the case for \<open>EVFILT_READ\<close> falls through into that for \<open>EVFILT_WRITE\<close>: the writer is
  dropped from the set, and the kevent of the reader is freed without telling the kernel, which keeps a pointer to it.
\<close>

theorem read_delete_drops_writer:
  assumes "kq_dk s k = Some dk" "ke_filter (dk_kevent dk) = EVFILT_READ" "\<not> flag_in EV_DELETE (ke_flags (dk_kevent dk))"
    "ke_ident (dk_kevent dk) = fd" "fd < FD_SETSIZE" "\<not> kq_rfds s fd" "kq_wfds s fd"
  shows "\<exists>t. u_dispatch_kevent_dispose sys k s = Ok t \<and> kq_dk t k = None \<and> kq_changes t = kq_changes s \<and> \<not> kq_wfds t fd \<and> kq_wfd_ptrs t fd = None"
proof -
  have "\<not> custom_filter EVFILT_READ" "EVFILT_READ \<noteq> EVFILT_PROC"
    by (simp_all add: custom_filter_def EVFILT_READ_def EVFILT_PROC_def DISPATCH_EVFILT_TIMER_def DISPATCH_EVFILT_CUSTOM_ADD_def
        DISPATCH_EVFILT_CUSTOM_OR_def EVFILT_SYSCOUNT_def)
  moreover have "flag_in EV_DELETE ((f OR EV_DELETE) OR EV_RECEIPT)" for f
  proof -
    have "bit (((f OR EV_DELETE) OR EV_RECEIPT) AND EV_DELETE) 1"
      by (simp add: bit_simps EV_DELETE_def)
    then show ?thesis
      by auto
  qed
  ultimately show ?thesis
    using assms
    by (simp add: u_dispatch_kevent_dispose_def u_dispatch_update_kq_def select_delete_def select_delete_write_def get_dk_def put_dk_def
        bucket_remove_def Let_def not_le)
qed

text \<open>The kernel refuses writers; a reader and a writer of descriptor 5 are installed.\<close>

definition kernel_no_write :: system where
  "kernel_no_write n kev = Some (if ke_filter kev = EVFILT_WRITE then 1 else 0)"

definition reader_and_writer :: "source_action list" where
  "reader_and_writer =
     [Create 1 (Some 10) (Some u_dispatch_source_type_read) 5 0 7, Create 2 (Some 11) (Some u_dispatch_source_type_write) 5 0 7,
      Resume 1, Resume 2, Enqueue 1, Invoke 0 1, Enqueue 2, Invoke 0 2]"

lemma reader_and_writer_run:
  "case run_acts kernel_no_write reader_and_writer start_system of None \<Rightarrow> False
   | Some y \<Rightarrow> map_option (\<lambda>dk. (ke_filter (dk_kevent dk), ke_flags (dk_kevent dk) AND EV_DELETE, ke_ident (dk_kevent dk))) (kq_dk (sy_kq y) 10) =
         Some (EVFILT_READ, 0, 5) \<and> \<not> kq_rfds (sy_kq y) 5 \<and> kq_wfds (sy_kq y) 5"
  by code_simp

theorem read_delete_drops_writer_witness:
  "\<exists>y t. reach source_start (source_step kernel_no_write) y \<and> kq_wfds (sy_kq y) 5 \<and>
     u_dispatch_kevent_dispose kernel_no_write 10 (sy_kq y) = Ok t \<and> kq_dk t 10 = None \<and> kq_changes t = kq_changes (sy_kq y) \<and> \<not> kq_wfds t 5"
proof -
  obtain y dk where y: "run_acts kernel_no_write reader_and_writer start_system = Some y" and dk: "kq_dk (sy_kq y) 10 = Some dk"
      "ke_filter (dk_kevent dk) = EVFILT_READ" "\<not> flag_in EV_DELETE (ke_flags (dk_kevent dk))" "ke_ident (dk_kevent dk) = 5"
      "\<not> kq_rfds (sy_kq y) 5" "kq_wfds (sy_kq y) 5"
    using reader_and_writer_run by (auto split: option.splits)
  have "(5 :: u64) < FD_SETSIZE"
    by (simp add: FD_SETSIZE_def)
  from read_delete_drops_writer [OF dk(1-4) this dk(5,6)] run_acts_reach [OF y start_reach] dk(6) show ?thesis
    by blast
qed

text \<open>
  A reader that is watched with \<open>select\<close> is not watched again after its first event: its kevent has lost \<open>EV_ADD\<close> at the first
  registration, and without that flag \<open>_dispatch_update_kq\<close> does not come to the fall-back, whatever the kernel answers.
\<close>

theorem select_reader_not_rearmed:
  assumes "kq_dk s k = Some dk" "ke_filter (dk_kevent dk) = EVFILT_READ" "\<not> flag_in EV_ADD (ke_flags (dk_kevent dk))"
    "\<not> flag_in EV_DELETE (ke_flags (dk_kevent dk))" "u_dispatch_kevent_resume sys k s = Ok t"
  shows "kq_rfds t = kq_rfds s"
proof -
  have "\<not> custom_filter EVFILT_READ" "EVFILT_READ \<noteq> EVFILT_PROC"
    by (simp_all add: custom_filter_def EVFILT_READ_def EVFILT_PROC_def DISPATCH_EVFILT_TIMER_def DISPATCH_EVFILT_CUSTOM_ADD_def
        DISPATCH_EVFILT_CUSTOM_OR_def EVFILT_SYSCOUNT_def)
  moreover have "\<not> flag_in EV_DELETE (ke_flags (dk_kevent dk) OR EV_RECEIPT)"
  proof -
    have "(ke_flags (dk_kevent dk) OR EV_RECEIPT) AND EV_DELETE = ke_flags (dk_kevent dk) AND EV_DELETE"
      by (simp add: bit.conj_disj_distrib2 EV_RECEIPT_def EV_DELETE_def)
    then show ?thesis
      using assms(4) by simp
  qed
  ultimately show ?thesis
    using assms
    by (auto simp: u_dispatch_kevent_resume_def u_dispatch_update_kq_def get_dk_def put_dk_def Let_def res_bind_Ok_iff split: option.splits if_splits)
qed

end
