(* ===== verification/Spec2Isabelle.thy ===== *)
theory Spec2Isabelle
  imports Dispatch_Time Dispatch_Once Dispatch_Dispose Dispatch_Root Dispatch_Queue_Proofs Dispatch_Concurrent_Proofs
    Dispatch_Apply Dispatch_Group_Proofs Blocks_Runtime Pwq_Overcommit Dispatch_Source_System
begin

text \<open>
  A verification library for xdispatch, the portable build of Grand Central Dispatch.

  \<^bold>\<open>The program.\<close>  Clients of \<open>libdispatch\<close> submit functions to queues.  A queue is an object with a
  reference count and a suspend count (\<open>object.c\<close>), a lock-free list of items
  (\<open>queue_internal.h\<close>) and a target queue.  A serial queue that has work is pushed onto its
  target as an item itself; at the end of the chain is a root queue, which asks a pool of threads for a
  worker.  The pool is \<open>libpthread_workqueue\<close>: a manager thread that starts and stops workers, and the
  overcommit workers.  Semaphores and groups (\<open>semaphore.c\<close>), \<open>dispatch_once_f\<close> (\<open>once.c\<close>) and
  \<open>dispatch_apply_f\<close> (\<open>apply.c\<close>) are built on atomic counters and kernel semaphores.  Event
  sources (\<open>source.c\<close>, \<open>source_kevent.c\<close>) are objects that a manager queue registers with the
  kernel (\<open>queue_kevent.c\<close>) and that are invoked on their target queues; timers are kept in sorted
  lists.  The functions that clients submit are often blocks, which \<open>libblocksruntime/runtime.c\<close> copies
  and releases.

  \<^bold>\<open>Conventions.\<close>  The models are of the Linux build for x86-64 with POSIX semaphores and pthread work
  queues, without Mach, the legacy interface, debug output and performance counters.  A C name keeps its spelling; a leading
  underscore is \<open>u_\<close>.  Structs are records, and the object header \<open>dobject\<close> is extended by each kind of
  object.  Values whose wrap-around matters are machine words; counters are integers.  A
  crash, a message that blames the client and an access of freed memory are values of the type \<open>crash\<close>,
  and memory is explicit, so absence of such errors is a theorem.  Concurrent code is a list of
  threads, each with a program counter that names its next access of shared memory or
  its next system call; an action is a function of the state and the counter, and a step relation picks
  any thread.  Interleaving is sequentially consistent: the
  atomic operations of \<open>platform/atomic.h\<close> are full barriers on x86-64, and the delay of a plain store between
  them is not modelled.  Timeouts, interrupts and failing system calls are choices of the step, readings of clocks and answers of the
  kernel are arguments.

  \<^bold>\<open>Theories.\<close>
    \<^item> \<open>Dispatch_Prelude\<close>: types, crashes, reachable states, the locale \<open>invariant_system\<close> that every
      step system below interprets, and sums over threads (\<open>tsum\<close>), on which the counting invariants rest.
    \<^item> \<open>Dispatch_Time\<close> (\<open>time.c\<close>, \<open>shims/time.h\<close>): \<open>dispatch_time\<close> refines a saturating addition on
      an abstract type of moments; timeouts and times are inverse to each other; the POSIX
      deadline is right for the absolute clock and wrong for the wall clock.
    \<^item> \<open>Dispatch_Once\<close> (\<open>once.c\<close>): the function runs once, everybody who returns sees its effect, and
      everybody can return.
    \<^item> \<open>Dispatch_Object\<close> (\<open>object.c\<close>, \<open>object_internal.h\<close>): reference and suspend counts, and disposal
      along the chain of target queues.  The locale \<open>disposable\<close> is the contract of a dispose function; inside it
      releasing is shown to keep all counts right.  \<open>Dispatch_Dispose\<close> interprets it on the dispose functions
      of queues and semaphores.
    \<^item> \<open>Dispatch_Fifo\<close>: the list of a queue at the level of pointers refines an abstract queue, for any
      number of pushers and one drainer.
    \<^item> \<open>Dispatch_Root\<close> (\<open>_dispatch_queue_concurrent_drain_one\<close>, \<open>_dispatch_queue_wakeup_global\<close>,
      \<open>_dispatch_worker_thread2\<close>): root queues with many workers keep the order and lose no item.
    \<^item> \<open>Dispatch_Queue\<close>, \<open>Dispatch_Queue_Proofs\<close> (\<open>queue.c\<close>): one serial queue with asynchronous and
      synchronous submission, suspension, target changes, references and disposal: order, exclusion, memory
      safety, no lost work, and a concrete run in which two synchronous callers overlap.
    \<^item> \<open>Dispatch_Concurrent\<close>, \<open>Dispatch_Concurrent_Proofs\<close> (\<open>queue.c\<close>, \<open>continuation_cache.c\<close>): one queue of
      width above 1 with readers, barriers and the redirection to the root queue: barriers run alone and separate
      what is before them from what is behind them, the width bounds the redirected functions, and no work is
      lost.  Two concrete runs show a null pointer in the redirection and a reader that overlaps a barrier.
    \<^item> \<open>Dispatch_Semaphore\<close> (\<open>semaphore.c\<close>): no wake-up is lost, the number of waits that pass is bounded, and no
      thread uses a freed semaphore.
    \<^item> \<open>Dispatch_Apply\<close> (\<open>apply.c\<close>): a parallel call ends, calls the function once for each
      index, computes what the loop computes when the calls commute, and leaves nobody with a pointer to the
      caller's stack.  Its semaphore is that of \<open>Dispatch_Semaphore\<close>.
    \<^item> \<open>Dispatch_Group\<close>, \<open>Dispatch_Group_Proofs\<close> (\<open>semaphore.c\<close>): groups with waiters and the linked
      list of notifications: a group that runs empty leaves nobody behind, and the list is memory safe and in order.  Two
      concrete runs show a notification that is submitted while work is outstanding and a surplus post.
    \<^item> \<open>Blocks_Runtime\<close> (\<open>runtime.c\<close>): the counts in the flags of a block are exact until they
      saturate, and blocks share a \<open>__block\<close> variable until the last release.
    \<^item> \<open>Pwq_Manager\<close>, \<open>Pwq_Pool\<close>, \<open>Pwq_Overcommit\<close> (\<open>api.c\<close>, \<open>witem_cache.c\<close>, \<open>posix/manager.c\<close>):
      scanning by priority, the decisions of the manager, and the two kinds of workers as step systems, with
      concrete runs for a lost wake-up, a failed start of a thread and a fork.
    \<^item> \<open>Dispatch_Source\<close>, \<open>Dispatch_Source_Proofs\<close>, \<open>Dispatch_Source_Install\<close>, \<open>Dispatch_Timers\<close>,
      \<open>Dispatch_Source_System\<close> (\<open>source.c\<close>, \<open>source_kevent.c\<close>, \<open>queue_kevent.c\<close>): the table of kevents
      and the sources stay well formed under every action of clients, queues, the kernel and the manager;
      timers fire when they are due; cancellation finishes.

  \<^bold>\<open>How the parts meet.\<close>  The serial and the concurrent queue use the abstract queue that the pointer list refines, and
  treat their target as a place from where some thread takes what was enqueued, which is what the
  theorems on root queues show.  Root queues see the pool as a bag of requests, and the
  theorems on the pool say which requests are served.  Synchronous calls use the count of a thread's
  semaphore, and apply uses the semaphore code itself.  Groups and sources log what they submit to queues.

  \<^bold>\<open>Bounds and fuel.\<close>  Copying and releasing blocks has a bound on the depth in which blocks import each other; the
  theorem on its counts holds for every positive bound, since a block on the heap is not copied again.  The loop
  that fires timers has a bound on its turns, and the theorem on it says how many are enough.  All
  other loops are steps of a machine, with a measure where a theorem says that they end.  Clients stay
  within the widths of counters where a definition says so: fewer than \<open>LONG_MAX\<close> units of work in
  a group, fewer than \<open>2 ^ 32\<close> waiters, reference counts below that of a global object, and an
  index count of apply that does not wrap together with the number of threads.

  \<^bold>\<open>Not modelled.\<close>
    \<^item> The main queue with \<open>dispatch_main\<close> and the clean-up when a thread exits, which are calls of
      \<open>pthread_exit\<close>, of signal masks and of the event loop of an application; changes of the width or the
      target of a concurrent queue while it has work.
    \<^item> The loop of \<open>_dispatch_mgr_invoke\<close>, which blocks in \<open>select\<close> and \<open>kevent\<close>; its calls are
      actions of the system of sources.
    \<^item> The contents of the per-thread cache of continuations: only its length is part of a model.
    \<^item> \<open>libkqueue\<close>, and the files of \<open>libpthread_workqueue\<close> that read the load of the system: system calls, whose
      results are arguments here.
    \<^item> \<open>libxdispatch\<close> and \<open>libqtdispatch\<close>: C++ and Qt classes that forward to the C functions.
    \<^item> The legacy and Mach interfaces and the Windows, Darwin and Solaris layers, which are not part of
      the build, and code that only prints or measures.
\<close>

end
